(* ===== verification/Tempest_Prelude.thy ===== *)
theory Tempest_Prelude
  imports Main "HOL-Library.Word" "HOL-Library.Multiset" "HOL-Library.List_Lexorder"
    "HOL-Library.Product_Lexorder" "HOL-Library.Char_ord"
begin

text \<open>
  Shared vocabulary of the development: how Go's basic types are read in HOL, the iteration
  order of Go maps, decimal rendering, and the list, map and string lemmas that several
  components use.

  \<^item> \<^typ>\<open>string\<close> is Go's \<open>string\<close>, a sequence of bytes.
  \<^item> \<open>gotime\<close> is \<open>time.Time\<close>, in nanoseconds since Go's zero time, so that \<open>0\<close> is the value
    for which \<open>IsZero\<close> holds; \<open>duration\<close> is \<open>time.Duration\<close>, in nanoseconds. Both are
    unbounded integers, except for \<open>Time.Sub\<close>, which saturates as Go's does.
  \<^item> A pointer field that may be nil is an \<open>option\<close>.
  \<^item> A Go map is a partial function. The order in which \<open>range\<close> visits its keys is not
    specified by the language, so an operation that ranges over a map takes that order as an
    argument, and its theorems hold for every order that \<open>enumerates\<close> the map.
  \<^item> \<open>float64\<close> values the code only stores are kept as their 64 bits.
\<close>

section \<open>Go's basic types\<close>

type_synonym gotime = int
type_synonym duration = int
type_synonym float64 = "64 word"
type_synonym uint64 = "64 word"

abbreviation (input) Nanosecond :: duration where "Nanosecond \<equiv> 1"
abbreviation (input) Millisecond :: duration where "Millisecond \<equiv> 1000000"
abbreviation (input) Second :: duration where "Second \<equiv> 1000000000"
abbreviation (input) Minute :: duration where "Minute \<equiv> 60 * Second"
abbreviation (input) Hour :: duration where "Hour \<equiv> 60 * Minute"

text \<open>\<open>Time.Before\<close>, \<open>Time.After\<close>, \<open>Time.Add\<close>, \<open>Time.IsZero\<close> and \<open>Time.Sub\<close>.\<close>

abbreviation (input) time_Before :: "gotime \<Rightarrow> gotime \<Rightarrow> bool" where "time_Before t u \<equiv> t < u"
abbreviation (input) time_After :: "gotime \<Rightarrow> gotime \<Rightarrow> bool" where "time_After t u \<equiv> u < t"
abbreviation (input) time_Add :: "gotime \<Rightarrow> duration \<Rightarrow> gotime" where "time_Add t d \<equiv> t + d"
abbreviation (input) time_IsZero :: "gotime \<Rightarrow> bool" where "time_IsZero t \<equiv> t = 0"

definition time_Sub :: "gotime \<Rightarrow> gotime \<Rightarrow> duration" where
  "time_Sub t u = max (- (2 ^ 63)) (min (2 ^ 63 - 1) (t - u))"

lemma time_Sub_less: "d < 2 ^ 63 - 1 \<Longrightarrow> - (2 ^ 63) \<le> d \<Longrightarrow> d < time_Sub t u \<longleftrightarrow> d < t - u"
  by (auto simp: time_Sub_def max_def min_def)

text \<open>A value of Go's \<open>any\<close>, as far as payloads carry it.\<close>

datatype go_any =
    AnyNil
  | AnyString string
  | AnyInt int
  | AnyBool bool
  | AnyFloat float64
  | AnyList "go_any list"
  | AnyMap "(string \<times> go_any) list"

section \<open>Go maps\<close>

text \<open>
  \<open>ks\<close> is an order in which \<open>range m\<close> may visit the keys of \<open>m\<close>. Because every order is
  allowed, sorting the visited values with a stable sort also covers every result the
  unstable \<open>sort.Slice\<close> may return: a sorted permutation is the stable sort of itself.
\<close>

definition enumerates :: "'k list \<Rightarrow> ('k \<rightharpoonup> 'v) \<Rightarrow> bool" where
  "enumerates ks m \<longleftrightarrow> distinct ks \<and> set ks = dom m"

definition map_values :: "'k list \<Rightarrow> ('k \<rightharpoonup> 'v) \<Rightarrow> 'v list" where
  "map_values ks m = List.map_filter m ks"

lemma map_values_Nil [simp]: "map_values [] m = []"
  by (simp add: map_values_def)

lemma map_values_Cons [simp]:
  "map_values (k # ks) m = (case m k of None \<Rightarrow> map_values ks m | Some v \<Rightarrow> v # map_values ks m)"
  by (simp add: map_values_def map_filter_def split: option.splits)

lemma set_map_values: "set (map_values ks m) = {v. \<exists>k \<in> set ks. m k = Some v}"
  by (induction ks) (auto split: option.splits)

lemma set_map_values_enum: "enumerates ks m \<Longrightarrow> set (map_values ks m) = ran m"
  by (auto simp: set_map_values enumerates_def ran_def)

lemma enumerates_finite: "enumerates ks m \<Longrightarrow> finite (dom m)"
  by (metis List.finite_set enumerates_def)

lemma finite_dom_enumerates:
  assumes "finite (dom m)"
  obtains ks where "enumerates ks m"
  using assms finite_distinct_list[of "dom m"] by (auto simp: enumerates_def)

lemma enumerates_empty [simp]: "enumerates [] (\<lambda>_. None)"
  by (simp add: enumerates_def)

lemma length_map_values: "set ks \<subseteq> dom m \<Longrightarrow> length (map_values ks m) = length ks"
  by (induction ks) (auto split: option.splits)

section \<open>Key strings\<close>

text \<open>
  The stores build their map keys by joining names with a separator. A key determines its
  parts as long as the parts before the last separator do not contain it.
\<close>

lemma append_sep_inject:
  assumes "c \<notin> set xs" "c \<notin> set ys"
  shows "xs @ c # us = ys @ c # vs \<longleftrightarrow> xs = ys \<and> us = vs"
  using assms
proof (induction xs arbitrary: ys)
  case Nil
  then show ?case by (cases ys) auto
next
  case (Cons x xs)
  then show ?case by (cases ys) auto
qed

lemma append_sep_inject_right:
  assumes "c \<notin> set us" "c \<notin> set vs"
  shows "xs @ c # us = ys @ c # vs \<longleftrightarrow> xs = ys \<and> us = vs"
proof -
  have "xs @ c # us = ys @ c # vs \<longleftrightarrow> rev (xs @ c # us) = rev (ys @ c # vs)"
    by (simp only: rev_is_rev_conv)
  also have "\<dots> \<longleftrightarrow> rev us @ c # rev xs = rev vs @ c # rev ys"
    by simp
  also have "\<dots> \<longleftrightarrow> rev us = rev vs \<and> rev xs = rev ys"
    using assms by (intro append_sep_inject) auto
  finally show ?thesis by auto
qed

subsection \<open>Decimal rendering\<close>

text \<open>\<open>fmt.Sprintf("%d", i)\<close>.\<close>

definition digit_char :: "nat \<Rightarrow> char" where
  "digit_char d = ''0123456789'' ! d"

fun nat_decimal :: "nat \<Rightarrow> string" where
  "nat_decimal n = (if n < 10 then [digit_char n] else nat_decimal (n div 10) @ [digit_char (n mod 10)])"

declare nat_decimal.simps [simp del]

definition itoa :: "int \<Rightarrow> string" where
  "itoa i = (if i < 0 then CHR ''-'' # nat_decimal (nat (- i)) else nat_decimal (nat i))"

definition digit_val :: "char \<Rightarrow> nat" where
  "digit_val c = of_char c - 48"

definition decimal_val :: "string \<Rightarrow> nat" where
  "decimal_val s = foldl (\<lambda>acc c. acc * 10 + digit_val c) 0 s"

lemma digit_val_char [simp]: "d < 10 \<Longrightarrow> digit_val (digit_char d) = d"
proof -
  assume "d < 10"
  then have "d = 0 \<or> d = 1 \<or> d = 2 \<or> d = 3 \<or> d = 4 \<or> d = 5 \<or> d = 6 \<or> d = 7 \<or> d = 8 \<or> d = 9"
    by arith
  then show ?thesis
    by (elim disjE) (simp_all add: digit_val_def digit_char_def)
qed

lemma decimal_val_nat_decimal [simp]: "decimal_val (nat_decimal n) = n"
proof (induction n rule: nat_decimal.induct)
  case (1 n)
  show ?case
  proof (cases "n < 10")
    case True
    then show ?thesis by (simp add: nat_decimal.simps[of n] decimal_val_def)
  next
    case False
    with "1.IH" have "foldl (\<lambda>acc c. acc * 10 + digit_val c) 0 (nat_decimal (n div 10)) = n div 10"
      by (simp add: decimal_val_def)
    with False show ?thesis by (simp add: nat_decimal.simps[of n] decimal_val_def)
  qed
qed

lemma nat_decimal_inject [simp]: "nat_decimal m = nat_decimal n \<longleftrightarrow> m = n"
  by (metis decimal_val_nat_decimal)

lemma digit_char_range: "d < 10 \<Longrightarrow> digit_char d \<in> set ''0123456789''"
  unfolding digit_char_def by (rule nth_mem) simp

lemma set_nat_decimal: "set (nat_decimal n) \<subseteq> set ''0123456789''"
proof (induction n rule: nat_decimal.induct)
  case (1 n)
  then show ?case
    using digit_char_range[of n] digit_char_range[of "n mod 10"]
    by (subst nat_decimal.simps) (simp split: if_split)
qed

lemma minus_notin_nat_decimal: "CHR ''-'' \<notin> set (nat_decimal n)"
  using set_nat_decimal[of n] by auto

lemma itoa_inject [simp]: "itoa i = itoa j \<longleftrightarrow> i = j"
proof -
  have ne: "CHR ''-'' # u \<noteq> nat_decimal n" for u n
    using minus_notin_nat_decimal[of n] by (metis list.set_intros(1))
  show ?thesis
    using ne ne[symmetric] by (cases "i < 0"; cases "j < 0") (simp_all add: itoa_def, arith+)
qed

lemma set_itoa: "set (itoa i) \<subseteq> insert CHR ''-'' (set ''0123456789'')"
proof -
  have "set (itoa i) \<subseteq> insert CHR ''-'' (set (nat_decimal (nat (if i < 0 then - i else i))))"
    by (auto simp: itoa_def)
  also have "\<dots> \<subseteq> insert CHR ''-'' (set ''0123456789'')"
    by (rule insert_mono) (rule set_nat_decimal)
  finally show ?thesis .
qed

subsection \<open>Quoting\<close>

text \<open>\<open>fmt.Sprintf("%q", s)\<close> on ASCII text.\<close>

definition hex_digit :: "nat \<Rightarrow> char" where
  "hex_digit d = ''0123456789abcdef'' ! d"

definition quote_char :: "char \<Rightarrow> string" where
  "quote_char c =
     (let n = of_char c :: nat; esc = CHR 0x5C in
      if n = 0x22 \<or> n = 0x5C then [esc, c]
      else if 0x20 \<le> n \<and> n < 0x7F then [c]
      else if n = 7 then [esc, CHR ''a''] else if n = 8 then [esc, CHR ''b'']
      else if n = 9 then [esc, CHR ''t''] else if n = 10 then [esc, CHR ''n'']
      else if n = 11 then [esc, CHR ''v''] else if n = 12 then [esc, CHR ''f'']
      else if n = 13 then [esc, CHR ''r'']
      else [esc, CHR ''x'', hex_digit (n div 16), hex_digit (n mod 16)])"

definition Quote :: "string \<Rightarrow> string" where
  "Quote s = CHR 0x22 # concat (map quote_char s) @ [CHR 0x22]"

section \<open>Lists\<close>

text \<open>
  The loop \<open>for i, x := range xs { if p(x) { xs[i] = f(x); break } }\<close>: the first element that
  satisfies \<open>p\<close> is replaced, and \<open>None\<close> says that there is none.
\<close>

fun update_first :: "('a \<Rightarrow> bool) \<Rightarrow> ('a \<Rightarrow> 'a) \<Rightarrow> 'a list \<Rightarrow> 'a list option" where
  "update_first p f [] = None"
| "update_first p f (x # xs) =
     (if p x then Some (f x # xs) else map_option ((#) x) (update_first p f xs))"

lemma update_first_None: "update_first p f xs = None \<longleftrightarrow> (\<forall>x \<in> set xs. \<not> p x)"
  by (induction xs) auto

lemma length_update_first: "update_first p f xs = Some ys \<Longrightarrow> length ys = length xs"
  by (induction xs arbitrary: ys) (auto split: if_splits)

lemma update_first_map:
  assumes "distinct (map k xs)" "update_first (\<lambda>x. k x = a) f xs = Some ys"
  shows "ys = map (\<lambda>x. if k x = a then f x else x) xs"
  using assms
  by (induction xs arbitrary: ys) (auto simp: image_iff intro!: map_idI [symmetric] split: if_splits)

lemma find_Some_prop: "find p xs = Some x \<Longrightarrow> p x \<and> x \<in> set xs"
  by (auto simp: find_Some_iff)

lemma distinct_length_card:
  assumes "card N = k" "distinct r" "set r \<subseteq> N" "finite N"
  shows "length r = k \<longleftrightarrow> set r = N"
  using assms card_subset_eq[of N "set r"] distinct_card[of r] by auto

text \<open>Offset and limit of a listing, as every \<open>List\<close> operation of the store applies them.\<close>

definition take_limit :: "int \<Rightarrow> 'a list \<Rightarrow> 'a list" where
  "take_limit limit xs = (if limit > 0 \<and> int (length xs) > limit then take (nat limit) xs else xs)"

definition drop_offset :: "int \<Rightarrow> 'a list \<Rightarrow> 'a list" where
  "drop_offset offset xs =
     (if offset > 0 then if offset \<ge> int (length xs) then [] else drop (nat offset) xs else xs)"

lemma take_limit_eq: "take_limit limit xs = (if limit > 0 then take (nat limit) xs else xs)"
  by (auto simp: take_limit_def)

lemma drop_offset_eq: "drop_offset offset xs = drop (nat offset) xs"
  by (auto simp: drop_offset_def)

lemma length_take_limit: "limit > 0 \<Longrightarrow> int (length (take_limit limit xs)) \<le> limit"
  by (simp add: take_limit_eq)

lemma set_take_limit: "set (take_limit limit xs) \<subseteq> set xs"
  by (auto simp: take_limit_eq dest: in_set_takeD)

end
