(* ===== verification/Run_Types.thy ===== *)
theory Run_Types
  imports Tempest_Prelude
begin

text \<open>
  The domain types of \<open>pkg/types\<close> and the error taxonomy of \<open>pkg/errors\<close>.

  A Go string enumeration is a datatype with one constructor per declared constant and a last
  constructor for any other string, so that the zero value \<open>""\<close> (what a lookup of a missing key
  returns) is a value of the type. Struct fields carry the short name of their struct.
\<close>

section \<open>States\<close>

datatype StepState =
    StepPending
  | StepQueued
  | StepRunning
  | StepSucceeded
  | StepFailed
  | StepSkipped
  | StepOther string

datatype RunState =
    StatePending
  | StateQueued
  | StateRunning
  | StateSucceeded
  | StateFailed
  | StateCancelled
  | StateTimedOut
  | StateOther string

definition RunState_consts :: "(RunState \<times> string) list" where
  "RunState_consts =
     [(StatePending, ''PENDING''), (StateQueued, ''QUEUED''), (StateRunning, ''RUNNING''),
      (StateSucceeded, ''SUCCEEDED''), (StateFailed, ''FAILED''),
      (StateCancelled, ''CANCELLED''), (StateTimedOut, ''TIMED_OUT'')]"

definition RunState_string :: "RunState \<Rightarrow> string" where
  "RunState_string s =
     (case s of StateOther x \<Rightarrow> x | _ \<Rightarrow> the (map_of RunState_consts s))"

definition RunState_of :: "string \<Rightarrow> RunState" where
  "RunState_of s =
     (case map_of (map prod.swap RunState_consts) s of Some c \<Rightarrow> c | None \<Rightarrow> StateOther s)"

definition IsTerminal :: "RunState \<Rightarrow> bool" where
  "IsTerminal s \<longleftrightarrow> (case s of
      StateSucceeded \<Rightarrow> True
    | StateFailed \<Rightarrow> True
    | StateCancelled \<Rightarrow> True
    | StateTimedOut \<Rightarrow> True
    | _ \<Rightarrow> False)"

lemma IsTerminal_simps [simp]:
  "IsTerminal StateSucceeded" "IsTerminal StateFailed" "IsTerminal StateCancelled"
  "IsTerminal StateTimedOut" "\<not> IsTerminal StatePending" "\<not> IsTerminal StateQueued"
  "\<not> IsTerminal StateRunning" "\<not> IsTerminal (StateOther s)"
  by (simp_all add: IsTerminal_def)

text \<open>
  \<open>strings.TrimSpace\<close> and \<open>strings.ToUpper\<close> on ASCII text: the six ASCII white space bytes are
  cut from both ends, and \<open>a\<close>..\<open>z\<close> become capitals.
\<close>

definition is_space :: "char \<Rightarrow> bool" where
  "is_space c \<longleftrightarrow> of_char c \<in> {9, 10, 11, 12, 13, 32 :: nat}"

definition TrimSpace :: "string \<Rightarrow> string" where
  "TrimSpace s = rev (dropWhile is_space (rev (dropWhile is_space s)))"

definition upper_char :: "char \<Rightarrow> char" where
  "upper_char c = (if of_char c \<ge> (97 :: nat) \<and> of_char c \<le> (122 :: nat)
     then char_of (of_char c - 32 :: nat) else c)"

definition ToUpper :: "string \<Rightarrow> string" where
  "ToUpper s = map upper_char s"

definition ParseRunState :: "string \<Rightarrow> string + RunState" where
  "ParseRunState s =
     (let c = RunState_of (ToUpper (TrimSpace s)) in
      case c of StateOther _ \<Rightarrow> Inl (''unknown run state '' @ Quote s) | _ \<Rightarrow> Inr c)"

lemma RunState_of_string: "RunState_of (RunState_string s) = s \<or> (\<exists>x. s = StateOther x)"
  by (cases s) (simp_all add: RunState_of_def RunState_string_def RunState_consts_def)

lemma TrimSpace_pad:
  assumes "list_all is_space xs" "list_all is_space ys" "s \<noteq> []" "\<not> is_space (hd s)" "\<not> is_space (last s)"
  shows "TrimSpace (xs @ s @ ys) = s"
proof -
  have drop: "dropWhile is_space (us @ t) = t" if "list_all is_space us" "t = [] \<or> \<not> is_space (hd t)" for us t
    using that by (induction us) (auto simp: neq_Nil_conv, (cases t; auto)?)
  have "dropWhile is_space (xs @ s @ ys) = s @ ys"
    using drop[of xs "s @ ys"] assms by simp
  moreover have "dropWhile is_space (rev (s @ ys)) = rev s"
    using drop[of "rev ys" "rev s"] assms by (simp add: hd_rev list_all_iff)
  ultimately show ?thesis by (simp add: TrimSpace_def)
qed

section \<open>Records\<close>

type_synonym Namespace = string

record WorkflowID =
  wid_Namespace :: Namespace
  wid_Name :: string
  wid_Version :: int

record RetryPolicy =
  rp_MaxAttempts :: int
  rp_InitialInterval :: duration
  rp_MaxInterval :: duration
  rp_Multiplier :: float64
  rp_MaxElapsed :: duration

record StepDefinition =
  sd_ID :: string
  sd_Handler :: string
  sd_DependsOn :: "string list"
  sd_Timeout :: duration
  sd_Retry :: RetryPolicy
  sd_InputSchema :: string
  sd_OutputSchema :: string
  sd_IsGateway :: bool
  sd_ContinueOnErr :: bool

record WorkflowDefinition =
  wd_ID :: WorkflowID
  wd_Description :: string
  wd_Steps :: "StepDefinition list"
  wd_Tags :: "(string \<rightharpoonup> string) option"
  wd_CreatedAt :: gotime
  wd_UpdatedAt :: gotime
  wd_Timeout :: duration

type_synonym payload = "(string \<rightharpoonup> go_any) option"

record RunInput =
  ri_Workflow :: WorkflowID
  ri_Payload :: payload
  ri_Labels :: "(string \<rightharpoonup> string) option"
  ri_ParentRunID :: string

record StepRun =
  sr_StepID :: string
  sr_State :: StepState
  sr_Attempt :: int
  sr_StartedAt :: "gotime option"
  sr_FinishedAt :: "gotime option"
  sr_Output :: payload
  sr_Error :: string
  sr_LastErrType :: string
  sr_Metadata :: "(string \<rightharpoonup> string) option"

record Run =
  run_ID :: string
  run_Namespace :: Namespace
  run_Workflow :: WorkflowID
  run_State :: RunState
  run_Input :: RunInput
  run_Steps :: "StepRun list"
  run_Attempt :: int
  run_CreatedAt :: gotime
  run_StartedAt :: "gotime option"
  run_FinishedAt :: "gotime option"
  run_Error :: string
  run_Labels :: "(string \<rightharpoonup> string) option"
  run_ParentRunID :: string

record QueueItem =
  qi_RunID :: string
  qi_Namespace :: Namespace
  qi_StepID :: string
  qi_EnqueuedAt :: gotime
  qi_VisibleAt :: gotime
  qi_Attempt :: int

datatype EventType =
    EventRunCreated
  | EventStepQueued
  | EventStepStarted
  | EventStepDone
  | EventStepFailed
  | EventRunCompleted
  | EventRunFailed
  | EventRunCancelled
  | EventRunTimedOut
  | EventRetrySched
  | EventOther string

record Event =
  ev_ID :: string
  ev_Type :: EventType
  ev_Version :: int
  ev_Namespace :: Namespace
  ev_RunID :: string
  ev_StepID :: string
  ev_CreatedAt :: gotime
  ev_Payload :: payload
  ev_Attempt :: int

definition EventType_Short :: "EventType \<Rightarrow> string" where
  "EventType_Short t = (case t of
      EventRunCreated \<Rightarrow> ''run-created''
    | EventStepQueued \<Rightarrow> ''step-queued''
    | EventStepStarted \<Rightarrow> ''step-started''
    | EventStepDone \<Rightarrow> ''step-done''
    | EventStepFailed \<Rightarrow> ''step-failed''
    | EventRunCompleted \<Rightarrow> ''run-completed''
    | EventRunFailed \<Rightarrow> ''run-failed''
    | EventRunCancelled \<Rightarrow> ''run-cancelled''
    | EventRunTimedOut \<Rightarrow> ''run-timedout''
    | EventRetrySched \<Rightarrow> ''retry-scheduled''
    | EventOther _ \<Rightarrow> ''event'')"

definition EventType_consts :: "(EventType \<times> string) list" where
  "EventType_consts =
     [(EventRunCreated, ''run.created''), (EventStepQueued, ''step.queued''),
      (EventStepStarted, ''step.started''), (EventStepDone, ''step.completed''),
      (EventStepFailed, ''step.failed''), (EventRunCompleted, ''run.completed''),
      (EventRunFailed, ''run.failed''), (EventRunCancelled, ''run.cancelled''),
      (EventRunTimedOut, ''run.timed_out''), (EventRetrySched, ''retry.scheduled'')]"

definition EventType_string :: "EventType \<Rightarrow> string" where
  "EventType_string t =
     (case t of EventOther x \<Rightarrow> x | _ \<Rightarrow> the (map_of EventType_consts t))"

definition EventType_of :: "string \<Rightarrow> EventType" where
  "EventType_of s =
     (case map_of (map prod.swap EventType_consts) s of Some t \<Rightarrow> t | None \<Rightarrow> EventOther s)"

definition ParseEventType :: "string \<Rightarrow> string + EventType" where
  "ParseEventType s =
     (let c = EventType_of (TrimSpace s) in
      case c of EventOther _ \<Rightarrow> Inl (''unknown event type '' @ Quote s) | _ \<Rightarrow> Inr c)"

record WebhookEndpoint =
  we_ID :: string
  we_Namespace :: Namespace
  we_URL :: string
  we_Secret :: string
  we_Types :: "EventType list"
  we_Active :: bool
  we_Timeout :: duration
  we_CreatedAt :: gotime

datatype DeliveryStatus = DeliveryQueued | DeliveryDelivered | DeliveryFailed | DeliveryOther string

record Delivery =
  dl_ID :: string
  dl_EventID :: string
  dl_EndpointID :: string
  dl_Namespace :: Namespace
  dl_Status :: DeliveryStatus
  dl_Attempts :: int
  dl_LastStatus :: int
  dl_LastError :: string
  dl_CreatedAt :: gotime
  dl_AttemptedAt :: "gotime option"
  dl_FinishedAt :: "gotime option"

record APIToken =
  tok_ID :: string
  tok_Namespace :: Namespace
  tok_Role :: string
  tok_Label :: string
  tok_CreatedAt :: gotime
  tok_ExpiresAt :: "gotime option"
  tok_TokenHash :: string

section \<open>Errors\<close>

text \<open>
  An error value is one of the sentinels, a \<open>Classified\<close> wrapper, a plain message, or an error
  that wraps another one (\<open>fmt.Errorf\<close> with \<open>%w\<close>). \<open>errors.Is\<close> and \<open>errors.As\<close> walk the chain
  that \<open>Unwrap\<close> gives.
\<close>

datatype Class =
    ClassNotFound
  | ClassAlreadyExists
  | ClassInvalidArgument
  | ClassConflict
  | ClassUnauthenticated
  | ClassPermissionDenied
  | ClassInternal
  | ClassUnavailable
  | ClassDeadlineExceeded
  | ClassCanceled

datatype sentinel =
    ErrNotFound
  | ErrAlreadyExists
  | ErrInvalidArgument
  | ErrConflict
  | ErrUnauthenticated
  | ErrPermissionDenied
  | ErrInternal
  | ErrUnavailable
  | ErrDeadlineExceeded
  | ErrCanceled

datatype go_error =
    Sentinel sentinel
  | Classified Class go_error
  | Message string
  | Wrapped string go_error

fun sentinel_text :: "sentinel \<Rightarrow> string" where
  "sentinel_text ErrNotFound = ''not found''"
| "sentinel_text ErrAlreadyExists = ''already exists''"
| "sentinel_text ErrInvalidArgument = ''invalid argument''"
| "sentinel_text ErrConflict = ''conflict''"
| "sentinel_text ErrUnauthenticated = ''unauthenticated''"
| "sentinel_text ErrPermissionDenied = ''permission denied''"
| "sentinel_text ErrInternal = ''internal error''"
| "sentinel_text ErrUnavailable = ''unavailable''"
| "sentinel_text ErrDeadlineExceeded = ''deadline exceeded''"
| "sentinel_text ErrCanceled = ''canceled''"

fun error_text :: "go_error \<Rightarrow> string" where
  "error_text (Sentinel s) = sentinel_text s"
| "error_text (Classified c e) = error_text e"
| "error_text (Message m) = m"
| "error_text (Wrapped m e) = m"

fun errors_Is :: "go_error \<Rightarrow> sentinel \<Rightarrow> bool" where
  "errors_Is (Sentinel s) t \<longleftrightarrow> s = t"
| "errors_Is (Classified c e) t \<longleftrightarrow> errors_Is e t"
| "errors_Is (Message m) t \<longleftrightarrow> False"
| "errors_Is (Wrapped m e) t \<longleftrightarrow> errors_Is e t"

fun errors_As :: "go_error \<Rightarrow> Class option" where
  "errors_As (Sentinel s) = None"
| "errors_As (Classified c e) = Some c"
| "errors_As (Message m) = None"
| "errors_As (Wrapped m e) = errors_As e"


definition NotFoundError :: "go_error \<Rightarrow> go_error" where "NotFoundError = Classified ClassNotFound"
definition AlreadyExistsError :: "go_error \<Rightarrow> go_error" where "AlreadyExistsError = Classified ClassAlreadyExists"
definition InvalidArgumentError :: "go_error \<Rightarrow> go_error" where "InvalidArgumentError = Classified ClassInvalidArgument"
definition ConflictError :: "go_error \<Rightarrow> go_error" where "ConflictError = Classified ClassConflict"

lemmas error_ctor_defs = NotFoundError_def AlreadyExistsError_def InvalidArgumentError_def ConflictError_def


fun wrap_all :: "string list \<Rightarrow> go_error \<Rightarrow> go_error" where
  "wrap_all [] e = e"
| "wrap_all (m # ms) e = Wrapped m (wrap_all ms e)"

lemma errors_Is_wrap_all [simp]: "errors_Is (wrap_all ms e) s = errors_Is e s"
  by (induction ms) auto

lemma errors_As_wrap_all [simp]: "errors_As (wrap_all ms e) = errors_As e"
  by (induction ms) auto



end
