(* ===== verification/Dag.thy ===== *)
theory Dag
  imports Run_Types "HOL-Library.AList"
begin

text \<open>
  \<open>internal/dag\<close>: the dependency graph, its path search, the edge insertion that refuses cycles,
  Kahn's topological sort, and node removal.

  The three Go maps are association lists, so that every graph is finite by construction. A Go
  slice is a list, except in \<open>RemoveNode\<close>: its two loops range over a slice while \<open>removeEdge\<close>
  shifts the elements of the same backing array, and there the model keeps the backing array.
\<close>

section \<open>The graph\<close>

record Graph =
  g_nodes :: "(string \<times> bool) list"
  g_edges :: "(string \<times> string list) list"
  g_reverse :: "(string \<times> string list) list"

text \<open>A lookup in a Go map gives the zero value for a missing key.\<close>

definition slice_at :: "(string \<times> string list) list \<Rightarrow> string \<Rightarrow> string list" where
  "slice_at m k = (case map_of m k of None \<Rightarrow> [] | Some xs \<Rightarrow> xs)"

definition succs :: "Graph \<Rightarrow> string \<Rightarrow> string list" where
  "succs g n = slice_at (g_edges g) n"

definition preds :: "Graph \<Rightarrow> string \<Rightarrow> string list" where
  "preds g n = slice_at (g_reverse g) n"

definition Graph_HasNode :: "Graph \<Rightarrow> string \<Rightarrow> bool" where
  "Graph_HasNode g n \<longleftrightarrow> map_of (g_nodes g) n = Some True"

definition Graph_New :: Graph where
  "Graph_New = \<lparr>g_nodes = [], g_edges = [], g_reverse = []\<rparr>"

definition Graph_AddNode :: "string \<Rightarrow> Graph \<Rightarrow> Graph" where
  "Graph_AddNode name g =
     g\<lparr>g_nodes := AList.update name True (g_nodes g),
       g_edges := (if succs g name = [] then AList.update name [] (g_edges g) else g_edges g),
       g_reverse := (if preds g name = [] then AList.update name [] (g_reverse g) else g_reverse g)\<rparr>"

definition Graph_removeEdge :: "string \<Rightarrow> string \<Rightarrow> Graph \<Rightarrow> Graph" where
  "Graph_removeEdge from to g =
     (let g1 = (if to \<in> set (succs g from)
                then g\<lparr>g_edges := AList.update from (remove1 to (succs g from)) (g_edges g)\<rparr> else g)
      in if from \<in> set (preds g1 to)
         then g1\<lparr>g_reverse := AList.update to (remove1 from (preds g1 to)) (g_reverse g1)\<rparr> else g1)"

definition Graph_RemoveEdge :: "string \<Rightarrow> string \<Rightarrow> Graph \<Rightarrow> Graph" where
  "Graph_RemoveEdge from to g = Graph_removeEdge from to g"


definition Graph_Dependencies :: "Graph \<Rightarrow> string \<Rightarrow> string list" where
  "Graph_Dependencies g node = preds g node"

subsection \<open>Path search\<close>

text \<open>
  The stack grows at its end, as the slice does: the loop pops the last element and appends the
  successors of the popped node.
\<close>

lemma succs_not_key: "n \<notin> fst ` set (g_edges g) \<Longrightarrow> succs g n = []"
  by (simp add: succs_def slice_at_def map_of_eq_None_iff[THEN iffD2])

function hasPath_loop :: "Graph \<Rightarrow> string \<Rightarrow> string list \<Rightarrow> string list \<Rightarrow> bool" where
  "hasPath_loop g to stack visited =
     (if stack = [] then False
      else let current = last stack; stack' = butlast stack in
        if current = to then True
        else if current \<in> set visited then hasPath_loop g to stack' visited
        else hasPath_loop g to (stack' @ succs g current) (current # visited))"
  by pat_completeness auto

termination
proof (relation "measures [\<lambda>(g, to, stack, visited). card (fst ` set (g_edges g) - set visited),
                           \<lambda>(g, to, stack, visited). length stack]", goal_cases)
  case (3 g to stack visited current stack')
  then show ?case
  proof (cases "current \<in> fst ` set (g_edges g)")
    case True
    with 3 have "card (fst ` set (g_edges g) - set (current # visited)) < card (fst ` set (g_edges g) - set visited)"
      by (intro psubset_card_mono) auto
    then show ?thesis by simp
  next
    case False
    with 3 have "fst ` set (g_edges g) - set (current # visited) = fst ` set (g_edges g) - set visited"
      by auto
    with False 3 show ?thesis by (simp add: succs_not_key)
  qed
qed auto

declare hasPath_loop.simps [simp del]

definition Graph_hasPath :: "Graph \<Rightarrow> string \<Rightarrow> string \<Rightarrow> bool" where
  "Graph_hasPath g from to = hasPath_loop g to [from] []"

datatype dag_error = NodeNotFound | WouldCreateCycle | CycleDetected

definition Graph_AddEdge :: "string \<Rightarrow> string \<Rightarrow> Graph \<Rightarrow> dag_error + Graph" where
  "Graph_AddEdge from to g =
     (if \<not> Graph_HasNode g from \<or> \<not> Graph_HasNode g to then Inl NodeNotFound
      else if Graph_hasPath g to from then Inl WouldCreateCycle
      else Inr (g\<lparr>g_edges := AList.update from (succs g from @ [to]) (g_edges g),
                  g_reverse := AList.update to (preds g to @ [from]) (g_reverse g)\<rparr>))"

subsection \<open>Topological sort\<close>

text \<open>
  \<open>ks\<close> is the order in which \<open>range inDegree\<close> visits the keys. The count over \<open>range g.edges\<close>
  only adds up, so its order does not matter and the model goes through the list in order.
\<close>

definition deg_of :: "(string \<times> int) list \<Rightarrow> string \<Rightarrow> int" where
  "deg_of deg n = (case map_of deg n of None \<Rightarrow> 0 | Some d \<Rightarrow> d)"









subsection \<open>Node removal\<close>

text \<open>
  \<open>append(s[:j], s[j+1:]...)\<close> on a slice of length \<open>l\<close> shifts the elements after \<open>j\<close> one place to
  the left in the backing array \<open>b\<close>; the place \<open>l - 1\<close> keeps its old value, which the shortened
  slice no longer reaches but an earlier \<open>range\<close> over the longer slice still reads.
\<close>

definition shift_out :: "nat \<Rightarrow> nat \<Rightarrow> 'a list \<Rightarrow> 'a list" where
  "shift_out j l b = take j b @ take (l - 1 - j) (drop (Suc j) b) @ drop (l - 1) b"

fun index_of :: "'a \<Rightarrow> 'a list \<Rightarrow> nat option" where
  "index_of x [] = None"
| "index_of x (y # ys) = (if y = x then Some 0 else map_option Suc (index_of x ys))"

text \<open>\<open>for _, from := range g.reverse[name]\<close>: \<open>n\<close> iterations are left, the next one reads \<open>b ! i\<close>.\<close>

fun remove_incoming :: "nat \<Rightarrow> nat \<Rightarrow> string list \<Rightarrow> string \<Rightarrow> Graph \<Rightarrow> Graph" where
  "remove_incoming 0 i b name g = g"
| "remove_incoming (Suc n) i b name g =
     (let from = b ! i; rev = preds g name;
          b' = (case index_of from rev of None \<Rightarrow> b | Some j \<Rightarrow> shift_out j (length rev) b)
      in remove_incoming n (Suc i) b' name (Graph_removeEdge from name g))"

text \<open>\<open>for _, to := range g.edges[name]\<close>.\<close>

fun remove_outgoing :: "nat \<Rightarrow> nat \<Rightarrow> string list \<Rightarrow> string \<Rightarrow> Graph \<Rightarrow> Graph" where
  "remove_outgoing 0 i b name g = g"
| "remove_outgoing (Suc n) i b name g =
     (let to = b ! i; edges = succs g name;
          b' = (case index_of to edges of None \<Rightarrow> b | Some j \<Rightarrow> shift_out j (length edges) b)
      in remove_outgoing n (Suc i) b' name (Graph_removeEdge name to g))"

definition Graph_RemoveNode :: "string \<Rightarrow> Graph \<Rightarrow> Graph" where
  "Graph_RemoveNode name g =
     (let g0 = g\<lparr>g_nodes := AList.delete name (g_nodes g)\<rparr>;
          g1 = remove_incoming (length (preds g0 name)) 0 (preds g0 name) name g0;
          g2 = remove_outgoing (length (succs g1 name)) 0 (succs g1 name) name g1
      in g2\<lparr>g_edges := AList.delete name (g_edges g2), g_reverse := AList.delete name (g_reverse g2)\<rparr>)"

section \<open>Lookup lemmas\<close>

named_theorems dag_simps

lemma slice_at_update [dag_simps]: "slice_at (AList.update k v m) n = (if n = k then v else slice_at m n)"
  by (simp add: slice_at_def update_conv')

lemma slice_at_delete [dag_simps]: "slice_at (AList.delete k m) n = (if n = k then [] else slice_at m n)"
  by (simp add: slice_at_def delete_conv')

lemma deg_of_update [dag_simps]: "deg_of (AList.update k v m) n = (if n = k then v else deg_of m n)"
  by (simp add: deg_of_def update_conv')

lemma count_list_remove1: "count_list (remove1 x xs) y = count_list xs y - (if x = y then 1 else 0)"
  by (induction xs) (auto simp: count_list_0_iff)

definition edge_rel :: "Graph \<Rightarrow> (string \<times> string) set" where
  "edge_rel g = {(a, b). b \<in> set (succs g a)}"

lemma edge_rel_iff [dag_simps]: "(a, b) \<in> edge_rel g \<longleftrightarrow> b \<in> set (succs g a)"
  by (simp add: edge_rel_def)

lemma succs_AddNode [dag_simps]: "succs (Graph_AddNode n g) a = succs g a"
  by (auto simp: Graph_AddNode_def succs_def dag_simps)

lemma preds_AddNode [dag_simps]: "preds (Graph_AddNode n g) a = preds g a"
  by (auto simp: Graph_AddNode_def preds_def dag_simps)

lemma succs_removeEdge [dag_simps]:
  "succs (Graph_removeEdge f t g) a = (if a = f then remove1 t (succs g a) else succs g a)"
  by (auto simp: Graph_removeEdge_def succs_def preds_def Let_def slice_at_update remove1_idem)

lemma preds_removeEdge [dag_simps]:
  "preds (Graph_removeEdge f t g) b = (if b = t then remove1 f (preds g b) else preds g b)"
  by (auto simp: Graph_removeEdge_def succs_def preds_def Let_def slice_at_update remove1_idem)

lemma nodes_removeEdge [dag_simps]: "g_nodes (Graph_removeEdge f t g) = g_nodes g"
  by (simp add: Graph_removeEdge_def Let_def)

lemma edge_keys_removeEdge:
  "distinct (map fst (g_edges g)) \<Longrightarrow> distinct (map fst (g_edges (Graph_removeEdge f t g)))"
  by (simp add: Graph_removeEdge_def Let_def distinct_update)

lemma set_index_of: "index_of x xs = None \<longleftrightarrow> x \<notin> set xs"
  by (induction xs) auto

section \<open>Path search finds exactly the paths\<close>

lemma path_leaves_closed:
  assumes "(v, t) \<in> E\<^sup>*" "v \<in> V" "t \<notin> V" "E `` V \<subseteq> V \<union> S"
  shows "\<exists>s \<in> S. (s, t) \<in> E\<^sup>*"
  using assms
proof (induction rule: converse_rtrancl_induct)
  case (step y z)
  then show ?case
    by (cases "z \<in> V") auto
qed simp

lemma hasPath_loop_iff:
  assumes "edge_rel g `` set visited \<subseteq> set visited \<union> set stack" "to \<notin> set visited"
  shows "hasPath_loop g to stack visited \<longleftrightarrow> (\<exists>s \<in> set stack. (s, to) \<in> (edge_rel g)\<^sup>*)"
  using assms
proof (induction g to stack visited rule: hasPath_loop.induct)
  case (1 g to stack visited)
  show ?case
  proof (cases "stack = []")
    case True
    then show ?thesis by (simp add: hasPath_loop.simps)
  next
    case False
    then obtain stack' current where st: "stack = stack' @ [current]" by (metis rev_exhaust)
    let ?E = "edge_rel g"
    have unfold: "hasPath_loop g to stack visited =
        (if current = to then True
         else if current \<in> set visited then hasPath_loop g to stack' visited
         else hasPath_loop g to (stack' @ succs g current) (current # visited))"
      by (subst hasPath_loop.simps) (simp add: st)
    have ih1: "current \<noteq> to \<Longrightarrow> current \<in> set visited \<Longrightarrow> ?E `` set visited \<subseteq> set visited \<union> set stack' \<Longrightarrow>
        hasPath_loop g to stack' visited \<longleftrightarrow> (\<exists>s \<in> set stack'. (s, to) \<in> ?E\<^sup>*)"
      using "1.IH"(1)[OF False refl refl] "1.prems"(2) unfolding st last_snoc butlast_snoc by blast
    have ih2: "current \<noteq> to \<Longrightarrow> current \<notin> set visited \<Longrightarrow>
        ?E `` set (current # visited) \<subseteq> set (current # visited) \<union> set (stack' @ succs g current) \<Longrightarrow>
        hasPath_loop g to (stack' @ succs g current) (current # visited)
        \<longleftrightarrow> (\<exists>s \<in> set (stack' @ succs g current). (s, to) \<in> ?E\<^sup>*)"
      using "1.IH"(2)[OF False refl refl] "1.prems"(2) unfolding st last_snoc butlast_snoc by auto
    consider "current = to" | "current \<noteq> to" "current \<in> set visited" | "current \<noteq> to" "current \<notin> set visited"
      by blast
    then show ?thesis
    proof cases
      case 1
      then show ?thesis unfolding unfold by (auto simp: st)
    next
      case 2
      have closed: "?E `` set visited \<subseteq> set visited \<union> set stack'"
        using "1.prems"(1) 2 st by auto
      have "hasPath_loop g to stack' visited \<longleftrightarrow> (\<exists>s \<in> set stack'. (s, to) \<in> ?E\<^sup>*)"
        using ih1 2 closed by blast
      moreover have "(current, to) \<in> ?E\<^sup>* \<Longrightarrow> \<exists>s \<in> set stack'. (s, to) \<in> ?E\<^sup>*"
        using path_leaves_closed[OF _ 2(2) "1.prems"(2) closed] by blast
      ultimately show ?thesis unfolding unfold using 2 st by auto
    next
      case 3
      have "hasPath_loop g to (stack' @ succs g current) (current # visited)
            \<longleftrightarrow> (\<exists>s \<in> set (stack' @ succs g current). (s, to) \<in> ?E\<^sup>*)"
        using ih2 3 "1.prems"(1) st by (force simp: dag_simps)
      moreover have "(current, to) \<in> ?E\<^sup>* \<longleftrightarrow> (\<exists>s \<in> set (succs g current). (s, to) \<in> ?E\<^sup>*)"
        using 3(1) by (metis converse_rtranclE converse_rtrancl_into_rtrancl edge_rel_iff)
      ultimately show ?thesis unfolding unfold using 3 st by auto
    qed
  qed
qed

lemma Graph_hasPath_iff: "Graph_hasPath g a b \<longleftrightarrow> (a, b) \<in> (edge_rel g)\<^sup>*"
  unfolding Graph_hasPath_def by (subst hasPath_loop_iff) auto

section \<open>The graph invariant\<close>

definition mirrored :: "Graph \<Rightarrow> bool" where
  "mirrored g \<longleftrightarrow> (\<forall>a b. count_list (succs g a) b = count_list (preds g b) a)"

definition graph_ok :: "Graph \<Rightarrow> bool" where
  "graph_ok g \<longleftrightarrow> mirrored g
     \<and> (\<forall>a b. (a, b) \<in> edge_rel g \<longrightarrow> Graph_HasNode g a \<and> Graph_HasNode g b)
     \<and> distinct (map fst (g_nodes g)) \<and> (\<forall>(n, v) \<in> set (g_nodes g). v)
     \<and> distinct (map fst (g_edges g))"

definition graph_inv :: "Graph \<Rightarrow> bool" where
  "graph_inv g \<longleftrightarrow> graph_ok g \<and> acyclic (edge_rel g)"


lemma edge_rel_empty [simp]: "edge_rel Graph_New = {}"
  by (auto simp: edge_rel_def succs_def slice_at_def Graph_New_def)

lemma graph_inv_New: "graph_inv Graph_New"
  by (simp add: graph_inv_def graph_ok_def mirrored_def succs_def preds_def slice_at_def Graph_New_def
      edge_rel_def acyclic_def)

lemma set_update_True: "(\<forall>(n, v) \<in> set m. v) \<Longrightarrow> (\<forall>(n, v) \<in> set (AList.update k True m). v)"
  by (induction m) auto

lemma edge_rel_AddNode: "edge_rel (Graph_AddNode n g) = edge_rel g"
  by (simp add: edge_rel_def succs_AddNode)

lemma HasNode_AddNode: "Graph_HasNode (Graph_AddNode n g) a \<longleftrightarrow> a = n \<or> Graph_HasNode g a"
  by (simp add: Graph_HasNode_def Graph_AddNode_def update_conv')

lemma keys_AddNode:
  "graph_ok g \<Longrightarrow> distinct (map fst (g_nodes (Graph_AddNode n g)))
     \<and> (\<forall>(m, v) \<in> set (g_nodes (Graph_AddNode n g)). v) \<and> distinct (map fst (g_edges (Graph_AddNode n g)))"
  using set_update_True[of "g_nodes g" n] by (simp add: graph_ok_def Graph_AddNode_def distinct_update)

lemma graph_inv_AddNode: "graph_inv g \<Longrightarrow> graph_inv (Graph_AddNode n g)"
  using keys_AddNode[of g n]
  by (simp add: graph_inv_def graph_ok_def mirrored_def edge_rel_AddNode HasNode_AddNode succs_AddNode preds_AddNode)

lemma edge_rel_AddEdge: "Graph_AddEdge f t g = Inr g' \<Longrightarrow> edge_rel g' = insert (f, t) (edge_rel g)"
  by (auto simp: Graph_AddEdge_def edge_rel_def succs_def dag_simps split: if_splits)

lemma HasNode_AddEdge: "Graph_AddEdge f t g = Inr g' \<Longrightarrow> g_nodes g' = g_nodes g \<and> Graph_HasNode g f \<and> Graph_HasNode g t"
  by (auto simp: Graph_AddEdge_def split: if_splits)

lemma mirrored_AddEdge: "Graph_AddEdge f t g = Inr g' \<Longrightarrow> mirrored g \<Longrightarrow> mirrored g'"
  by (auto simp: Graph_AddEdge_def mirrored_def succs_def preds_def dag_simps split: if_splits)

lemma graph_inv_AddEdge:
  assumes "graph_inv g" "Graph_AddEdge f t g = Inr g'"
  shows "graph_inv g'"
proof -
  have nopath: "(t, f) \<notin> (edge_rel g)\<^sup>*"
    using assms(2) by (auto simp: Graph_AddEdge_def Graph_hasPath_iff split: if_splits)
  have "distinct (map fst (g_edges g'))"
    using assms by (auto simp: Graph_AddEdge_def graph_inv_def graph_ok_def distinct_update split: if_splits)
  then show ?thesis
    using assms(1) nopath edge_rel_AddEdge[OF assms(2)] HasNode_AddEdge[OF assms(2)] mirrored_AddEdge[OF assms(2)]
    by (auto simp: graph_inv_def graph_ok_def Graph_HasNode_def)
qed

lemma edge_rel_removeEdge: "edge_rel (Graph_removeEdge f t g) \<subseteq> edge_rel g"
  by (auto simp: edge_rel_def dag_simps dest: set_remove1_subset[THEN subsetD] split: if_splits)

lemma mirrored_removeEdge: "mirrored g \<Longrightarrow> mirrored (Graph_removeEdge f t g)"
  by (auto simp: mirrored_def dag_simps count_list_remove1)

lemma graph_inv_removeEdge: "graph_inv g \<Longrightarrow> graph_inv (Graph_removeEdge f t g)"
  using edge_rel_removeEdge[of f t g]
  by (auto simp: graph_inv_def graph_ok_def mirrored_removeEdge edge_keys_removeEdge nodes_removeEdge
      Graph_HasNode_def intro: acyclic_subset)

section \<open>Kahn's algorithm\<close>




























section \<open>Removing a node\<close>

lemma remove_incoming_short:
  assumes "length (preds g name) \<le> 2"
  shows "remove_incoming (length (preds g name)) 0 (preds g name) name g
       = fold (\<lambda>f. Graph_removeEdge f name) (preds g name) g"
proof -
  consider "preds g name = []" | a where "preds g name = [a]" | a b where "preds g name = [a, b]"
    using assms by (cases "preds g name" rule: list.exhaust; cases "tl (preds g name)" rule: list.exhaust) auto
  then show ?thesis
    by cases (simp_all add: shift_out_def dag_simps)
qed

lemma remove_outgoing_short:
  assumes "length (succs g name) \<le> 2"
  shows "remove_outgoing (length (succs g name)) 0 (succs g name) name g
       = fold (Graph_removeEdge name) (succs g name) g"
proof -
  consider "succs g name = []" | a where "succs g name = [a]" | a b where "succs g name = [a, b]"
    using assms by (cases "succs g name" rule: list.exhaust; cases "tl (succs g name)" rule: list.exhaust) auto
  then show ?thesis
    by cases (simp_all add: shift_out_def dag_simps)
qed

lemma preds_remove_incoming: "preds (fold (\<lambda>f. Graph_removeEdge f name) fs g) name = fold remove1 fs (preds g name)"
  by (induction fs arbitrary: g) (simp_all add: dag_simps)

lemma succs_remove_outgoing: "succs (fold (Graph_removeEdge name) ts g) name = fold remove1 ts (succs g name)"
  by (induction ts arbitrary: g) (simp_all add: dag_simps)

lemma preds_removeEdge_Nil: "preds g b = [] \<Longrightarrow> preds (Graph_removeEdge f t g) b = []"
  by (auto simp: dag_simps)

lemma preds_remove_outgoing: "preds g b = [] \<Longrightarrow> preds (fold (Graph_removeEdge name) ts g) b = []"
  by (induction ts arbitrary: g) (simp_all add: preds_removeEdge_Nil)

lemma fold_remove1_self: "fold remove1 xs xs = []"
  by (induction xs) simp_all

lemma mirrored_incoming: "mirrored g \<Longrightarrow> mirrored (fold (\<lambda>f. Graph_removeEdge f name) fs g)"
  by (induction fs arbitrary: g) (simp_all add: mirrored_removeEdge)

lemma mirrored_outgoing: "mirrored g \<Longrightarrow> mirrored (fold (Graph_removeEdge name) ts g)"
  by (induction ts arbitrary: g) (simp_all add: mirrored_removeEdge)

lemma count_incoming:
  "b \<noteq> name \<Longrightarrow> count_list (succs (fold (\<lambda>f. Graph_removeEdge f name) fs g) a) b = count_list (succs g a) b"
  by (induction fs arbitrary: g) (simp_all add: dag_simps count_list_remove1)

lemma succs_outgoing: "a \<noteq> name \<Longrightarrow> succs (fold (Graph_removeEdge name) ts g) a = succs g a"
  by (induction ts arbitrary: g) (simp_all add: dag_simps)

lemma edge_keys_fold:
  "distinct (map fst (g_edges g)) \<Longrightarrow> distinct (map fst (g_edges (fold (\<lambda>(f, t). Graph_removeEdge f t) es g)))"
  by (induction es arbitrary: g) (simp_all add: case_prod_beta edge_keys_removeEdge)

lemma nodes_fold: "g_nodes (fold (\<lambda>(f, t). Graph_removeEdge f t) es g) = g_nodes g"
  by (induction es arbitrary: g) (simp_all add: case_prod_beta dag_simps)

lemma set_delete_subset: "set (AList.delete k m) \<subseteq> set m"
  by (auto simp: AList.delete_eq)

text \<open>The graph after both loops of \<open>RemoveNode\<close>, when they range over at most two elements.\<close>

lemma RemoveNode_loops:
  fixes g :: Graph
  assumes "mirrored g" "length (preds g name) \<le> 2" "length (succs g name) \<le> 2"
  defines "g1 \<equiv> remove_incoming (length (preds g name)) 0 (preds g name) name g"
  defines "g2 \<equiv> remove_outgoing (length (succs g1 name)) 0 (succs g1 name) name g1"
  shows "mirrored g2 \<and> succs g2 name = [] \<and> preds g2 name = [] \<and> g_nodes g2 = g_nodes g
    \<and> (distinct (map fst (g_edges g)) \<longrightarrow> distinct (map fst (g_edges g2)))
    \<and> (\<forall>a b. a \<noteq> name \<longrightarrow> b \<noteq> name \<longrightarrow> count_list (succs g2 a) b = count_list (succs g a) b)"
proof -
  have g1: "g1 = fold (\<lambda>f. Graph_removeEdge f name) (preds g name) g"
    unfolding g1_def by (rule remove_incoming_short[OF assms(2)])
  have len: "length (succs (fold (\<lambda>f. Graph_removeEdge f name) fs h) name) \<le> length (succs h name)" for fs h
  proof (induction fs arbitrary: h)
    case (Cons f fs)
    have "length (succs (Graph_removeEdge f name h) name) \<le> length (succs h name)"
      by (simp add: dag_simps length_remove1)
    with Cons.IH[of "Graph_removeEdge f name h"] show ?case by simp
  qed simp
  have g2: "g2 = fold (Graph_removeEdge name) (succs g1 name) g1"
    unfolding g2_def by (rule remove_outgoing_short) (use len[of "preds g name" g] assms(3) g1 in simp)
  have mirrored: "mirrored g2"
    unfolding g2 g1 by (intro mirrored_outgoing mirrored_incoming assms(1))
  have empty: "succs g2 name = []" "preds g2 name = []"
    using preds_remove_outgoing[of g1 name] preds_remove_incoming[of name "preds g name" g]
    by (simp_all add: g2 succs_remove_outgoing fold_remove1_self) (simp add: g1 fold_remove1_self)
  have g2': "g2 = fold (\<lambda>(f, t). Graph_removeEdge f t)
      (map (\<lambda>f. (f, name)) (preds g name) @ map (\<lambda>t. (name, t)) (succs g1 name)) g"
    unfolding g2 by (simp add: g1 fold_map comp_def)
  have "count_list (succs g2 a) b = count_list (succs g a) b" if "a \<noteq> name" "b \<noteq> name" for a b
    unfolding g2 using that by (simp add: succs_outgoing g1 count_incoming)
  with mirrored empty g2' show ?thesis
    using edge_keys_fold nodes_fold by simp
qed

lemma RemoveNode_obtain:
  assumes "graph_inv g" "length (preds g name) \<le> 2" "length (succs g name) \<le> 2"
  obtains g2 where
    "Graph_RemoveNode name g =
       g2\<lparr>g_edges := AList.delete name (g_edges g2), g_reverse := AList.delete name (g_reverse g2)\<rparr>"
    "mirrored g2" "succs g2 name = []" "preds g2 name = []" "g_nodes g2 = AList.delete name (g_nodes g)"
    "distinct (map fst (g_edges g2))"
    "\<And>a b. a \<noteq> name \<Longrightarrow> b \<noteq> name \<Longrightarrow> count_list (succs g2 a) b = count_list (succs g a) b"
proof -
  define g0 where "g0 = g\<lparr>g_nodes := AList.delete name (g_nodes g)\<rparr>"
  define g1 where "g1 = remove_incoming (length (preds g0 name)) 0 (preds g0 name) name g0"
  define g2 where "g2 = remove_outgoing (length (succs g1 name)) 0 (succs g1 name) name g1"
  have g0: "preds g0 = preds g" "succs g0 = succs g" "g_edges g0 = g_edges g"
      "g_nodes g0 = AList.delete name (g_nodes g)"
    by (simp_all add: g0_def preds_def succs_def fun_eq_iff)
  have "mirrored g0" "distinct (map fst (g_edges g0))"
    using assms(1) by (simp_all add: mirrored_def g0 graph_inv_def graph_ok_def)
  note loops = RemoveNode_loops[of g0 name, folded g1_def, folded g2_def, unfolded g0, OF \<open>mirrored g0\<close> assms(2,3)]
  show thesis
  proof (rule that[of g2])
    show "Graph_RemoveNode name g =
       g2\<lparr>g_edges := AList.delete name (g_edges g2), g_reverse := AList.delete name (g_reverse g2)\<rparr>"
      by (simp only: Graph_RemoveNode_def Let_def g0_def g1_def g2_def)
  qed (use loops assms(1) in \<open>simp_all add: graph_inv_def graph_ok_def\<close>)
qed

lemma RemoveNode_small:
  assumes "graph_inv g" "length (preds g name) \<le> 2" "length (succs g name) \<le> 2"
  shows "graph_inv (Graph_RemoveNode name g) \<and> \<not> Graph_HasNode (Graph_RemoveNode name g) name
    \<and> edge_rel (Graph_RemoveNode name g) = {(a, b) \<in> edge_rel g. a \<noteq> name \<and> b \<noteq> name}"
proof -
  obtain g2 where g3: "Graph_RemoveNode name g =
       g2\<lparr>g_edges := AList.delete name (g_edges g2), g_reverse := AList.delete name (g_reverse g2)\<rparr>"
    and L: "mirrored g2" "succs g2 name = []" "preds g2 name = []" "g_nodes g2 = AList.delete name (g_nodes g)"
    "distinct (map fst (g_edges g2))"
    "\<And>a b. a \<noteq> name \<Longrightarrow> b \<noteq> name \<Longrightarrow> count_list (succs g2 a) b = count_list (succs g a) b"
    by (rule RemoveNode_obtain[OF assms]) (rule that; assumption)
  let ?g3 = "Graph_RemoveNode name g"
  have lookups: "succs ?g3 a = succs g2 a" "preds ?g3 a = preds g2 a" for a
    using L(2,3) by (simp_all add: g3 succs_def preds_def dag_simps)
  have no_in: "name \<notin> set (succs g2 a)" for a
    using L(1,3) by (simp add: mirrored_def flip: count_list_0_iff)
  have "b \<in> set (succs g2 a) \<longleftrightarrow> b \<in> set (succs g a) \<and> a \<noteq> name \<and> b \<noteq> name" for a b
  proof (cases "a = name \<or> b = name")
    case False
    then show ?thesis using L(6)[of a b] count_list_0_iff[of "succs g2 a" b] count_list_0_iff[of "succs g a" b] by auto
  qed (use no_in[of a] L(2) in auto)
  then have edges: "edge_rel ?g3 = {(a, b) \<in> edge_rel g. a \<noteq> name \<and> b \<noteq> name}"
    unfolding edge_rel_def lookups by auto
  have "distinct (map fst (g_nodes ?g3))" "distinct (map fst (g_edges ?g3))"
    using assms(1) L(4,5) by (simp_all add: g3 graph_inv_def graph_ok_def distinct_delete)
  moreover have "\<forall>(n, v) \<in> set (g_nodes ?g3). v"
    using assms(1) set_delete_subset[of name "g_nodes g"] unfolding g3 graph_inv_def graph_ok_def
    by (simp add: L(4)) blast
  moreover have node: "Graph_HasNode ?g3 a \<longleftrightarrow> Graph_HasNode g a \<and> a \<noteq> name" for a
    using L(4) by (simp add: g3 Graph_HasNode_def delete_conv')
  moreover have "mirrored ?g3" using L(1) by (simp add: mirrored_def lookups)
  moreover have "acyclic (edge_rel ?g3)"
    using assms(1) acyclic_subset[of "edge_rel g" "edge_rel ?g3"] edges by (auto simp: graph_inv_def)
  ultimately have "graph_inv ?g3"
    using assms(1) edges by (auto simp: graph_inv_def graph_ok_def)
  then show ?thesis using edges node by simp
qed

text \<open>
  (C6) \<open>RemoveNode\<close> on a node with at most two incoming and at most two outgoing edges removes the
  node and exactly the edges that touch it, keeps the two adjacency maps in agreement, and keeps
  the graph free of cycles.
\<close>

theorem RemoveNode_small_degree:
  assumes "graph_inv g" "length (preds g name) \<le> 2" "length (succs g name) \<le> 2"
  shows "graph_inv (Graph_RemoveNode name g) \<and> \<not> Graph_HasNode (Graph_RemoveNode name g) name
    \<and> edge_rel (Graph_RemoveNode name g) = {(a, b) \<in> edge_rel g. a \<noteq> name \<and> b \<noteq> name}"
  by (rule RemoveNode_small[OF assms])

section \<open>Graphs the program builds\<close>

text \<open>
  The states of a \<open>Graph\<close> under its exported operations, with \<open>RemoveNode\<close> limited to nodes of
  degree at most two in each direction (see the last section for what happens beyond).
\<close>

inductive dag_built :: "Graph \<Rightarrow> bool" where
  dag_New: "dag_built Graph_New"
| dag_AddNode: "dag_built g \<Longrightarrow> dag_built (Graph_AddNode name g)"
| dag_AddEdge: "dag_built g \<Longrightarrow> Graph_AddEdge from to g = Inr g' \<Longrightarrow> dag_built g'"
| dag_RemoveEdge: "dag_built g \<Longrightarrow> dag_built (Graph_RemoveEdge from to g)"
| dag_RemoveNode: "dag_built g \<Longrightarrow> length (preds g name) \<le> 2 \<Longrightarrow> length (succs g name) \<le> 2 \<Longrightarrow>
    dag_built (Graph_RemoveNode name g)"

lemma dag_built_inv: "dag_built g \<Longrightarrow> graph_inv g"
  by (induction rule: dag_built.induct)
     (simp_all add: graph_inv_New graph_inv_AddNode graph_inv_AddEdge Graph_RemoveEdge_def
        graph_inv_removeEdge RemoveNode_small)

text \<open>
  (C4) \<open>AddEdge\<close> is exact: between two nodes of the graph it refuses the edge if and only if the edge
  would close a cycle, and otherwise the new graph has exactly one edge more. Edges to or from a
  name that is not a node are refused.
\<close>

theorem AddEdge_exact:
  assumes "dag_built g"
  shows "(case Graph_AddEdge f t g of
      Inl NodeNotFound \<Rightarrow> \<not> (Graph_HasNode g f \<and> Graph_HasNode g t)
    | Inl WouldCreateCycle \<Rightarrow> Graph_HasNode g f \<and> Graph_HasNode g t \<and> \<not> acyclic (insert (f, t) (edge_rel g))
    | Inl CycleDetected \<Rightarrow> False
    | Inr g' \<Rightarrow> edge_rel g' = insert (f, t) (edge_rel g) \<and> acyclic (edge_rel g'))"
proof -
  have acyc: "acyclic (insert (f, t) (edge_rel g)) \<longleftrightarrow> (t, f) \<notin> (edge_rel g)\<^sup>*"
    using dag_built_inv[OF assms] by (simp add: graph_inv_def)
  show ?thesis
  proof (cases "Graph_AddEdge f t g")
    case (Inl e)
    then show ?thesis using acyc by (auto simp: Graph_AddEdge_def Graph_hasPath_iff split: if_splits)
  next
    case (Inr g')
    then have "(t, f) \<notin> (edge_rel g)\<^sup>*"
      by (auto simp: Graph_AddEdge_def Graph_hasPath_iff split: if_splits)
    with acyc edge_rel_AddEdge[OF Inr] Inr show ?thesis by simp
  qed
qed

text \<open>Two nodes and the edge between them, for the witnesses.\<close>

definition graph_ab :: Graph where
  "graph_ab = (case Graph_AddEdge ''a'' ''b'' (Graph_AddNode ''b'' (Graph_AddNode ''a'' Graph_New)) of
     Inr g \<Rightarrow> g | Inl _ \<Rightarrow> Graph_New)"

lemma graph_ab_eq:
  "graph_ab = \<lparr>g_nodes = [(''a'', True), (''b'', True)], g_edges = [(''a'', [''b'']), (''b'', [])],
     g_reverse = [(''a'', []), (''b'', [''a''])]\<rparr>"
  by code_simp

lemma graph_ab_step:
  "Graph_AddEdge ''a'' ''b'' (Graph_AddNode ''b'' (Graph_AddNode ''a'' Graph_New)) = Inr graph_ab"
  unfolding graph_ab_eq by code_simp

lemma dag_built_ab: "dag_built graph_ab"
  using graph_ab_step by (blast intro: dag_built.intros)

lemmas graph_ab_inv = dag_built_inv[OF dag_built_ab]

theorem AddEdge_exact_witness: "Graph_AddEdge ''b'' ''a'' graph_ab = Inl WouldCreateCycle
    \<and> \<not> acyclic (insert (''b'', ''a'') (edge_rel graph_ab))"
proof -
  have "Graph_AddEdge ''b'' ''a'' graph_ab = Inl WouldCreateCycle"
    unfolding graph_ab_eq by code_simp
  then show ?thesis using AddEdge_exact[OF dag_built_ab, of "''b''" "''a''"] by simp
qed


theorem RemoveNode_small_degree_witness:
  "\<not> Graph_HasNode (Graph_RemoveNode ''b'' graph_ab) ''b''
   \<and> edge_rel (Graph_RemoveNode ''b'' graph_ab) = {(a, b) \<in> edge_rel graph_ab. a \<noteq> ''b'' \<and> b \<noteq> ''b''}"
proof -
  have "length (preds graph_ab ''b'') \<le> 2" "length (succs graph_ab ''b'') \<le> 2"
    by (simp_all add: graph_ab_eq preds_def succs_def slice_at_def)
  from RemoveNode_small_degree[OF graph_ab_inv this] show ?thesis by simp
qed



section \<open>Removing a node with three predecessors\<close>



end
