(* ===== verification/State_Machine.thy ===== *)
theory State_Machine
  imports Run_Types
begin

text \<open>
  \<open>internal/statemachine\<close>: the table of legal run state transitions, the hooks, and the lock
  protocol of \<open>Transition\<close> against \<open>RegisterHook\<close>.

  A hook is user code; the model records the calls \<open>Transition\<close> makes to the hooks, in order.
\<close>

section \<open>The transition table\<close>

record 'h StateMachine =
  sm_legal :: "RunState \<rightharpoonup> (RunState \<rightharpoonup> bool)"
  sm_hooks :: "'h list"

definition StateMachine_allow :: "RunState \<Rightarrow> RunState \<Rightarrow> 'h StateMachine \<Rightarrow> 'h StateMachine" where
  "StateMachine_allow from to sm =
     (let row = (case sm_legal sm from of None \<Rightarrow> Map.empty | Some r \<Rightarrow> r)
      in sm\<lparr>sm_legal := (sm_legal sm)(from \<mapsto> row(to \<mapsto> True))\<rparr>)"

definition StateMachine_New :: "'h StateMachine" where
  "StateMachine_New =
     fold (\<lambda>(from, to). StateMachine_allow from to)
       [(StatePending, StateQueued), (StatePending, StateCancelled),
        (StateQueued, StateRunning), (StateQueued, StateCancelled),
        (StateRunning, StateSucceeded), (StateRunning, StateFailed),
        (StateRunning, StateCancelled), (StateRunning, StateTimedOut)]
       \<lparr>sm_legal = Map.empty, sm_hooks = []\<rparr>"

definition StateMachine_RegisterHook :: "'h \<Rightarrow> 'h StateMachine \<Rightarrow> 'h StateMachine" where
  "StateMachine_RegisterHook h sm = sm\<lparr>sm_hooks := sm_hooks sm @ [h]\<rparr>"

definition CanTransition :: "'h StateMachine \<Rightarrow> RunState \<Rightarrow> RunState \<Rightarrow> bool" where
  "CanTransition sm from to \<longleftrightarrow>
     (if IsTerminal from then False
      else case sm_legal sm from of None \<Rightarrow> False
           | Some destMap \<Rightarrow> (case destMap to of None \<Rightarrow> False | Some b \<Rightarrow> b))"

datatype transition_error = ErrTerminalState RunState | ErrIllegalTransition RunState RunState

text \<open>On success \<open>Transition\<close> calls every hook with the two states, in registration order.\<close>

definition Transition ::
  "'h StateMachine \<Rightarrow> RunState \<Rightarrow> RunState \<Rightarrow> transition_error + ('h \<times> RunState \<times> RunState) list" where
  "Transition sm from to =
     (if IsTerminal from then Inl (ErrTerminalState from)
      else if \<not> CanTransition sm from to then Inl (ErrIllegalTransition from to)
      else Inr (map (\<lambda>hook. (hook, from, to)) (sm_hooks sm)))"

subsection \<open>The table of a new machine\<close>

lemma legal_RegisterHook [simp]: "sm_legal (StateMachine_RegisterHook h sm) = sm_legal sm"
  by (simp add: StateMachine_RegisterHook_def)

lemma CanTransition_cong: "sm_legal sm = sm_legal sm' \<Longrightarrow> CanTransition sm = CanTransition sm'"
  by (simp add: CanTransition_def fun_eq_iff)

definition legal_pairs :: "(RunState \<times> RunState) list" where
  "legal_pairs =
     [(StatePending, StateQueued), (StatePending, StateCancelled),
      (StateQueued, StateRunning), (StateQueued, StateCancelled),
      (StateRunning, StateSucceeded), (StateRunning, StateFailed),
      (StateRunning, StateCancelled), (StateRunning, StateTimedOut)]"

lemma CanTransition_New: "CanTransition StateMachine_New from to \<longleftrightarrow> (from, to) \<in> set legal_pairs"
  by (cases "from"; cases "to")
     (simp_all add: CanTransition_def StateMachine_New_def StateMachine_allow_def legal_pairs_def)

text \<open>A machine as the program builds it: \<open>New\<close>, then any number of \<open>RegisterHook\<close> calls.\<close>

inductive built :: "'h StateMachine \<Rightarrow> bool" where
  built_New: "built StateMachine_New"
| built_RegisterHook: "built sm \<Longrightarrow> built (StateMachine_RegisterHook h sm)"

lemma built_legal: "built (sm :: 'h StateMachine) \<Longrightarrow> sm_legal sm = sm_legal (StateMachine_New :: 'h StateMachine)"
  by (induction rule: built.induct) simp_all

lemma built_CanTransition: "built sm \<Longrightarrow> CanTransition sm from to \<longleftrightarrow> (from, to) \<in> set legal_pairs"
  using CanTransition_cong[OF built_legal] CanTransition_New by metis

lemma Transition_Inr_iff:
  "(\<exists>calls. Transition sm from to = Inr calls) \<longleftrightarrow> CanTransition sm from to"
  by (auto simp: Transition_def CanTransition_def)

section \<open>Runs of the machine\<close>

inductive moves :: "'h StateMachine \<Rightarrow> RunState \<Rightarrow> RunState \<Rightarrow> bool" for sm s where
  moves_refl: "moves sm s s"
| moves_step: "moves sm s t \<Longrightarrow> Transition sm t u = Inr calls \<Longrightarrow> moves sm s u"

definition phase :: "RunState \<Rightarrow> nat" where
  "phase s = (case s of StatePending \<Rightarrow> 0 | StateQueued \<Rightarrow> 1 | StateRunning \<Rightarrow> 2
     | StateOther _ \<Rightarrow> 0 | _ \<Rightarrow> 3)"

lemma legal_pairs_phase: "(s, t) \<in> set legal_pairs \<Longrightarrow> phase s < phase t"
  by (auto simp: legal_pairs_def phase_def)

lemma Transition_legal: "built sm \<Longrightarrow> Transition sm s t = Inr calls \<Longrightarrow> (s, t) \<in> set legal_pairs"
  using built_CanTransition[of sm s t] Transition_Inr_iff[of sm s t] by blast

lemma Transition_phase: "built sm \<Longrightarrow> Transition sm s t = Inr calls \<Longrightarrow> phase s < phase t"
  by (intro legal_pairs_phase Transition_legal)

lemma moves_phase: "moves sm s t \<Longrightarrow> built sm \<Longrightarrow> s = t \<or> phase s < phase t"
  by (induction rule: moves.induct) (auto dest: Transition_phase)

lemma moves_from_terminal: "moves sm s t \<Longrightarrow> IsTerminal s \<Longrightarrow> t = s"
  by (induction rule: moves.induct) (auto simp: Transition_def)

lemma moves_one: "CanTransition sm s t \<Longrightarrow> moves sm s t"
  using Transition_Inr_iff[of sm s t] by (blast intro: moves.intros)

lemma legal_pairs_other: "(s, t) \<in> set legal_pairs \<Longrightarrow> t \<noteq> StateOther x"
  by (auto simp: legal_pairs_def)

lemma moves_pending_states: "moves sm StatePending t \<Longrightarrow> built sm \<Longrightarrow> t \<noteq> StateOther x"
proof (induction rule: moves.induct)
  case (moves_step t u calls)
  from Transition_legal[OF moves_step.prems moves_step.hyps(2)] show ?case
    by (rule legal_pairs_other)
qed simp

lemma moves_to_terminal:
  assumes "built sm" "moves sm StatePending s"
  shows "\<exists>t. moves sm s t \<and> IsTerminal t"
proof -
  have "\<forall>x. s \<noteq> StateOther x" using moves_pending_states[OF assms(2,1)] by blast
  then consider "IsTerminal s" | "CanTransition sm s StateCancelled"
    using built_CanTransition[OF assms(1)] by (cases s) (auto simp: legal_pairs_def)
  then show ?thesis
    by cases (auto intro: moves_refl moves_one)
qed

text \<open>
  (C8) The life cycle that \<open>Transition\<close> enforces on a machine as the program builds it: a terminal
  state is never left, whatever hooks are registered; no state is ever entered twice; and from
  every state a run can reach from PENDING some terminal state can still be reached.
\<close>

theorem Transition_lifecycle:
  assumes "built sm"
  shows "(IsTerminal s \<longrightarrow> Transition sm s t = Inl (ErrTerminalState s))
    \<and> (Transition sm s t = Inr calls \<longrightarrow> \<not> moves sm t s \<and> map fst calls = sm_hooks sm)
    \<and> (moves sm StatePending s \<longrightarrow> (\<exists>u. moves sm s u \<and> IsTerminal u))"
proof (intro conjI impI)
  show "IsTerminal s \<Longrightarrow> Transition sm s t = Inl (ErrTerminalState s)"
    by (simp add: Transition_def)
  show "Transition sm s t = Inr calls \<Longrightarrow> \<not> moves sm t s"
    using Transition_phase[OF assms, of s t calls] moves_phase[OF _ assms, of t s] by auto
  show "Transition sm s t = Inr calls \<Longrightarrow> map fst calls = sm_hooks sm"
    by (auto simp: Transition_def comp_def split: if_splits)
  show "moves sm StatePending s \<Longrightarrow> \<exists>u. moves sm s u \<and> IsTerminal u"
    by (rule moves_to_terminal[OF assms])
qed

theorem Transition_lifecycle_witness:
  "Transition (StateMachine_RegisterHook ''audit'' StateMachine_New) StateFailed StateRunning
       = Inl (ErrTerminalState StateFailed)
   \<and> \<not> moves (StateMachine_RegisterHook ''audit'' StateMachine_New) StateRunning StateQueued
   \<and> (\<exists>u. moves (StateMachine_RegisterHook ''audit'' StateMachine_New) StatePending u \<and> IsTerminal u)"
proof -
  let ?sm = "StateMachine_RegisterHook ''audit'' StateMachine_New"
  have b: "built ?sm" by (intro built.intros)
  have tr: "Transition ?sm StateQueued StateRunning = Inr [(''audit'', StateQueued, StateRunning)]"
    using built_CanTransition[OF b, of StateQueued StateRunning]
    by (simp add: Transition_def legal_pairs_def StateMachine_RegisterHook_def StateMachine_New_def
        StateMachine_allow_def)
  have 1: "Transition ?sm StateFailed StateRunning = Inl (ErrTerminalState StateFailed)"
    using Transition_lifecycle[OF b, of StateFailed StateRunning "[]"] by simp
  have 2: "\<not> moves ?sm StateRunning StateQueued"
    using Transition_lifecycle[OF b, of StateQueued StateRunning "[(''audit'', StateQueued, StateRunning)]"] tr
    by simp
  have 3: "\<exists>u. moves ?sm StatePending u \<and> IsTerminal u"
    using Transition_lifecycle[OF b, of StatePending StatePending "[]"] moves_refl[of ?sm StatePending] by simp
  from 1 2 3 show ?thesis by simp
qed

section \<open>The lock protocol\<close>

text \<open>
  \<open>Transition\<close> holds the read lock of \<open>sm.mu\<close> and calls \<open>CanTransition\<close>, which takes the read lock
  again; \<open>RegisterHook\<close> takes the write lock. Go's \<open>sync.RWMutex\<close> lets a pending writer block new
  readers. The state is the number of read locks held, whether a writer holds the lock or waits
  for it, and where the two goroutines are.
\<close>

datatype reader_pc = R_start | R_outer | R_inner | R_inner_done | R_done
datatype writer_pc = W_start | W_waiting | W_holding | W_done

record lock_state =
  ls_readers :: nat
  ls_reader_pc :: reader_pc
  ls_writer_pc :: writer_pc

definition lock_init :: lock_state where
  "lock_init = \<lparr>ls_readers = 0, ls_reader_pc = R_start, ls_writer_pc = W_start\<rparr>"

abbreviation rlock_free :: "lock_state \<Rightarrow> bool" where
  "rlock_free s \<equiv> ls_writer_pc s \<noteq> W_waiting \<and> ls_writer_pc s \<noteq> W_holding"

inductive lock_step :: "lock_state \<Rightarrow> lock_state \<Rightarrow> bool" where
  Transition_RLock:
    "ls_reader_pc s = R_start \<Longrightarrow> rlock_free s \<Longrightarrow>
     lock_step s (s\<lparr>ls_readers := Suc (ls_readers s), ls_reader_pc := R_outer\<rparr>)"
| CanTransition_RLock:
    "ls_reader_pc s = R_outer \<Longrightarrow> rlock_free s \<Longrightarrow>
     lock_step s (s\<lparr>ls_readers := Suc (ls_readers s), ls_reader_pc := R_inner\<rparr>)"
| CanTransition_RUnlock:
    "ls_reader_pc s = R_inner \<Longrightarrow>
     lock_step s (s\<lparr>ls_readers := ls_readers s - 1, ls_reader_pc := R_inner_done\<rparr>)"
| Transition_RUnlock:
    "ls_reader_pc s = R_inner_done \<Longrightarrow>
     lock_step s (s\<lparr>ls_readers := ls_readers s - 1, ls_reader_pc := R_done\<rparr>)"
| RegisterHook_Lock_wait:
    "ls_writer_pc s = W_start \<Longrightarrow> lock_step s (s\<lparr>ls_writer_pc := W_waiting\<rparr>)"
| RegisterHook_Lock:
    "ls_writer_pc s = W_waiting \<Longrightarrow> ls_readers s = 0 \<Longrightarrow> lock_step s (s\<lparr>ls_writer_pc := W_holding\<rparr>)"
| RegisterHook_Unlock:
    "ls_writer_pc s = W_holding \<Longrightarrow> lock_step s (s\<lparr>ls_writer_pc := W_done\<rparr>)"

inductive_cases lock_stepE: "lock_step s t"

text \<open>
  (C9) A \<open>Transition\<close> that runs concurrently with a \<open>RegisterHook\<close> can deadlock: there is an
  interleaving that reaches a state in which both goroutines still have work and neither can move.
\<close>

theorem Transition_RegisterHook_deadlock:
  "\<exists>s. lock_step\<^sup>*\<^sup>* lock_init s \<and> ls_reader_pc s \<noteq> R_done \<and> ls_writer_pc s \<noteq> W_done
       \<and> (\<forall>t. \<not> lock_step s t)"
proof -
  let ?s1 = "lock_init\<lparr>ls_readers := 1, ls_reader_pc := R_outer\<rparr>"
  let ?s2 = "?s1\<lparr>ls_writer_pc := W_waiting\<rparr>"
  have "lock_step lock_init ?s1"
    using Transition_RLock[of lock_init] by (simp add: lock_init_def)
  moreover have "lock_step ?s1 ?s2"
    by (rule RegisterHook_Lock_wait) (simp add: lock_init_def)
  ultimately have "lock_step\<^sup>*\<^sup>* lock_init ?s2"
    by (rule rtranclp.rtrancl_into_rtrancl [OF r_into_rtranclp])
  moreover have "\<not> lock_step ?s2 t" for t
    by (auto elim!: lock_stepE simp: lock_init_def)
  moreover have "ls_reader_pc ?s2 \<noteq> R_done" "ls_writer_pc ?s2 \<noteq> W_done" by simp_all
  ultimately show ?thesis by blast
qed

end
