(* ===== verification/Mem_Store.thy ===== *)
theory Mem_Store
  imports Run_Types
begin

text \<open>
  \<open>internal/persistence/memstore\<close>: the in-memory implementation of the \<open>persistence.Store\<close>
  interface, and the filters and the lease of \<open>internal/persistence/interface.go\<close>.

  The store keeps clones of what it is given and hands out clones, so values are copied and the
  model passes them. Every operation runs under the store's mutex; one operation is one step.
  An operation that ranges over a map takes the visited key order as its first argument. The
  lease tokens of a \<open>Dequeue\<close> come from \<open>crypto/rand\<close>: the model takes the tokens of one call as a
  function of the position of the lease in the result.
\<close>

section \<open>State\<close>

record DefinitionFilter =
  df_Namespace :: Namespace
  df_Name :: string
  df_Limit :: int
  df_Offset :: int

record RunFilter =
  rf_Namespace :: Namespace
  rf_Workflow :: string
  rf_State :: "RunState option"
  rf_CreatedAfter :: "gotime option"
  rf_Limit :: int
  rf_Offset :: int

record QueueLease =
  ql_Item :: QueueItem
  ql_Token :: string

record EventFilter =
  ef_Namespace :: Namespace
  ef_RunID :: string
  ef_Type :: EventType
  ef_Limit :: int

record DeliveryFilter =
  lf_Namespace :: Namespace
  lf_EndpointID :: string
  lf_Status :: DeliveryStatus
  lf_Limit :: int
  lf_Offset :: int

record CredentialsFilter =
  cf_Namespace :: Namespace
  cf_Limit :: int

record Store =
  st_definitions :: "string \<rightharpoonup> WorkflowDefinition"
  st_runs :: "string \<rightharpoonup> Run"
  st_queue :: "string \<rightharpoonup> QueueItem"
  st_events :: "Event list"
  st_webhooks :: "string \<rightharpoonup> WebhookEndpoint"
  st_deliveries :: "string \<rightharpoonup> Delivery"
  st_tokens :: "string \<rightharpoonup> APIToken"
  st_tokenHash :: "string \<rightharpoonup> APIToken"

definition Store_New :: Store where
  "Store_New = \<lparr>st_definitions = Map.empty, st_runs = Map.empty, st_queue = Map.empty, st_events = [],
     st_webhooks = Map.empty, st_deliveries = Map.empty, st_tokens = Map.empty, st_tokenHash = Map.empty\<rparr>"

definition defKey :: "Namespace \<Rightarrow> string \<Rightarrow> int \<Rightarrow> string" where
  "defKey namespace name version = namespace @ ''/'' @ name @ ''@'' @ itoa version"

definition runKey :: "Namespace \<Rightarrow> string \<Rightarrow> string" where
  "runKey namespace ident = namespace @ ''/'' @ ident"

definition queueKey :: "Namespace \<Rightarrow> string \<Rightarrow> string \<Rightarrow> string" where
  "queueKey namespace runID stepID = namespace @ ''/'' @ runID @ ''/'' @ stepID"

abbreviation notFound :: go_error where "notFound \<equiv> NotFoundError (Sentinel ErrNotFound)"
abbreviation alreadyExists :: go_error where "alreadyExists \<equiv> AlreadyExistsError (Sentinel ErrAlreadyExists)"

section \<open>Definitions\<close>

definition CreateDefinition :: "WorkflowDefinition \<Rightarrow> Store \<Rightarrow> go_error + Store" where
  "CreateDefinition d s =
     (let key = defKey (wid_Namespace (wd_ID d)) (wid_Name (wd_ID d)) (wid_Version (wd_ID d))
      in case st_definitions s key of Some _ \<Rightarrow> Inl alreadyExists
         | None \<Rightarrow> Inr (s\<lparr>st_definitions := (st_definitions s)(key \<mapsto> d)\<rparr>))"

definition GetDefinition :: "WorkflowID \<Rightarrow> Store \<Rightarrow> go_error + WorkflowDefinition" where
  "GetDefinition ident s =
     (case st_definitions s (defKey (wid_Namespace ident) (wid_Name ident) (wid_Version ident)) of
        None \<Rightarrow> Inl notFound | Some d \<Rightarrow> Inr d)"

fun latest_definition :: "Namespace \<Rightarrow> string \<Rightarrow> WorkflowDefinition list \<Rightarrow> WorkflowDefinition option \<Rightarrow> WorkflowDefinition option" where
  "latest_definition namespace name [] latest = latest"
| "latest_definition namespace name (d # ds) latest =
     latest_definition namespace name ds
       (if wid_Namespace (wd_ID d) = namespace \<and> wid_Name (wd_ID d) = name then
          (case latest of None \<Rightarrow> Some d
           | Some l \<Rightarrow> if wid_Version (wd_ID d) > wid_Version (wd_ID l) then Some d else Some l)
        else latest)"

definition GetDefinitionByName :: "string list \<Rightarrow> Namespace \<Rightarrow> string \<Rightarrow> Store \<Rightarrow> go_error + WorkflowDefinition" where
  "GetDefinitionByName ks namespace name s =
     (case latest_definition namespace name (map_values ks (st_definitions s)) None of
        None \<Rightarrow> Inl notFound | Some d \<Rightarrow> Inr d)"

definition ListDefinitions :: "string list \<Rightarrow> DefinitionFilter \<Rightarrow> Store \<Rightarrow> WorkflowDefinition list" where
  "ListDefinitions ks f s =
     (let out = filter (\<lambda>d. \<not> (df_Namespace f \<noteq> '''' \<and> wid_Namespace (wd_ID d) \<noteq> df_Namespace f)
                          \<and> \<not> (df_Name f \<noteq> '''' \<and> wid_Name (wd_ID d) \<noteq> df_Name f))
                  (map_values ks (st_definitions s));
          sorted = sort_key (\<lambda>d. (wid_Name (wd_ID d), - wid_Version (wd_ID d))) out
      in take_limit (df_Limit f) (drop_offset (df_Offset f) sorted))"

definition DeleteDefinition :: "WorkflowID \<Rightarrow> Store \<Rightarrow> go_error + Store" where
  "DeleteDefinition ident s =
     (let key = defKey (wid_Namespace ident) (wid_Name ident) (wid_Version ident)
      in case st_definitions s key of None \<Rightarrow> Inl notFound
         | Some _ \<Rightarrow> Inr (s\<lparr>st_definitions := (st_definitions s)(key := None)\<rparr>))"

section \<open>Runs\<close>

definition CreateRun :: "Run \<Rightarrow> Store \<Rightarrow> go_error + Store" where
  "CreateRun r s =
     (let key = runKey (run_Namespace r) (run_ID r)
      in case st_runs s key of Some _ \<Rightarrow> Inl alreadyExists
         | None \<Rightarrow> Inr (s\<lparr>st_runs := (st_runs s)(key \<mapsto> r)\<rparr>))"

definition GetRun :: "Namespace \<Rightarrow> string \<Rightarrow> Store \<Rightarrow> go_error + Run" where
  "GetRun namespace ident s =
     (case st_runs s (runKey namespace ident) of None \<Rightarrow> Inl notFound | Some r \<Rightarrow> Inr r)"

definition ListRuns :: "string list \<Rightarrow> RunFilter \<Rightarrow> Store \<Rightarrow> Run list" where
  "ListRuns ks f s =
     (let out = filter (\<lambda>r. \<not> (rf_Namespace f \<noteq> '''' \<and> run_Namespace r \<noteq> rf_Namespace f)
                          \<and> \<not> (rf_Workflow f \<noteq> '''' \<and> wid_Name (run_Workflow r) \<noteq> rf_Workflow f)
                          \<and> (case rf_State f of None \<Rightarrow> True | Some x \<Rightarrow> run_State r = x)
                          \<and> (case rf_CreatedAfter f of None \<Rightarrow> True | Some t \<Rightarrow> time_After (run_CreatedAt r) t))
                  (map_values ks (st_runs s));
          sorted = sort_key (\<lambda>r. - run_CreatedAt r) out
      in take_limit (rf_Limit f) (drop_offset (rf_Offset f) sorted))"

definition set_run_state :: "RunState \<Rightarrow> gotime \<Rightarrow> Run \<Rightarrow> Run" where
  "set_run_state to at r0 =
     (let r = r0\<lparr>run_State := to\<rparr>
      in if run_StartedAt r = None \<and> (to = StateRunning \<or> to = StateSucceeded \<or> to = StateFailed)
         then r\<lparr>run_StartedAt := Some at\<rparr>
         else if IsTerminal to then r\<lparr>run_FinishedAt := Some at\<rparr> else r)"

definition UpdateRunState :: "Namespace \<Rightarrow> string \<Rightarrow> RunState \<Rightarrow> gotime \<Rightarrow> Store \<Rightarrow> go_error + Store" where
  "UpdateRunState namespace ident to at s =
     (case st_runs s (runKey namespace ident) of None \<Rightarrow> Inl notFound
      | Some r \<Rightarrow> Inr (s\<lparr>st_runs := (st_runs s)(runKey namespace ident \<mapsto> set_run_state to at r)\<rparr>))"

definition UpdateRunError :: "Namespace \<Rightarrow> string \<Rightarrow> string \<Rightarrow> Store \<Rightarrow> go_error + Store" where
  "UpdateRunError namespace ident errMsg s =
     (case st_runs s (runKey namespace ident) of None \<Rightarrow> Inl notFound
      | Some r \<Rightarrow> Inr (s\<lparr>st_runs := (st_runs s)(runKey namespace ident \<mapsto> r\<lparr>run_Error := errMsg\<rparr>)\<rparr>))"

definition UpdateStepState :: "Namespace \<Rightarrow> string \<Rightarrow> StepRun \<Rightarrow> Store \<Rightarrow> go_error + Store" where
  "UpdateStepState namespace ident step s =
     (case st_runs s (runKey namespace ident) of None \<Rightarrow> Inl notFound
      | Some r \<Rightarrow>
          (case update_first (\<lambda>x. sr_StepID x = sr_StepID step) (\<lambda>_. step) (run_Steps r) of
             None \<Rightarrow> Inl (NotFoundError (Message (''step '' @ Quote (sr_StepID step) @ '' not found in run '' @ Quote ident)))
           | Some steps \<Rightarrow>
               Inr (s\<lparr>st_runs := (st_runs s)(runKey namespace ident \<mapsto> r\<lparr>run_Steps := steps\<rparr>)\<rparr>)))"

section \<open>The queue\<close>

definition Enqueue :: "QueueItem \<Rightarrow> Store \<Rightarrow> Store" where
  "Enqueue item s =
     s\<lparr>st_queue := (st_queue s)(queueKey (qi_Namespace item) (qi_RunID item) (qi_StepID item) \<mapsto> item)\<rparr>"

definition lease_item :: "gotime \<Rightarrow> QueueItem \<Rightarrow> QueueItem" where
  "lease_item now item =
     item\<lparr>qi_Attempt := qi_Attempt item + 1, qi_VisibleAt := time_Add now (30 * Second)\<rparr>"

text \<open>
  The loop of \<open>Dequeue\<close> and \<open>DequeueAny\<close>; \<open>p\<close> holds for the items the loop does not skip.
\<close>

fun dequeue_loop :: "(QueueItem \<Rightarrow> bool) \<Rightarrow> int \<Rightarrow> gotime \<Rightarrow> (nat \<Rightarrow> string) \<Rightarrow> string list \<Rightarrow>
    (string \<rightharpoonup> QueueItem) \<Rightarrow> QueueLease list \<Rightarrow> (string \<rightharpoonup> QueueItem) \<times> QueueLease list" where
  "dequeue_loop p limit now tokens [] queue out = (queue, out)"
| "dequeue_loop p limit now tokens (k # ks) queue out =
     (case queue k of None \<Rightarrow> dequeue_loop p limit now tokens ks queue out
      | Some item \<Rightarrow>
          if \<not> p item then dequeue_loop p limit now tokens ks queue out
          else let item' = lease_item now item;
                   out' = out @ [\<lparr>ql_Item = item', ql_Token = tokens (length out)\<rparr>];
                   queue' = queue(k \<mapsto> item')
               in if limit > 0 \<and> int (length out') \<ge> limit then (queue', out')
                  else dequeue_loop p limit now tokens ks queue' out')"

definition Dequeue :: "string list \<Rightarrow> (nat \<Rightarrow> string) \<Rightarrow> Namespace \<Rightarrow> int \<Rightarrow> gotime \<Rightarrow> Store \<Rightarrow> Store \<times> QueueLease list" where
  "Dequeue ks tokens namespace limit now s =
     (case dequeue_loop (\<lambda>item. qi_Namespace item = namespace \<and> time_Before (qi_VisibleAt item) now)
             limit now tokens ks (st_queue s) [] of
        (queue, out) \<Rightarrow> (s\<lparr>st_queue := queue\<rparr>, out))"

definition DequeueAny :: "string list \<Rightarrow> (nat \<Rightarrow> string) \<Rightarrow> int \<Rightarrow> gotime \<Rightarrow> Store \<Rightarrow> Store \<times> QueueLease list" where
  "DequeueAny ks tokens limit now s =
     (case dequeue_loop (\<lambda>item. time_Before (qi_VisibleAt item) now) limit now tokens ks (st_queue s) [] of
        (queue, out) \<Rightarrow> (s\<lparr>st_queue := queue\<rparr>, out))"

definition CompleteStep :: "Namespace \<Rightarrow> string \<Rightarrow> string \<Rightarrow> string \<Rightarrow> Store \<Rightarrow> go_error + Store" where
  "CompleteStep namespace runID stepID leaseToken s =
     (let key = queueKey namespace runID stepID
      in case st_queue s key of None \<Rightarrow> Inl notFound
         | Some _ \<Rightarrow> Inr (s\<lparr>st_queue := (st_queue s)(key := None)\<rparr>))"

definition ReleaseStep :: "gotime \<Rightarrow> Namespace \<Rightarrow> string \<Rightarrow> string \<Rightarrow> Store \<Rightarrow> go_error + Store" where
  "ReleaseStep now namespace runID stepID s =
     (let key = queueKey namespace runID stepID
      in case st_queue s key of None \<Rightarrow> Inl notFound
         | Some item \<Rightarrow> Inr (s\<lparr>st_queue := (st_queue s)(key \<mapsto> item\<lparr>qi_VisibleAt := now\<rparr>)\<rparr>))"

definition RequeueWithDelay :: "Namespace \<Rightarrow> string \<Rightarrow> string \<Rightarrow> gotime \<Rightarrow> int \<Rightarrow> Store \<Rightarrow> go_error + Store" where
  "RequeueWithDelay namespace runID stepID visibleAt attempt s =
     (let key = queueKey namespace runID stepID
      in case st_queue s key of None \<Rightarrow> Inl notFound
         | Some item \<Rightarrow> Inr (s\<lparr>st_queue := (st_queue s)
             (key \<mapsto> item\<lparr>qi_VisibleAt := visibleAt, qi_Attempt := attempt\<rparr>)\<rparr>))"

definition LeaseExpired :: "string list \<Rightarrow> duration \<Rightarrow> gotime \<Rightarrow> Store \<Rightarrow> QueueItem list" where
  "LeaseExpired ks leaseTimeout now s =
     filter (\<lambda>item. qi_Attempt item > 0 \<and> time_Sub now (qi_VisibleAt item) > leaseTimeout)
       (map_values ks (st_queue s))"

text \<open>\<open>ListQueue\<close> breaks out of the loop once the limit is reached, which is taking a prefix.\<close>

definition ListQueue :: "string list \<Rightarrow> Namespace \<Rightarrow> int \<Rightarrow> Store \<Rightarrow> QueueItem list" where
  "ListQueue ks namespace limit s =
     take_limit limit (filter (\<lambda>item. qi_Namespace item = namespace) (map_values ks (st_queue s)))"

section \<open>Events\<close>

definition AppendEvent :: "Event \<Rightarrow> Store \<Rightarrow> Store" where
  "AppendEvent e s = s\<lparr>st_events := st_events s @ [e]\<rparr>"

definition GetEvent :: "string \<Rightarrow> Store \<Rightarrow> go_error + Event" where
  "GetEvent ident s = (case find (\<lambda>e. ev_ID e = ident) (st_events s) of None \<Rightarrow> Inl notFound | Some e \<Rightarrow> Inr e)"

text \<open>
  \<open>srt\<close> is what \<open>sort.Slice\<close> makes of the selected events; it need not be stable. The theorems ask
  that it returns a permutation ordered by decreasing creation time.
\<close>

definition ListEvents :: "(Event list \<Rightarrow> Event list) \<Rightarrow> EventFilter \<Rightarrow> Store \<Rightarrow> Event list" where
  "ListEvents srt f s =
     take_limit (ef_Limit f)
       (srt (filter (\<lambda>e. \<not> (ef_Namespace f \<noteq> '''' \<and> ev_Namespace e \<noteq> ef_Namespace f)
                       \<and> \<not> (ef_RunID f \<noteq> '''' \<and> ev_RunID e \<noteq> ef_RunID f)
                       \<and> \<not> (ef_Type f \<noteq> EventOther '''' \<and> ev_Type e \<noteq> ef_Type f))
               (st_events s)))"

section \<open>Webhook endpoints and deliveries\<close>

definition CreateWebhookEndpoint :: "WebhookEndpoint \<Rightarrow> Store \<Rightarrow> go_error + Store" where
  "CreateWebhookEndpoint e s =
     (let key = defKey (we_Namespace e) (we_ID e) 0
      in case st_webhooks s key of Some _ \<Rightarrow> Inl alreadyExists
         | None \<Rightarrow> Inr (s\<lparr>st_webhooks := (st_webhooks s)(key \<mapsto> e)\<rparr>))"

definition GetWebhookEndpoint :: "Namespace \<Rightarrow> string \<Rightarrow> Store \<Rightarrow> go_error + WebhookEndpoint" where
  "GetWebhookEndpoint namespace ident s =
     (case st_webhooks s (defKey namespace ident 0) of None \<Rightarrow> Inl notFound | Some e \<Rightarrow> Inr e)"

definition ListWebhookEndpoints :: "string list \<Rightarrow> Namespace \<Rightarrow> Store \<Rightarrow> WebhookEndpoint list" where
  "ListWebhookEndpoints ks namespace s =
     sort_key we_ID (filter (\<lambda>e. we_Namespace e = namespace) (map_values ks (st_webhooks s)))"

definition UpdateWebhookEndpoint :: "WebhookEndpoint \<Rightarrow> Store \<Rightarrow> go_error + Store" where
  "UpdateWebhookEndpoint e s =
     (let key = defKey (we_Namespace e) (we_ID e) 0
      in case st_webhooks s key of None \<Rightarrow> Inl notFound
         | Some _ \<Rightarrow> Inr (s\<lparr>st_webhooks := (st_webhooks s)(key \<mapsto> e)\<rparr>))"

definition DeleteWebhookEndpoint :: "Namespace \<Rightarrow> string \<Rightarrow> Store \<Rightarrow> go_error + Store" where
  "DeleteWebhookEndpoint namespace ident s =
     (let key = defKey namespace ident 0
      in case st_webhooks s key of None \<Rightarrow> Inl notFound
         | Some _ \<Rightarrow> Inr (s\<lparr>st_webhooks := (st_webhooks s)(key := None)\<rparr>))"

definition CreateDelivery :: "Delivery \<Rightarrow> Store \<Rightarrow> go_error + Store" where
  "CreateDelivery d s =
     (let key = defKey (dl_Namespace d) (dl_ID d) 0
      in case st_deliveries s key of Some _ \<Rightarrow> Inl alreadyExists
         | None \<Rightarrow> Inr (s\<lparr>st_deliveries := (st_deliveries s)(key \<mapsto> d)\<rparr>))"

definition UpdateDelivery :: "Delivery \<Rightarrow> Store \<Rightarrow> go_error + Store" where
  "UpdateDelivery d s =
     (let key = defKey (dl_Namespace d) (dl_ID d) 0
      in case st_deliveries s key of None \<Rightarrow> Inl notFound
         | Some _ \<Rightarrow> Inr (s\<lparr>st_deliveries := (st_deliveries s)(key \<mapsto> d)\<rparr>))"

definition ListDeliveries :: "string list \<Rightarrow> DeliveryFilter \<Rightarrow> Store \<Rightarrow> Delivery list" where
  "ListDeliveries ks f s =
     (let out = filter (\<lambda>d. \<not> (lf_Namespace f \<noteq> '''' \<and> dl_Namespace d \<noteq> lf_Namespace f)
                          \<and> \<not> (lf_EndpointID f \<noteq> '''' \<and> dl_EndpointID d \<noteq> lf_EndpointID f)
                          \<and> \<not> (lf_Status f \<noteq> DeliveryOther '''' \<and> dl_Status d \<noteq> lf_Status f))
                  (map_values ks (st_deliveries s))
      in take_limit (lf_Limit f) (drop_offset (lf_Offset f) (sort_key dl_CreatedAt out)))"

section \<open>API tokens\<close>

definition CreateToken :: "APIToken \<Rightarrow> Store \<Rightarrow> go_error + Store" where
  "CreateToken tok s =
     (let key = defKey (tok_Namespace tok) (tok_ID tok) 0
      in case st_tokens s key of Some _ \<Rightarrow> Inl alreadyExists
         | None \<Rightarrow>
             (let s1 = s\<lparr>st_tokens := (st_tokens s)(key \<mapsto> tok)\<rparr>
              in Inr (if tok_TokenHash tok \<noteq> ''''
                      then s1\<lparr>st_tokenHash := (st_tokenHash s1)(tok_TokenHash tok \<mapsto> tok)\<rparr> else s1)))"

definition GetToken :: "Namespace \<Rightarrow> string \<Rightarrow> Store \<Rightarrow> go_error + APIToken" where
  "GetToken namespace ident s =
     (case st_tokens s (defKey namespace ident 0) of None \<Rightarrow> Inl notFound | Some t \<Rightarrow> Inr t)"

definition LookupTokenByHash :: "string \<Rightarrow> Store \<Rightarrow> go_error + APIToken" where
  "LookupTokenByHash hash s = (case st_tokenHash s hash of None \<Rightarrow> Inl notFound | Some t \<Rightarrow> Inr t)"

definition ListTokens :: "string list \<Rightarrow> CredentialsFilter \<Rightarrow> Store \<Rightarrow> APIToken list" where
  "ListTokens ks f s =
     take_limit (cf_Limit f)
       (filter (\<lambda>t. \<not> (cf_Namespace f \<noteq> '''' \<and> tok_Namespace t \<noteq> cf_Namespace f)) (map_values ks (st_tokens s)))"

definition DeleteToken :: "Namespace \<Rightarrow> string \<Rightarrow> Store \<Rightarrow> go_error + Store" where
  "DeleteToken namespace ident s =
     (let key = defKey namespace ident 0
      in case st_tokens s key of None \<Rightarrow> Inl notFound
         | Some t \<Rightarrow>
             (let s1 = s\<lparr>st_tokens := (st_tokens s)(key := None)\<rparr>
              in Inr (if tok_TokenHash t \<noteq> ''''
                      then s1\<lparr>st_tokenHash := (st_tokenHash s1)(tok_TokenHash t := None)\<rparr> else s1)))"

section \<open>Expiry\<close>

definition ListExpiredRuns :: "string list \<Rightarrow> gotime \<Rightarrow> int \<Rightarrow> Store \<Rightarrow> Run list" where
  "ListExpiredRuns ks cutoff limit s =
     (let out = filter (\<lambda>r. (case run_FinishedAt r of None \<Rightarrow> False | Some t \<Rightarrow> time_Before t cutoff)
                          \<and> IsTerminal (run_State r))
                  (map_values ks (st_runs s))
      in take_limit limit (sort_key (\<lambda>r. the (run_FinishedAt r)) out))"

text \<open>\<open>strings.Contains\<close>.\<close>

fun has_prefix :: "string \<Rightarrow> string \<Rightarrow> bool" where
  "has_prefix [] s = True"
| "has_prefix (p # ps) [] = False"
| "has_prefix (p # ps) (c # cs) = (p = c \<and> has_prefix ps cs)"

fun Contains :: "string \<Rightarrow> string \<Rightarrow> bool" where
  "Contains [] sub = has_prefix sub []"
| "Contains (c # cs) sub = (has_prefix sub (c # cs) \<or> Contains cs sub)"

text \<open>
  The two inner loops of \<open>DeleteRuns\<close>, over the runs and over the queue. Their result does not
  depend on the order of the keys (\<open>delete_runs_of_eq\<close> and \<open>delete_queue_of_eq\<close> below), so one
  order serves every identifier.
\<close>

fun delete_runs_of :: "string \<Rightarrow> string list \<Rightarrow> (string \<rightharpoonup> Run) \<times> int \<Rightarrow> (string \<rightharpoonup> Run) \<times> int" where
  "delete_runs_of ident [] acc = acc"
| "delete_runs_of ident (k # ks) (runs, deleted) =
     delete_runs_of ident ks
       (case runs k of None \<Rightarrow> (runs, deleted)
        | Some r \<Rightarrow> if run_ID r = ident then (runs(k := None), deleted + 1) else (runs, deleted))"

fun delete_queue_of :: "string \<Rightarrow> string list \<Rightarrow> (string \<rightharpoonup> QueueItem) \<Rightarrow> (string \<rightharpoonup> QueueItem)" where
  "delete_queue_of ident [] queue = queue"
| "delete_queue_of ident (k # ks) queue =
     delete_queue_of ident ks
       (if queue k \<noteq> None \<and> Contains k (''/'' @ ident @ ''/'') then queue(k := None) else queue)"

definition DeleteRuns :: "string list \<Rightarrow> string list \<Rightarrow> string list \<Rightarrow> Store \<Rightarrow> Store \<times> int" where
  "DeleteRuns rks qks ids s =
     (case fold (\<lambda>ident (runs, queue, deleted).
              (case delete_runs_of ident rks (runs, deleted) of (runs', deleted') \<Rightarrow>
                 (runs', delete_queue_of ident qks queue, deleted')))
             ids (st_runs s, st_queue s, 0) of
        (runs, queue, deleted) \<Rightarrow> (s\<lparr>st_runs := runs, st_queue := queue\<rparr>, deleted))"

definition CompactRuns :: "string list \<Rightarrow> string list \<Rightarrow> gotime \<Rightarrow> int \<Rightarrow> Store \<Rightarrow> Store \<times> int" where
  "CompactRuns rks qks before limit s =
     DeleteRuns rks qks (map run_ID (ListExpiredRuns rks before limit s)) s"

section \<open>Keys\<close>

definition no_slash :: "string \<Rightarrow> bool" where
  "no_slash x \<longleftrightarrow> CHR ''/'' \<notin> set x"

lemma runKey_inject:
  "no_slash n \<Longrightarrow> no_slash m \<Longrightarrow> runKey n i = runKey m j \<longleftrightarrow> n = m \<and> i = j"
  by (simp add: runKey_def no_slash_def append_sep_inject)

lemma defKey_inject:
  assumes "no_slash n" "no_slash m"
  shows "defKey n x v = defKey m y w \<longleftrightarrow> n = m \<and> x = y \<and> v = w"
proof -
  have "CHR ''@'' \<notin> set (itoa v)" "CHR ''@'' \<notin> set (itoa w)"
    using set_itoa[of v] set_itoa[of w] by auto
  then show ?thesis
    using assms by (simp add: defKey_def no_slash_def append_sep_inject append_sep_inject_right)
qed

lemma queueKey_inject:
  assumes "no_slash n" "no_slash m" "no_slash i" "no_slash j"
  shows "queueKey n i x = queueKey m j y \<longleftrightarrow> n = m \<and> i = j \<and> x = y"
  using assms by (simp add: queueKey_def no_slash_def append_sep_inject)

section \<open>The contract of a table\<close>

text \<open>
  Definitions, runs, webhook endpoints and tokens are kept the same way: \<open>create\<close> refuses a key that
  is taken, and a later \<open>get\<close> of that key, and of no other one, sees the value. The key is a tuple
  the caller gives; \<open>ok\<close> says for which tuples the key strings are unambiguous.
\<close>

locale table =
  fixes key :: "'v \<Rightarrow> 'k"
    and ok :: "'k \<Rightarrow> bool"
    and create :: "'v \<Rightarrow> 's \<Rightarrow> go_error + 's"
    and get :: "'k \<Rightarrow> 's \<Rightarrow> go_error + 'v"
  assumes get_error: "get k s = Inl e \<Longrightarrow> e = notFound"
    and create_taken: "get (key v) s = Inr w \<Longrightarrow> create v s = Inl alreadyExists"
    and create_fresh: "get (key v) s = Inl e \<Longrightarrow> \<exists>s'. create v s = Inr s'"
    and get_create: "create v s = Inr s' \<Longrightarrow> ok k \<Longrightarrow> ok (key v) \<Longrightarrow>
      get k s' = (if k = key v then Inr v else get k s)"
begin

fun create_all :: "'v list \<Rightarrow> 's \<Rightarrow> go_error + 's" where
  "create_all [] s = Inr s"
| "create_all (v # vs) s = (case create v s of Inl e \<Rightarrow> Inl e | Inr s' \<Rightarrow> create_all vs s')"

lemma create_never_overwrites:
  assumes "create v s = Inr s'" "get k s = Inr w" "ok k" "ok (key v)"
  shows "get k s' = Inr w"
  using assms get_create[OF assms(1,3,4)] create_taken[of v s w] by auto

lemma create_all_get:
  assumes "distinct (map key vs)" "\<forall>v \<in> set vs. ok (key v) \<and> get (key v) s = Inl notFound"
  shows "\<exists>s'. create_all vs s = Inr s' \<and>
           (\<forall>k. ok k \<longrightarrow> get k s' = (case find (\<lambda>v. key v = k) vs of Some v \<Rightarrow> Inr v | None \<Rightarrow> get k s))"
  using assms
proof (induction vs arbitrary: s)
  case Nil
  then show ?case by simp
next
  case (Cons v vs)
  from Cons.prems obtain s1 where s1: "create v s = Inr s1" using create_fresh by fastforce
  have g: "get k s1 = (if k = key v then Inr v else get k s)" if "ok k" for k
    using get_create[OF s1 that] Cons.prems by simp
  have "\<forall>u \<in> set vs. ok (key u) \<and> get (key u) s1 = Inl notFound"
    using Cons.prems g by (auto simp: image_iff)
  with Cons.IH[of s1] Cons.prems obtain s' where s': "create_all vs s1 = Inr s'"
    and all: "\<forall>k. ok k \<longrightarrow> get k s' = (case find (\<lambda>v. key v = k) vs of Some v \<Rightarrow> Inr v | None \<Rightarrow> get k s1)"
    by auto
  have "find (\<lambda>u. key u = key v) vs = None"
    using Cons.prems(1) by (auto simp: find_None_iff image_iff)
  then have "get k s' = (case find (\<lambda>v. key v = k) (v # vs) of Some v \<Rightarrow> Inr v | None \<Rightarrow> get k s)" if "ok k" for k
    using all g that by (auto split: option.splits)
  then show ?case using s1 s' by auto
qed

end

text \<open>A table whose values are changed in place by an operation that may refuse the change.\<close>

locale updatable = table key ok create get
  for key :: "'v \<Rightarrow> 'k" and ok :: "'k \<Rightarrow> bool" and create :: "'v \<Rightarrow> 's \<Rightarrow> go_error + 's"
    and get :: "'k \<Rightarrow> 's \<Rightarrow> go_error + 'v" +
  fixes update :: "'k \<Rightarrow> 'u \<Rightarrow> 's \<Rightarrow> go_error + 's"
    and change :: "'u \<Rightarrow> 'v \<Rightarrow> 'v option"
  assumes update_missing: "get k s = Inl e \<Longrightarrow> update k u s = Inl notFound"
    and update_refused: "get k s = Inr v \<Longrightarrow> change u v = None \<Longrightarrow> \<exists>e. update k u s = Inl e"
    and update_done: "get k s = Inr v \<Longrightarrow> change u v = Some v' \<Longrightarrow> \<exists>s'. update k u s = Inr s'"
    and get_update: "update k u s = Inr s' \<Longrightarrow> ok k \<Longrightarrow> ok j \<Longrightarrow>
      get j s' = (if j = k then (case get k s of Inr v \<Rightarrow> Inr (the (change u v)) | Inl e \<Rightarrow> Inl e) else get j s)"
begin

lemma update_Inr: "update k u s = Inr s' \<Longrightarrow> \<exists>v v'. get k s = Inr v \<and> change u v = Some v'"
  by (cases "get k s"; cases "change u (projr (get k s))")
    (use update_missing update_refused in fastforce)+

lemma update_frame:
  assumes "update k u s = Inr s'" "ok k" "ok j" "j \<noteq> k"
  shows "get j s' = get j s"
  using get_update[OF assms(1-3)] assms(4) by simp

lemma update_get:
  assumes "update k u s = Inr s'" "ok k" "get k s = Inr v" "change u v = Some v'"
  shows "get k s' = Inr v'"
  using get_update[OF assms(1,2,2)] assms(3,4) by simp

end

subsection \<open>Tables kept in a map\<close>

text \<open>
  How the store meets the contract: the values are in a map \<open>sel s\<close> under the string \<open>kstr k\<close>, which
  is unambiguous on the keys that are \<open>ok\<close>.
\<close>

locale map_table =
  fixes sel :: "'s \<Rightarrow> string \<rightharpoonup> 'v"
    and put :: "'v \<Rightarrow> 's \<Rightarrow> 's"
    and kstr :: "'k \<Rightarrow> string"
    and key :: "'v \<Rightarrow> 'k"
    and ok :: "'k \<Rightarrow> bool"
    and create :: "'v \<Rightarrow> 's \<Rightarrow> go_error + 's"
    and get :: "'k \<Rightarrow> 's \<Rightarrow> go_error + 'v"
  assumes kstr_inject: "ok k \<Longrightarrow> ok j \<Longrightarrow> kstr k = kstr j \<longleftrightarrow> k = j"
    and sel_put: "sel (put v s) = (sel s)(kstr (key v) \<mapsto> v)"
    and create_eq: "create v s =
      (case sel s (kstr (key v)) of Some _ \<Rightarrow> Inl alreadyExists | None \<Rightarrow> Inr (put v s))"
    and get_eq: "get k s = (case sel s (kstr k) of None \<Rightarrow> Inl notFound | Some v \<Rightarrow> Inr v)"

sublocale map_table \<subseteq> table key ok create get
  by unfold_locales (auto simp: get_eq create_eq sel_put kstr_inject split: option.splits if_splits)

locale map_updatable = map_table sel put kstr key ok create get
  for sel :: "'s \<Rightarrow> string \<rightharpoonup> 'v" and put :: "'v \<Rightarrow> 's \<Rightarrow> 's" and kstr :: "'k \<Rightarrow> string"
    and key :: "'v \<Rightarrow> 'k" and ok :: "'k \<Rightarrow> bool"
    and create :: "'v \<Rightarrow> 's \<Rightarrow> go_error + 's" and get :: "'k \<Rightarrow> 's \<Rightarrow> go_error + 'v" +
  fixes update :: "'k \<Rightarrow> 'u \<Rightarrow> 's \<Rightarrow> go_error + 's"
    and change :: "'u \<Rightarrow> 'v \<Rightarrow> 'v option"
  assumes update_None: "sel s (kstr k) = None \<Longrightarrow> update k u s = Inl notFound"
    and update_Some_None: "sel s (kstr k) = Some v \<Longrightarrow> change u v = None \<Longrightarrow> \<exists>e. update k u s = Inl e"
    and update_Some_Some: "sel s (kstr k) = Some v \<Longrightarrow> change u v = Some v' \<Longrightarrow>
      \<exists>s'. update k u s = Inr s' \<and> sel s' = (sel s)(kstr k \<mapsto> v')"

sublocale map_updatable \<subseteq> updatable key ok create get update change
proof unfold_locales
  fix k s e u assume "get k s = Inl e"
  then show "update k u s = Inl notFound"
    by (intro update_None) (simp add: get_eq split: option.splits)
next
  fix k s v u assume "get k s = Inr v" "change u v = None"
  then show "\<exists>e. update k u s = Inl e"
    by (intro update_Some_None[of s k v]) (auto simp: get_eq split: option.splits)
next
  fix k s v u v' assume "get k s = Inr v" "change u v = Some v'"
  then show "\<exists>s'. update k u s = Inr s'"
    using update_Some_Some[of s k v u v'] by (auto simp: get_eq split: option.splits)
next
  fix k u s s' j assume up: "update k u s = Inr s'" and oks: "ok k" "ok j"
  obtain v where v: "sel s (kstr k) = Some v"
    using update_None[of s k u] up by (cases "sel s (kstr k)") auto
  obtain v' where v': "change u v = Some v'"
    using update_Some_None[OF v, of u] up by (cases "change u v") auto
  have "sel s' = (sel s)(kstr k \<mapsto> v')"
    using update_Some_Some[OF v v'] up by auto
  then show "get j s' = (if j = k then (case get k s of Inr v \<Rightarrow> Inr (the (change u v)) | Inl e \<Rightarrow> Inl e) else get j s)"
    using v v' oks by (auto simp: get_eq kstr_inject)
qed

subsection \<open>The tables of the store\<close>

abbreviation id_key :: "WorkflowID \<Rightarrow> string" where
  "id_key i \<equiv> defKey (wid_Namespace i) (wid_Name i) (wid_Version i)"

abbreviation plain_ns :: "Namespace \<times> string \<Rightarrow> bool" where
  "plain_ns k \<equiv> no_slash (fst k)"

interpretation definitions: map_table st_definitions "\<lambda>d s. s\<lparr>st_definitions := (st_definitions s)(id_key (wd_ID d) \<mapsto> d)\<rparr>"
    id_key wd_ID "\<lambda>i. no_slash (wid_Namespace i)" CreateDefinition GetDefinition
  by unfold_locales (auto simp: defKey_inject CreateDefinition_def GetDefinition_def Let_def)

interpretation webhooks: map_table st_webhooks
    "\<lambda>e s. s\<lparr>st_webhooks := (st_webhooks s)(defKey (we_Namespace e) (we_ID e) 0 \<mapsto> e)\<rparr>"
    "\<lambda>k. defKey (fst k) (snd k) 0" "\<lambda>e. (we_Namespace e, we_ID e)" plain_ns
    CreateWebhookEndpoint "\<lambda>k. GetWebhookEndpoint (fst k) (snd k)"
  by unfold_locales
    (auto simp: defKey_inject prod_eq_iff CreateWebhookEndpoint_def GetWebhookEndpoint_def Let_def)

definition put_token :: "APIToken \<Rightarrow> Store \<Rightarrow> Store" where
  "put_token t s =
     (let s1 = s\<lparr>st_tokens := (st_tokens s)(defKey (tok_Namespace t) (tok_ID t) 0 \<mapsto> t)\<rparr>
      in if tok_TokenHash t \<noteq> '''' then s1\<lparr>st_tokenHash := (st_tokenHash s1)(tok_TokenHash t \<mapsto> t)\<rparr> else s1)"

interpretation tokens: map_table st_tokens put_token
    "\<lambda>k. defKey (fst k) (snd k) 0" "\<lambda>t. (tok_Namespace t, tok_ID t)" plain_ns
    CreateToken "\<lambda>k. GetToken (fst k) (snd k)"
  by unfold_locales
    (auto simp: defKey_inject prod_eq_iff CreateToken_def GetToken_def put_token_def Let_def split: option.splits)

text \<open>
  The three operations that change a run in place. \<open>UpdateStepState\<close> replaces the first step with the
  identifier it is given and refuses an unknown one.
\<close>

definition put_run :: "Run \<Rightarrow> Store \<Rightarrow> Store" where
  "put_run r s = s\<lparr>st_runs := (st_runs s)(runKey (run_Namespace r) (run_ID r) \<mapsto> r)\<rparr>"

definition set_step :: "StepRun \<Rightarrow> Run \<Rightarrow> Run option" where
  "set_step step r =
     map_option (\<lambda>steps. r\<lparr>run_Steps := steps\<rparr>)
       (update_first (\<lambda>x. sr_StepID x = sr_StepID step) (\<lambda>_. step) (run_Steps r))"

lemmas run_table_defs = prod_eq_iff put_run_def CreateRun_def GetRun_def Let_def

interpretation run_state: map_updatable st_runs put_run
    "\<lambda>k. runKey (fst k) (snd k)" "\<lambda>r. (run_Namespace r, run_ID r)" plain_ns
    CreateRun "\<lambda>k. GetRun (fst k) (snd k)"
    "\<lambda>k u. UpdateRunState (fst k) (snd k) (fst u) (snd u)" "\<lambda>u r. Some (set_run_state (fst u) (snd u) r)"
  by unfold_locales (auto simp: runKey_inject run_table_defs UpdateRunState_def split: option.splits)

interpretation run_error: map_updatable st_runs put_run
    "\<lambda>k. runKey (fst k) (snd k)" "\<lambda>r. (run_Namespace r, run_ID r)" plain_ns
    CreateRun "\<lambda>k. GetRun (fst k) (snd k)"
    "\<lambda>k. UpdateRunError (fst k) (snd k)" "\<lambda>u r. Some (r\<lparr>run_Error := u\<rparr>)"
  by unfold_locales (auto simp: runKey_inject run_table_defs UpdateRunError_def split: option.splits)

interpretation run_step: map_updatable st_runs put_run
    "\<lambda>k. runKey (fst k) (snd k)" "\<lambda>r. (run_Namespace r, run_ID r)" plain_ns
    CreateRun "\<lambda>k. GetRun (fst k) (snd k)"
    "\<lambda>k. UpdateStepState (fst k) (snd k)" set_step
  by unfold_locales (auto simp: runKey_inject run_table_defs UpdateStepState_def set_step_def split: option.splits)

text \<open>
  (C16) The round trip the conformance suite checks, for any number of values: creating runs with
  distinct (namespace, id) pairs in a store that has none of them succeeds, and afterwards every
  run is read back as it was created while every other lookup is as before, provided namespaces
  contain no slash (the separator of the key strings).
\<close>

theorem CreateRun_round_trip:
  assumes "distinct (map (\<lambda>r. (run_Namespace r, run_ID r)) rs)"
    "\<forall>r \<in> set rs. no_slash (run_Namespace r) \<and> GetRun (run_Namespace r) (run_ID r) s = Inl notFound"
  shows "\<exists>s'. run_state.create_all rs s = Inr s'
    \<and> (\<forall>r \<in> set rs. GetRun (run_Namespace r) (run_ID r) s' = Inr r)
    \<and> (\<forall>n i. no_slash n \<and> (n, i) \<notin> (\<lambda>r. (run_Namespace r, run_ID r)) ` set rs \<longrightarrow> GetRun n i s' = GetRun n i s)"
proof -
  let ?key = "\<lambda>r. (run_Namespace r, run_ID r)"
  have "\<forall>r \<in> set rs. plain_ns (?key r) \<and> GetRun (fst (?key r)) (snd (?key r)) s = Inl notFound"
    using assms(2) by simp
  from run_state.create_all_get[OF assms(1) this] obtain s' where s': "run_state.create_all rs s = Inr s'"
    and all: "\<forall>k. plain_ns k \<longrightarrow> GetRun (fst k) (snd k) s' =
      (case find (\<lambda>r. ?key r = k) rs of Some r \<Rightarrow> Inr r | None \<Rightarrow> GetRun (fst k) (snd k) s)"
    by auto
  have get: "GetRun n i s' = (case find (\<lambda>r. ?key r = (n, i)) rs of Some r \<Rightarrow> Inr r | None \<Rightarrow> GetRun n i s)"
    if "no_slash n" for n i
    using all[rule_format, of "(n, i)"] that by (simp split: option.splits)
  have "find (\<lambda>x. ?key x = ?key r) rs = Some r" if "r \<in> set rs" for r
    using that assms(1) by (induction rs) (auto simp: image_iff)
  moreover have "find (\<lambda>x. ?key x = k) rs = None" if "k \<notin> ?key ` set rs" for k
    using that by (auto simp: find_None_iff)
  ultimately show ?thesis
    using s' get assms(2) by (intro exI[of _ s']) auto
qed

definition round_trip_run :: "string \<Rightarrow> string \<Rightarrow> Run" where
  "round_trip_run n i = \<lparr>run_ID = i, run_Namespace = n, run_Workflow = \<lparr>wid_Namespace = n, wid_Name = ''w'', wid_Version = 1\<rparr>,
     run_State = StatePending,
     run_Input = \<lparr>ri_Workflow = \<lparr>wid_Namespace = n, wid_Name = ''w'', wid_Version = 1\<rparr>, ri_Payload = None,
       ri_Labels = None, ri_ParentRunID = ''''\<rparr>,
     run_Steps = [], run_Attempt = 1, run_CreatedAt = 0, run_StartedAt = None, run_FinishedAt = None,
     run_Error = '''', run_Labels = None, run_ParentRunID = ''''\<rparr>"

theorem CreateRun_round_trip_witness:
  "\<exists>s'. run_state.create_all [round_trip_run ''a'' ''1'', round_trip_run ''b'' ''1''] Store_New = Inr s'
    \<and> (\<forall>r \<in> set [round_trip_run ''a'' ''1'', round_trip_run ''b'' ''1''].
          GetRun (run_Namespace r) (run_ID r) s' = Inr r)
    \<and> (\<forall>n i. no_slash n \<and> (n, i) \<notin> (\<lambda>r. (run_Namespace r, run_ID r)) `
          set [round_trip_run ''a'' ''1'', round_trip_run ''b'' ''1''] \<longrightarrow> GetRun n i s' = GetRun n i Store_New)"
  by (rule CreateRun_round_trip)
    (simp_all add: round_trip_run_def no_slash_def GetRun_def Store_New_def)

section \<open>The invariant of the store\<close>

text \<open>
  Every entry is filed under the key its value determines, the maps are finite, and the hash index
  of the tokens only holds tokens that are in the token table.
\<close>

definition filed :: "('v \<Rightarrow> string) \<Rightarrow> (string \<rightharpoonup> 'v) \<Rightarrow> bool" where
  "filed key m \<longleftrightarrow> finite (dom m) \<and> (\<forall>k v. m k = Some v \<longrightarrow> k = key v)"

definition hash_index_ok :: "(string \<rightharpoonup> APIToken) \<Rightarrow> (string \<rightharpoonup> APIToken) \<Rightarrow> bool" where
  "hash_index_ok tokens index \<longleftrightarrow> (\<forall>h t. index h = Some t \<longrightarrow>
     tok_TokenHash t = h \<and> h \<noteq> [] \<and> tokens (defKey (tok_Namespace t) (tok_ID t) 0) = Some t)"

definition store_inv :: "Store \<Rightarrow> bool" where
  "store_inv s \<longleftrightarrow>
     filed (\<lambda>d. id_key (wd_ID d)) (st_definitions s) \<and>
     filed (\<lambda>r. runKey (run_Namespace r) (run_ID r)) (st_runs s) \<and>
     filed (\<lambda>i. queueKey (qi_Namespace i) (qi_RunID i) (qi_StepID i)) (st_queue s) \<and>
     filed (\<lambda>e. defKey (we_Namespace e) (we_ID e) 0) (st_webhooks s) \<and>
     filed (\<lambda>d. defKey (dl_Namespace d) (dl_ID d) 0) (st_deliveries s) \<and>
     filed (\<lambda>t. defKey (tok_Namespace t) (tok_ID t) 0) (st_tokens s) \<and>
     hash_index_ok (st_tokens s) (st_tokenHash s)"

named_theorems filed_intros

lemma filed_empty [filed_intros]: "filed key Map.empty"
  by (simp add: filed_def)

lemma filed_insert [filed_intros]: "filed key m \<Longrightarrow> k = key v \<Longrightarrow> filed key (m(k \<mapsto> v))"
  by (simp add: filed_def)

lemma filed_change: "filed key m \<Longrightarrow> m k = Some v \<Longrightarrow> key v' = key v \<Longrightarrow> filed key (m(k \<mapsto> v'))"
  by (simp add: filed_def)

lemma filed_delete [filed_intros]: "filed key m \<Longrightarrow> filed key (m(k := None))"
  by (simp add: filed_def)

lemma filed_mono: "filed key m \<Longrightarrow> (\<And>k v. m' k = Some v \<Longrightarrow> \<exists>u. m k = Some u \<and> key u = key v) \<Longrightarrow> filed key m'"
  unfolding filed_def by (metis (mono_tags, lifting) domIff finite_subset not_None_eq subsetI)

lemma store_inv_parts:
  assumes "store_inv s"
  shows "filed (\<lambda>d. id_key (wd_ID d)) (st_definitions s)"
    "filed (\<lambda>r. runKey (run_Namespace r) (run_ID r)) (st_runs s)"
    "filed (\<lambda>i. queueKey (qi_Namespace i) (qi_RunID i) (qi_StepID i)) (st_queue s)"
    "hash_index_ok (st_tokens s) (st_tokenHash s)"
  using assms by (simp_all add: store_inv_def)

text \<open>One call of an operation that changes the store; the reading operations leave it as it is.\<close>

inductive store_step :: "Store \<Rightarrow> Store \<Rightarrow> bool" where
  "CreateDefinition d s = Inr s' \<Longrightarrow> store_step s s'"
| "DeleteDefinition wid s = Inr s' \<Longrightarrow> store_step s s'"
| "CreateRun r s = Inr s' \<Longrightarrow> store_step s s'"
| "UpdateRunState n i to at s = Inr s' \<Longrightarrow> store_step s s'"
| "UpdateRunError n i msg s = Inr s' \<Longrightarrow> store_step s s'"
| "UpdateStepState n i step s = Inr s' \<Longrightarrow> store_step s s'"
| "s' = Enqueue item s \<Longrightarrow> store_step s s'"
| "enumerates ks (st_queue s) \<Longrightarrow> Dequeue ks tokens n limit now s = (s', ls) \<Longrightarrow> store_step s s'"
| "enumerates ks (st_queue s) \<Longrightarrow> DequeueAny ks tokens limit now s = (s', ls) \<Longrightarrow> store_step s s'"
| "CompleteStep n i x tok s = Inr s' \<Longrightarrow> store_step s s'"
| "ReleaseStep now n i x s = Inr s' \<Longrightarrow> store_step s s'"
| "RequeueWithDelay n i x at a s = Inr s' \<Longrightarrow> store_step s s'"
| "s' = AppendEvent e s \<Longrightarrow> store_step s s'"
| "CreateWebhookEndpoint w s = Inr s' \<Longrightarrow> store_step s s'"
| "UpdateWebhookEndpoint w s = Inr s' \<Longrightarrow> store_step s s'"
| "DeleteWebhookEndpoint n i s = Inr s' \<Longrightarrow> store_step s s'"
| "CreateDelivery dl s = Inr s' \<Longrightarrow> store_step s s'"
| "UpdateDelivery dl s = Inr s' \<Longrightarrow> store_step s s'"
| "CreateToken t s = Inr s' \<Longrightarrow> store_step s s'"
| "DeleteToken n i s = Inr s' \<Longrightarrow> store_step s s'"
| "enumerates rks (st_runs s) \<Longrightarrow> enumerates qks (st_queue s) \<Longrightarrow> DeleteRuns rks qks ids s = (s', m) \<Longrightarrow> store_step s s'"
| "enumerates rks (st_runs s) \<Longrightarrow> enumerates qks (st_queue s) \<Longrightarrow> CompactRuns rks qks at limit s = (s', m) \<Longrightarrow> store_step s s'"

inductive store_reachable :: "Store \<Rightarrow> bool" where
  init: "store_reachable Store_New"
| step: "store_reachable s \<Longrightarrow> store_step s s' \<Longrightarrow> store_reachable s'"

subsection \<open>Dequeue\<close>

text \<open>
  The keys that the loop leases: the visible ones in the order of iteration, cut at the limit.
\<close>

definition leased_keys :: "(QueueItem \<Rightarrow> bool) \<Rightarrow> int \<Rightarrow> nat \<Rightarrow> string list \<Rightarrow> (string \<rightharpoonup> QueueItem) \<Rightarrow> string list" where
  "leased_keys p limit n ks queue =
     (let vis = filter (\<lambda>k. \<exists>item. queue k = Some item \<and> p item) ks
      in if limit > 0 then take (nat limit - n) vis else vis)"

definition lease_all :: "gotime \<Rightarrow> string list \<Rightarrow> (string \<rightharpoonup> QueueItem) \<Rightarrow> (string \<rightharpoonup> QueueItem)" where
  "lease_all now ks queue = (\<lambda>k. if k \<in> set ks then map_option (lease_item now) (queue k) else queue k)"

lemma leased_keys_upd: "k \<notin> set ks \<Longrightarrow> leased_keys p limit n ks (queue(k \<mapsto> item)) = leased_keys p limit n ks queue"
proof -
  assume "k \<notin> set ks"
  then have "filter (\<lambda>j. \<exists>i. (queue(k \<mapsto> item)) j = Some i \<and> p i) ks = filter (\<lambda>j. \<exists>i. queue j = Some i \<and> p i) ks"
    by (intro filter_cong) auto
  then show ?thesis by (simp only: leased_keys_def)
qed

lemma set_leased_keys: "set (leased_keys p limit n ks queue) \<subseteq> {k \<in> set ks. \<exists>item. queue k = Some item \<and> p item}"
  by (auto simp: leased_keys_def Let_def dest: in_set_takeD)

lemma leased_keys_Cons:
  assumes "queue k = Some item" "p item" "limit > 0 \<longrightarrow> int n < limit"
  shows "leased_keys p limit n (k # ks) queue =
    k # (if limit > 0 \<and> int (n + 1) \<ge> limit then [] else leased_keys p limit (n + 1) ks queue)"
proof (cases "limit > 0")
  case True
  then have "nat limit - n = Suc (nat limit - (n + 1))" using assms(3) by linarith
  then show ?thesis using assms True by (auto simp: leased_keys_def Let_def)
next
  case False
  then show ?thesis using assms by (simp add: leased_keys_def Let_def)
qed

lemma dequeue_loop_eq:
  assumes "distinct ks" "limit > 0 \<longrightarrow> int (length out) < limit"
  shows "dequeue_loop p limit now tokens ks queue out =
    (let sel = leased_keys p limit (length out) ks queue
     in (lease_all now sel queue,
         out @ map2 (\<lambda>i k. \<lparr>ql_Item = lease_item now (the (queue k)), ql_Token = tokens i\<rparr>)
                 [length out ..< length out + length sel] sel))"
  using assms
proof (induction ks arbitrary: queue out)
  case Nil
  then show ?case by (simp add: leased_keys_def lease_all_def)
next
  case (Cons k ks)
  consider (skip) "\<not> (\<exists>item. queue k = Some item \<and> p item)" | (lease) item where "queue k = Some item" "p item"
    by blast
  then show ?case
  proof cases
    case skip
    then have "leased_keys p limit n (k # ks) queue = leased_keys p limit n ks queue" for n
      by (auto simp: leased_keys_def)
    then show ?thesis using Cons skip by (auto split: option.splits)
  next
    case lease
    let ?q = "queue(k \<mapsto> lease_item now item)"
    let ?l = "\<lparr>ql_Item = lease_item now item, ql_Token = tokens (length out)\<rparr>"
    have k: "k \<notin> set ks" using Cons.prems by simp
    show ?thesis
    proof (cases "limit > 0 \<and> int (length out + 1) \<ge> limit")
      case True
      then show ?thesis using lease Cons.prems leased_keys_Cons[where queue = queue and k = k and item = item and p = p, OF lease Cons.prems(2), of ks]
        by (auto simp: Let_def lease_all_def)
    next
      case False
      then have "limit > 0 \<longrightarrow> int (length (out @ [?l])) < limit" by auto
      note IH = Cons.IH[OF _ this, of ?q]
      define sel where "sel = leased_keys p limit (length out + 1) ks queue"
      have "set sel \<subseteq> set ks" using set_leased_keys[of p limit "length out + 1" ks queue] by (auto simp: sel_def)
      then have notin: "k \<notin> set sel" using k by blast
      have sel: "leased_keys p limit (length out) (k # ks) queue = k # sel"
        using False leased_keys_Cons[where queue = queue and k = k and item = item and p = p, OF lease Cons.prems(2), of ks] by (auto simp: sel_def)
      have selq: "leased_keys p limit (length out + 1) ks ?q = sel" by (simp add: leased_keys_upd[OF k] sel_def)
      have up: "[length out ..< length out + length (k # sel)] = length out # [length out + 1 ..< length out + 1 + length sel]"
        by (simp add: upt_conv_Cons del: upt_Suc)
      have len: "length (out @ [?l]) = length out + 1" and dist: "distinct ks" using Cons.prems(1) by simp_all
      have "dequeue_loop p limit now tokens (k # ks) queue out = dequeue_loop p limit now tokens ks ?q (out @ [?l])"
        using lease False by (auto simp: Let_def)
      also have "\<dots> = (lease_all now sel ?q, (out @ [?l]) @
           map2 (\<lambda>i k. \<lparr>ql_Item = lease_item now (the (?q k)), ql_Token = tokens i\<rparr>)
                [length out + 1 ..< length out + 1 + length sel] sel)"
        using IH dist by (simp only: len selq Let_def)
      also have "lease_all now sel ?q = lease_all now (k # sel) queue"
        using lease notin by (auto simp: lease_all_def)
      also have "map2 (\<lambda>i k. \<lparr>ql_Item = lease_item now (the (?q k)), ql_Token = tokens i\<rparr>)
                [length out + 1 ..< length out + 1 + length sel] sel
           = map2 (\<lambda>i k. \<lparr>ql_Item = lease_item now (the (queue k)), ql_Token = tokens i\<rparr>)
                [length out + 1 ..< length out + 1 + length sel] sel"
        using notin by (auto simp: in_set_zip dest: nth_mem)
      finally show ?thesis unfolding sel Let_def up using lease by (simp del: upt_Suc dequeue_loop.simps)
    qed
  qed
qed

lemma Dequeue_queue:
  assumes "distinct ks" "Dequeue ks tokens n limit now s = (s', ls)"
  shows "\<exists>sel. s' = s\<lparr>st_queue := lease_all now sel (st_queue s)\<rparr>"
  using assms dequeue_loop_eq[of ks limit "[]"] by (auto simp: Dequeue_def Let_def)

lemma DequeueAny_queue:
  assumes "distinct ks" "DequeueAny ks tokens limit now s = (s', ls)"
  shows "\<exists>sel. s' = s\<lparr>st_queue := lease_all now sel (st_queue s)\<rparr>"
  using assms dequeue_loop_eq[of ks limit "[]"] by (auto simp: DequeueAny_def Let_def)

subsection \<open>Deletion of runs\<close>

lemma delete_runs_of_eq:
  assumes "distinct ks"
  shows "delete_runs_of rid ks (runs, n) =
    (\<lambda>k. if k \<in> set ks \<and> (\<exists>r. runs k = Some r \<and> run_ID r = rid) then None else runs k,
     n + int (card {k \<in> set ks. \<exists>r. runs k = Some r \<and> run_ID r = rid}))"
  using assms
proof (induction ks arbitrary: runs n)
  case Nil
  then show ?case by simp
next
  case (Cons k ks)
  show ?case
  proof (cases "\<exists>r. runs k = Some r \<and> run_ID r = rid")
    case True
    then obtain r where r: "runs k = Some r" "run_ID r = rid" by blast
    have "{j \<in> set (k # ks). \<exists>r. runs j = Some r \<and> run_ID r = rid} =
          insert k {j \<in> set ks. \<exists>r. runs j = Some r \<and> run_ID r = rid}" using r by auto
    then have card: "card {j \<in> set (k # ks). \<exists>r. runs j = Some r \<and> run_ID r = rid} =
        Suc (card {j \<in> set ks. \<exists>r. runs j = Some r \<and> run_ID r = rid})"
      using Cons.prems by simp
    have same: "{j \<in> set ks. \<exists>r. (runs(k := None)) j = Some r \<and> run_ID r = rid} =
          {j \<in> set ks. \<exists>r. runs j = Some r \<and> run_ID r = rid}" using Cons.prems by auto
    have "delete_runs_of rid (k # ks) (runs, n) = delete_runs_of rid ks (runs(k := None), n + 1)"
      using r by simp
    also have "\<dots> = (\<lambda>j. if j \<in> set ks \<and> (\<exists>r. (runs(k := None)) j = Some r \<and> run_ID r = rid) then None else (runs(k := None)) j,
        n + 1 + int (card {j \<in> set ks. \<exists>r. runs j = Some r \<and> run_ID r = rid}))"
      using Cons.IH[of "runs(k := None)" "n + 1"] Cons.prems by (simp only: same distinct.simps simp_thms)
    also have "(\<lambda>j. if j \<in> set ks \<and> (\<exists>r. (runs(k := None)) j = Some r \<and> run_ID r = rid) then None else (runs(k := None)) j) =
        (\<lambda>j. if j \<in> set (k # ks) \<and> (\<exists>r. runs j = Some r \<and> run_ID r = rid) then None else runs j)"
      using r by (intro ext) auto
    finally show ?thesis unfolding card by simp
  next
    case False
    then have "{j \<in> set (k # ks). \<exists>r. runs j = Some r \<and> run_ID r = rid} =
          {j \<in> set ks. \<exists>r. runs j = Some r \<and> run_ID r = rid}" by auto
    moreover have "delete_runs_of rid (k # ks) (runs, n) = delete_runs_of rid ks (runs, n)"
      using False by (auto split: option.splits)
    moreover have "(\<lambda>j. if j \<in> set (k # ks) \<and> (\<exists>r. runs j = Some r \<and> run_ID r = rid) then None else runs j) =
        (\<lambda>j. if j \<in> set ks \<and> (\<exists>r. runs j = Some r \<and> run_ID r = rid) then None else runs j)"
      using False by (intro ext) auto
    ultimately show ?thesis using Cons.IH[of runs n] Cons.prems by (simp only: distinct.simps simp_thms)
  qed
qed

lemma delete_queue_of_eq:
  "delete_queue_of rid ks queue =
    (\<lambda>k. if k \<in> set ks \<and> Contains k (''/'' @ rid @ ''/'') then None else queue k)"
  by (induction ks arbitrary: queue) auto

definition without_runs :: "string set \<Rightarrow> (string \<rightharpoonup> Run) \<Rightarrow> (string \<rightharpoonup> Run)" where
  "without_runs ids runs = (\<lambda>k. case runs k of Some r \<Rightarrow> if run_ID r \<in> ids then None else Some r | None \<Rightarrow> None)"

definition without_items :: "string set \<Rightarrow> (string \<rightharpoonup> QueueItem) \<Rightarrow> (string \<rightharpoonup> QueueItem)" where
  "without_items ids queue = (\<lambda>k. if \<exists>i \<in> ids. Contains k (''/'' @ i @ ''/'') then None else queue k)"

lemma delete_runs_of_without:
  assumes "distinct ks" "dom runs \<subseteq> set ks"
  shows "fst (delete_runs_of rid ks (runs, n)) = without_runs {rid} runs"
proof (rule ext)
  fix k show "fst (delete_runs_of rid ks (runs, n)) k = without_runs {rid} runs k"
    using assms by (cases "runs k") (auto simp: delete_runs_of_eq without_runs_def dom_def)
qed

lemma delete_queue_of_without:
  "dom queue \<subseteq> set ks \<Longrightarrow> delete_queue_of rid ks queue = without_items {rid} queue"
  by (rule ext) (auto simp: delete_queue_of_eq without_items_def dom_def)

lemma without_runs_un: "without_runs B (without_runs A runs) = without_runs (A \<union> B) runs"
  by (rule ext) (simp add: without_runs_def split: option.splits)

lemma without_items_un: "without_items B (without_items A queue) = without_items (A \<union> B) queue"
  by (rule ext) (auto simp: without_items_def)

lemma dom_without: "dom (without_runs A runs) \<subseteq> dom runs" "dom (without_items A queue) \<subseteq> dom queue"
  by (auto simp: without_runs_def without_items_def split: option.splits if_splits)

lemma delete_runs_of_count:
  assumes "distinct ks" "dom runs \<subseteq> set ks"
  shows "snd (delete_runs_of rid ks (runs, n)) = n + int (card (dom runs)) - int (card (dom (without_runs {rid} runs)))"
proof -
  let ?R = "{k \<in> set ks. \<exists>r. runs k = Some r \<and> run_ID r = rid}"
  have fin: "finite (dom runs)" using assms(2) finite_subset by blast
  have sub: "?R \<subseteq> dom runs" by auto
  have "dom (without_runs {rid} runs) = dom runs - ?R"
    using assms(2) by (auto simp: without_runs_def split: option.splits if_splits)
  then have "int (card (dom (without_runs {rid} runs))) = int (card (dom runs)) - int (card ?R)"
    using fin sub card_mono[OF fin sub] by (simp add: card_Diff_subset finite_subset of_nat_diff)
  then show ?thesis using assms(1) by (simp add: delete_runs_of_eq)
qed

lemma DeleteRuns_eq:
  assumes "enumerates rks (st_runs s)" "enumerates qks (st_queue s)" "DeleteRuns rks qks ids s = (s', m)"
  shows "s' = s\<lparr>st_runs := without_runs (set ids) (st_runs s), st_queue := without_items (set ids) (st_queue s)\<rparr>
    \<and> m = int (card (dom (st_runs s))) - int (card (dom (st_runs s')))"
proof -
  define F where "F = (\<lambda>i (runs, queue, deleted).
      (case delete_runs_of i rks (runs, deleted) of (runs', deleted' :: int) \<Rightarrow>
         (runs', delete_queue_of i qks queue, deleted')))"
  have F: "fold F ids (runs, queue, n) =
      (without_runs (set ids) runs, without_items (set ids) queue,
       n + int (card (dom runs)) - int (card (dom (without_runs (set ids) runs))))"
    if "dom runs \<subseteq> set rks" "dom queue \<subseteq> set qks" for runs queue n
    using that
  proof (induction ids arbitrary: runs queue n)
    case Nil
    have "without_runs {} runs = runs" by (rule ext) (simp add: without_runs_def split: option.splits)
    then show ?case by (simp add: without_items_def)
  next
    case (Cons i ids)
    have d: "distinct rks" using assms(1) by (simp add: enumerates_def)
    have "F i (runs, queue, n) = (without_runs {i} runs, without_items {i} queue,
        n + int (card (dom runs)) - int (card (dom (without_runs {i} runs))))"
      using Cons.prems delete_runs_of_without[OF d Cons.prems(1), of i n] delete_runs_of_count[OF d Cons.prems(1), of i n]
      by (auto simp: F_def delete_queue_of_without split: prod.splits)
    then show ?case
      using Cons.IH[of "without_runs {i} runs" "without_items {i} queue"] Cons.prems
        dom_without(1)[of "{i}" runs] dom_without(2)[of "{i}" queue]
      by (simp add: without_runs_un without_items_un)
  qed
  have "DeleteRuns rks qks ids s = (case fold F ids (st_runs s, st_queue s, 0) of
        (runs, queue, deleted) \<Rightarrow> (s\<lparr>st_runs := runs, st_queue := queue\<rparr>, deleted))"
    by (simp only: DeleteRuns_def F_def)
  also have "fold F ids (st_runs s, st_queue s, 0) =
      (without_runs (set ids) (st_runs s), without_items (set ids) (st_queue s),
       0 + int (card (dom (st_runs s))) - int (card (dom (without_runs (set ids) (st_runs s)))))"
    using assms(1,2) by (intro F) (auto simp: enumerates_def)
  finally show ?thesis using assms(3) by auto
qed

subsection \<open>Preservation\<close>

lemma set_run_state_id [simp]:
  "run_Namespace (set_run_state to at r) = run_Namespace r" "run_ID (set_run_state to at r) = run_ID r"
  "run_Steps (set_run_state to at r) = run_Steps r" "run_Workflow (set_run_state to at r) = run_Workflow r"
  "run_State (set_run_state to at r) = to" "run_Error (set_run_state to at r) = run_Error r"
  by (simp_all add: set_run_state_def Let_def)

lemma lease_item_id [simp]:
  "qi_Namespace (lease_item now i) = qi_Namespace i" "qi_RunID (lease_item now i) = qi_RunID i"
  "qi_StepID (lease_item now i) = qi_StepID i" "qi_VisibleAt (lease_item now i) = now + 30 * Second"
  "qi_Attempt (lease_item now i) = qi_Attempt i + 1"
  by (simp_all add: lease_item_def)

lemma filed_lease_all: "filed (\<lambda>i. queueKey (qi_Namespace i) (qi_RunID i) (qi_StepID i)) queue \<Longrightarrow>
    filed (\<lambda>i. queueKey (qi_Namespace i) (qi_RunID i) (qi_StepID i)) (lease_all now sel queue)"
  by (erule filed_mono) (auto simp: lease_all_def split: if_splits)

lemma filed_without: "filed key runs \<Longrightarrow> filed key (without_runs A runs)"
    "filed key' queue \<Longrightarrow> filed key' (without_items A queue)"
  by (erule filed_mono, auto simp: without_runs_def without_items_def split: option.splits if_splits)+

lemma hash_index_insert:
  assumes "hash_index_ok tokens index" "tokens (defKey (tok_Namespace t) (tok_ID t) 0) = None"
  shows "hash_index_ok (tokens(defKey (tok_Namespace t) (tok_ID t) 0 \<mapsto> t))
    (if tok_TokenHash t \<noteq> [] then index(tok_TokenHash t \<mapsto> t) else index)"
  using assms unfolding hash_index_ok_def by (auto, metis option.distinct(1), metis option.distinct(1))

lemma hash_index_delete:
  assumes "hash_index_ok tokens index" "tokens k = Some t"
  shows "hash_index_ok (tokens(k := None)) (if tok_TokenHash t \<noteq> [] then index(tok_TokenHash t := None) else index)"
  using assms by (auto simp: hash_index_ok_def)

lemma CreateToken_put: "CreateToken t s = Inr s' \<Longrightarrow>
    st_tokens s (defKey (tok_Namespace t) (tok_ID t) 0) = None \<and>
    s' = s\<lparr>st_tokens := (st_tokens s)(defKey (tok_Namespace t) (tok_ID t) 0 \<mapsto> t),
           st_tokenHash := (if tok_TokenHash t \<noteq> [] then (st_tokenHash s)(tok_TokenHash t \<mapsto> t) else st_tokenHash s)\<rparr>"
  by (auto simp: CreateToken_def Let_def split: option.splits)

lemma DeleteToken_del: "DeleteToken n i s = Inr s' \<Longrightarrow>
    \<exists>t. st_tokens s (defKey n i 0) = Some t \<and>
    s' = s\<lparr>st_tokens := (st_tokens s)(defKey n i 0 := None),
           st_tokenHash := (if tok_TokenHash t \<noteq> [] then (st_tokenHash s)(tok_TokenHash t := None) else st_tokenHash s)\<rparr>"
  by (auto simp: DeleteToken_def Let_def split: option.splits)

lemma store_inv_step:
  assumes "store_step s s'" "store_inv s"
  shows "store_inv s'"
  using assms
proof (cases rule: store_step.cases)
  case (8 ks tokens n limit now ls)
  then obtain sel where "s' = s\<lparr>st_queue := lease_all now sel (st_queue s)\<rparr>"
    using Dequeue_queue by (metis enumerates_def)
  then show ?thesis using assms(2) by (simp add: store_inv_def filed_lease_all)
next
  case (9 ks tokens limit now ls)
  then obtain sel where "s' = s\<lparr>st_queue := lease_all now sel (st_queue s)\<rparr>"
    using DequeueAny_queue by (metis enumerates_def)
  then show ?thesis using assms(2) by (simp add: store_inv_def filed_lease_all)
next
  case (19 t)
  then show ?thesis
    using assms(2) CreateToken_put[of t s s'] hash_index_insert[of "st_tokens s" "st_tokenHash s" t]
    by (simp add: store_inv_def filed_intros)
next
  case (20 n i)
  then obtain t where "st_tokens s (defKey n i 0) = Some t"
    "s' = s\<lparr>st_tokens := (st_tokens s)(defKey n i 0 := None),
        st_tokenHash := (if tok_TokenHash t \<noteq> [] then (st_tokenHash s)(tok_TokenHash t := None) else st_tokenHash s)\<rparr>"
    using DeleteToken_del by blast
  then show ?thesis
    using assms(2) hash_index_delete[of "st_tokens s" "st_tokenHash s" "defKey n i 0" t]
    by (simp add: store_inv_def filed_intros)
next
  case (21 rks qks ids m)
  then show ?thesis using assms(2) DeleteRuns_eq[of rks s qks ids s' m] by (simp add: store_inv_def filed_without)
next
  case (22 rks qks at limit m)
  then show ?thesis using assms(2) DeleteRuns_eq[of rks s qks "map run_ID (ListExpiredRuns rks at limit s)" s' m]
    by (simp add: CompactRuns_def store_inv_def filed_without)
qed (auto simp: store_inv_def Let_def CreateDefinition_def DeleteDefinition_def CreateRun_def UpdateRunState_def
    UpdateRunError_def UpdateStepState_def Enqueue_def CompleteStep_def ReleaseStep_def RequeueWithDelay_def
    AppendEvent_def CreateWebhookEndpoint_def UpdateWebhookEndpoint_def DeleteWebhookEndpoint_def
    CreateDelivery_def UpdateDelivery_def split: option.splits intro: filed_intros, (erule (1) filed_change, simp)+)

lemma store_inv_reachable: "store_reachable s \<Longrightarrow> store_inv s"
proof (induction rule: store_reachable.induct)
  case init
  then show ?case by (simp add: store_inv_def Store_New_def hash_index_ok_def filed_intros)
qed (rule store_inv_step)

section \<open>What the store guarantees\<close>

subsection \<open>Tokens\<close>

text \<open>
  (C12) In every store that calls can produce, a token found by its hash has that hash and is the
  token the table holds under its own name; so once \<open>DeleteToken\<close> has removed a token, no hash leads
  to it any more.
\<close>

theorem deleted_token_not_found_by_hash:
  assumes "store_reachable s"
  shows "(\<forall>h t. LookupTokenByHash h s = Inr t \<longrightarrow>
            tok_TokenHash t = h \<and> GetToken (tok_Namespace t) (tok_ID t) s = Inr t)
    \<and> (\<forall>n i s' h t. DeleteToken n i s = Inr s' \<and> LookupTokenByHash h s' = Inr t \<longrightarrow>
            (tok_Namespace t, tok_ID t) \<noteq> (n, i))"
proof -
  have found: "tok_TokenHash t = h \<and> GetToken (tok_Namespace t) (tok_ID t) s = Inr t"
    if "store_reachable s" "LookupTokenByHash h s = Inr t" for s h t
    using store_inv_parts(4)[OF store_inv_reachable[OF that(1)]] that(2)
    by (auto simp: hash_index_ok_def LookupTokenByHash_def GetToken_def split: option.splits)
  have "store_reachable s'" if "DeleteToken n i s = Inr s'" for n i s'
    using assms that by (auto intro: store_reachable.intros store_step.intros)
  moreover have "GetToken n i s' = Inl notFound" if "DeleteToken n i s = Inr s'" for n i s'
    using DeleteToken_del[OF that] by (auto simp: GetToken_def)
  ultimately show ?thesis using found assms by (metis Inl_Inr_False prod.inject)
qed

theorem deleted_token_not_found_by_hash_witness:
  "\<exists>s s'. store_reachable s \<and> DeleteToken ''n'' ''t'' s = Inr s'
    \<and> LookupTokenByHash ''h'' s = Inr \<lparr>tok_ID = ''t'', tok_Namespace = ''n'', tok_Role = ''admin'', tok_Label = '''',
         tok_CreatedAt = 0, tok_ExpiresAt = None, tok_TokenHash = ''h''\<rparr>
    \<and> (\<forall>h t. LookupTokenByHash h s' = Inr t \<longrightarrow> (tok_Namespace t, tok_ID t) \<noteq> (''n'', ''t''))"
proof -
  let ?t = "\<lparr>tok_ID = ''t'', tok_Namespace = ''n'', tok_Role = ''admin'', tok_Label = '''',
         tok_CreatedAt = 0, tok_ExpiresAt = None, tok_TokenHash = ''h''\<rparr>"
  obtain s where s: "CreateToken ?t Store_New = Inr s" "LookupTokenByHash ''h'' s = Inr ?t"
    and del: "\<exists>s'. DeleteToken ''n'' ''t'' s = Inr s'"
    by (simp add: CreateToken_def Store_New_def LookupTokenByHash_def DeleteToken_def Let_def)
  then have "store_reachable s" by (auto intro: store_reachable.intros store_step.intros)
  then show ?thesis using deleted_token_not_found_by_hash[of s] s del by blast
qed

subsection \<open>Leases\<close>

definition lease_key :: "QueueLease \<Rightarrow> string" where
  "lease_key l = queueKey (qi_Namespace (ql_Item l)) (qi_RunID (ql_Item l)) (qi_StepID (ql_Item l))"

lemma DequeueAny_leases:
  assumes "store_inv s" "distinct ks" "DequeueAny ks tokens limit now s = (s', ls)"
  defines "sel \<equiv> leased_keys (\<lambda>item. qi_VisibleAt item < now) limit 0 ks (st_queue s)"
  shows "map lease_key ls = sel" "s' = s\<lparr>st_queue := lease_all now sel (st_queue s)\<rparr>"
    "map ql_Item ls = map (\<lambda>k. lease_item now (the (st_queue s k))) sel"
proof -
  have eq: "dequeue_loop (\<lambda>item. qi_VisibleAt item < now) limit now tokens ks (st_queue s) [] =
      (lease_all now sel (st_queue s),
       map2 (\<lambda>i k. \<lparr>ql_Item = lease_item now (the (st_queue s k)), ql_Token = tokens i\<rparr>) [0 ..< length sel] sel)"
    using dequeue_loop_eq[OF assms(2), of limit "[]"] by (simp add: Let_def sel_def)
  then have s': "s' = s\<lparr>st_queue := lease_all now sel (st_queue s)\<rparr>"
    and ls: "ls = map2 (\<lambda>i k. \<lparr>ql_Item = lease_item now (the (st_queue s k)), ql_Token = tokens i\<rparr>) [0 ..< length sel] sel"
    using assms(3) by (simp_all add: DequeueAny_def)
  show "s' = s\<lparr>st_queue := lease_all now sel (st_queue s)\<rparr>" by (rule s')
  show items: "map ql_Item ls = map (\<lambda>k. lease_item now (the (st_queue s k))) sel"
    unfolding ls by (rule nth_equalityI) simp_all
  have key: "queueKey (qi_Namespace i) (qi_RunID i) (qi_StepID i) = k" if "k \<in> set sel" "i = the (st_queue s k)" for k i
    using that set_leased_keys[of "\<lambda>item. qi_VisibleAt item < now" limit 0 ks "st_queue s"]
      store_inv_parts(3)[OF assms(1)] unfolding sel_def filed_def by fastforce
  have "map lease_key ls = map (\<lambda>i. queueKey (qi_Namespace i) (qi_RunID i) (qi_StepID i)) (map ql_Item ls)"
    by (simp add: lease_key_def)
  also have "\<dots> = sel" unfolding items by (simp add: key map_idI)
  finally show "map lease_key ls = sel" .
qed

lemma leased_keys_complete:
  assumes "limit \<le> 0 \<or> int (length (leased_keys p limit 0 ks queue)) < limit"
  shows "set (leased_keys p limit 0 ks queue) = {k \<in> set ks. \<exists>item. queue k = Some item \<and> p item}"
  using assms by (auto simp: leased_keys_def Let_def split: if_splits)

lemma DequeueAny_sel:
  assumes "store_inv s" "enumerates ks (st_queue s)" "DequeueAny ks tokens limit now s = (s', ls)"
  shows "distinct (map lease_key ls)"
    "limit > 0 \<Longrightarrow> int (length ls) \<le> limit"
    "l \<in> set ls \<Longrightarrow> \<exists>item. st_queue s (lease_key l) = Some item \<and> qi_VisibleAt item < now \<and>
       ql_Item l = lease_item now item \<and> st_queue s' (lease_key l) = Some (ql_Item l)"
    "k \<notin> lease_key ` set ls \<Longrightarrow> st_queue s' k = st_queue s k"
    "limit \<le> 0 \<or> int (length ls) < limit \<Longrightarrow> st_queue s k = Some item \<Longrightarrow> qi_VisibleAt item < now \<Longrightarrow>
       k \<in> lease_key ` set ls"
proof -
  let ?sel = "leased_keys (\<lambda>item. qi_VisibleAt item < now) limit 0 ks (st_queue s)"
  have d: "distinct ks" using assms(2) by (simp add: enumerates_def)
  note L = DequeueAny_leases[OF assms(1) d assms(3)]
  have len: "length ls = length ?sel" using L(1) by (metis length_map)
  have keys: "lease_key ` set ls = set ?sel" using L(1) by (metis set_map)
  show "distinct (map lease_key ls)" unfolding L(1) using d by (simp add: leased_keys_def Let_def)
  show "int (length ls) \<le> limit" if "limit > 0" using that unfolding len by (simp add: leased_keys_def Let_def)
  show "st_queue s' k = st_queue s k" if "k \<notin> lease_key ` set ls"
    using that unfolding keys L(2) by (simp add: lease_all_def)
  show "k \<in> lease_key ` set ls"
    if "limit \<le> 0 \<or> int (length ls) < limit" "st_queue s k = Some item" "qi_VisibleAt item < now"
  proof -
    have "k \<in> set ks" using that(2) assms(2) by (auto simp: enumerates_def)
    then show ?thesis using that leased_keys_complete[of limit _ ks "st_queue s"] unfolding keys len by auto
  qed
  show "\<exists>item. st_queue s (lease_key l) = Some item \<and> qi_VisibleAt item < now \<and>
       ql_Item l = lease_item now item \<and> st_queue s' (lease_key l) = Some (ql_Item l)" if mem: "l \<in> set ls"
  proof -
    obtain i where i: "i < length ls" "l = ls ! i" using mem by (auto simp: in_set_conv_nth)
    then have k: "lease_key l = ?sel ! i" and it: "ql_Item l = lease_item now (the (st_queue s (?sel ! i)))"
      using L(1,3) len by (metis nth_map)+
    have "?sel ! i \<in> set ?sel" using i len by simp
    then obtain item where "st_queue s (?sel ! i) = Some item" "qi_VisibleAt item < now"
      using set_leased_keys[of "\<lambda>item. qi_VisibleAt item < now" limit 0 ks "st_queue s"] by blast
    then show ?thesis using k it \<open>?sel ! i \<in> set ?sel\<close> by (simp add: L(2) lease_all_def)
  qed
qed

text \<open>
  (C11) \<open>DequeueAny\<close> on a reachable store leases distinct items, at most \<open>limit\<close> of them when \<open>limit\<close> is
  positive, only visible ones, and all visible ones if the limit is not reached; a leased item has its
  attempt counted and is hidden for thirty seconds, the others are untouched. No other \<open>DequeueAny\<close>
  that follows within those thirty seconds leases any of them again.
\<close>

theorem DequeueAny_exclusive:
  assumes "store_reachable s" "enumerates ks (st_queue s)" "DequeueAny ks tokens limit now s = (s', ls)"
  shows "distinct (map lease_key ls) \<and> (limit > 0 \<longrightarrow> int (length ls) \<le> limit)
    \<and> (\<forall>l \<in> set ls. \<exists>item. st_queue s (lease_key l) = Some item \<and> qi_VisibleAt item < now \<and>
          ql_Item l = lease_item now item \<and> st_queue s' (lease_key l) = Some (ql_Item l))
    \<and> (\<forall>k. k \<notin> lease_key ` set ls \<longrightarrow> st_queue s' k = st_queue s k)
    \<and> (limit \<le> 0 \<or> int (length ls) < limit \<longrightarrow>
          (\<forall>k item. st_queue s k = Some item \<and> qi_VisibleAt item < now \<longrightarrow> k \<in> lease_key ` set ls))
    \<and> (\<forall>ks' tokens' limit' now' s'' ls'. now' \<le> now + 30 * Second \<and> enumerates ks' (st_queue s') \<and>
          DequeueAny ks' tokens' limit' now' s' = (s'', ls') \<longrightarrow> lease_key ` set ls \<inter> lease_key ` set ls' = {})"
proof -
  note D = DequeueAny_sel[OF store_inv_reachable[OF assms(1)] assms(2,3)]
  have "store_reachable s'" using assms by (auto intro: store_reachable.intros store_step.intros)
  then have r': "store_inv s'" by (rule store_inv_reachable)
  have "lease_key ` set ls \<inter> lease_key ` set ls' = {}"
    if "now' \<le> now + 30 * Second" "enumerates ks' (st_queue s')" "DequeueAny ks' tokens' limit' now' s' = (s'', ls')"
    for ks' tokens' limit' now' s'' ls'
  proof (rule ccontr)
    assume "lease_key ` set ls \<inter> lease_key ` set ls' \<noteq> {}"
    then obtain l l' where l: "l \<in> set ls" "l' \<in> set ls'" "lease_key l = lease_key l'" by auto
    with D(3)[of l] DequeueAny_sel(3)[OF r' that(2,3), of l'] that(1) show False by auto
  qed
  then show ?thesis using D by blast
qed

definition item_at :: "string \<Rightarrow> gotime \<Rightarrow> QueueItem" where
  "item_at step at = \<lparr>qi_RunID = ''r'', qi_Namespace = ''n'', qi_StepID = step, qi_EnqueuedAt = at, qi_VisibleAt = at, qi_Attempt = 1\<rparr>"

theorem DequeueAny_exclusive_witness:
  "\<exists>s s' l. store_reachable s \<and> DequeueAny [''n/r/a'', ''n/r/b''] (\<lambda>_. ''t'') 8 5 s = (s', [l])
     \<and> ql_Item l = (item_at ''a'' 4)\<lparr>qi_Attempt := 2, qi_VisibleAt := 5 + 30 * Second\<rparr>
     \<and> (\<forall>ks' tokens' limit' now' s'' ls'. now' \<le> 5 + 30 * Second \<and> enumerates ks' (st_queue s') \<and>
          DequeueAny ks' tokens' limit' now' s' = (s'', ls') \<longrightarrow> lease_key ` set [l] \<inter> lease_key ` set ls' = {})"
proof -
  define s where "s = Enqueue (item_at ''b'' 5) (Enqueue (item_at ''a'' 4) Store_New)"
  have r: "store_reachable s"
    unfolding s_def by (blast intro: store_reachable.intros store_step.intros)
  have q: "st_queue s = [''n/r/a'' \<mapsto> item_at ''a'' 4, ''n/r/b'' \<mapsto> item_at ''b'' 5]"
    by (simp add: s_def Enqueue_def Store_New_def item_at_def queueKey_def)
  then have e: "enumerates [''n/r/a'', ''n/r/b''] (st_queue s)" by (auto simp: enumerates_def)
  obtain s' l where d: "DequeueAny [''n/r/a'', ''n/r/b''] (\<lambda>_. ''t'') 8 5 s = (s', [l])"
    "ql_Item l = (item_at ''a'' 4)\<lparr>qi_Attempt := 2, qi_VisibleAt := 5 + 30 * Second\<rparr>"
    by (simp add: DequeueAny_def q item_at_def lease_item_def Let_def)
  show ?thesis using DequeueAny_exclusive[OF r e d(1)] r d by blast
qed

subsection \<open>The latest version of a definition\<close>

definition named :: "Namespace \<Rightarrow> string \<Rightarrow> WorkflowDefinition \<Rightarrow> bool" where
  "named namespace name d \<longleftrightarrow> wid_Namespace (wd_ID d) = namespace \<and> wid_Name (wd_ID d) = name"

lemma latest_definition_spec:
  "latest_definition ns nm ds latest = Some d \<Longrightarrow> (case latest of None \<Rightarrow> True | Some l \<Rightarrow> named ns nm l) \<Longrightarrow>
     named ns nm d \<and> (d \<in> set ds \<or> latest = Some d) \<and>
     (\<forall>d' \<in> set ds \<union> set_option latest. named ns nm d' \<longrightarrow> wid_Version (wd_ID d') \<le> wid_Version (wd_ID d))"
proof (induction ds arbitrary: latest)
  case (Cons x ds)
  show ?case
  proof (cases "named ns nm x")
    case True
    then show ?thesis using Cons.prems Cons.IH[of "Some x"] Cons.IH[of latest]
      by (cases latest) (auto simp: named_def split: if_splits)
  next
    case False
    then show ?thesis using Cons.prems Cons.IH[of latest] by (auto simp: named_def)
  qed
qed simp

lemma latest_definition_None:
  "latest_definition ns nm ds latest = None \<longleftrightarrow> latest = None \<and> (\<forall>d \<in> set ds. \<not> named ns nm d)"
  by (induction ds arbitrary: latest) (auto simp: named_def split: option.splits if_splits)

lemma store_inv_definition_unique:
  assumes "store_inv s" "d \<in> ran (st_definitions s)" "d' \<in> ran (st_definitions s)" "wd_ID d = wd_ID d'"
  shows "d = d'"
proof -
  obtain k k' where "st_definitions s k = Some d" "st_definitions s k' = Some d'" using assms by (auto simp: ran_def)
  moreover from this have "k = k'" using store_inv_parts(1)[OF assms(1)] assms(4) unfolding filed_def by metis
  ultimately show ?thesis by simp
qed

text \<open>
  (C13) On a reachable store, \<open>GetDefinitionByName\<close> returns the definition of that name with the
  highest version, whatever the order in which the map is iterated, and the not-found error exactly
  when there is none.
\<close>

theorem GetDefinitionByName_latest:
  assumes "store_reachable s" "enumerates ks (st_definitions s)"
  shows "(GetDefinitionByName ks ns nm s = Inr d \<longleftrightarrow>
      d \<in> ran (st_definitions s) \<and> named ns nm d \<and>
      (\<forall>d' \<in> ran (st_definitions s). named ns nm d' \<longrightarrow> wid_Version (wd_ID d') \<le> wid_Version (wd_ID d)))
    \<and> (GetDefinitionByName ks ns nm s = Inl notFound \<longleftrightarrow> (\<forall>d' \<in> ran (st_definitions s). \<not> named ns nm d'))"
proof -
  let ?l = "latest_definition ns nm (map_values ks (st_definitions s)) None"
  have ran: "set (map_values ks (st_definitions s)) = ran (st_definitions s)"
    using assms(2) by (rule set_map_values_enum)
  have none: "?l = None \<longleftrightarrow> (\<forall>d' \<in> ran (st_definitions s). \<not> named ns nm d')"
    by (simp add: latest_definition_None ran)
  have some: "named ns nm l \<and> l \<in> ran (st_definitions s) \<and>
      (\<forall>d' \<in> ran (st_definitions s). named ns nm d' \<longrightarrow> wid_Version (wd_ID d') \<le> wid_Version (wd_ID l))" if "?l = Some l" for l
    using latest_definition_spec[OF that] by (simp add: ran)
  have unique: "d1 = d2" if "d1 \<in> ran (st_definitions s)" "d2 \<in> ran (st_definitions s)"
    "named ns nm d1" "named ns nm d2" "wid_Version (wd_ID d1) = wid_Version (wd_ID d2)" for d1 d2
    using that store_inv_definition_unique[OF store_inv_reachable[OF assms(1)], of d1 d2] by (simp add: named_def)
  show ?thesis
  proof (cases ?l)
    case None
    then show ?thesis using none by (auto simp: GetDefinitionByName_def)
  next
    case (Some l)
    then have "GetDefinitionByName ks ns nm s = Inr l" by (simp add: GetDefinitionByName_def)
    moreover have "(l = d) \<longleftrightarrow> d \<in> ran (st_definitions s) \<and> named ns nm d \<and>
        (\<forall>d' \<in> ran (st_definitions s). named ns nm d' \<longrightarrow> wid_Version (wd_ID d') \<le> wid_Version (wd_ID d))"
      using some[OF Some] unique[of l d] by (metis order_antisym)
    ultimately show ?thesis using none Some by auto
  qed
qed

definition definition_v :: "int \<Rightarrow> WorkflowDefinition" where
  "definition_v v = \<lparr>wd_ID = \<lparr>wid_Namespace = ''n'', wid_Name = ''w'', wid_Version = v\<rparr>, wd_Description = '''', wd_Steps = [],
     wd_Tags = None, wd_CreatedAt = 0, wd_UpdatedAt = 0, wd_Timeout = 0\<rparr>"

theorem GetDefinitionByName_latest_witness:
  "\<exists>s ks. store_reachable s \<and> enumerates ks (st_definitions s) \<and> GetDefinitionByName ks ''n'' ''w'' s = Inr (definition_v 2)"
proof -
  obtain s where s: "case CreateDefinition (definition_v 1) Store_New of Inl _ \<Rightarrow> False
      | Inr s1 \<Rightarrow> CreateDefinition (definition_v 2) s1 = Inr s"
    "st_definitions s = [id_key (wd_ID (definition_v 1)) \<mapsto> definition_v 1, id_key (wd_ID (definition_v 2)) \<mapsto> definition_v 2]"
    by (simp add: CreateDefinition_def Store_New_def definition_v_def Let_def defKey_def)
  have r: "store_reachable s" using s(1)
    by (auto split: sum.splits dest!: store_step.intros(1) intro: store_reachable.step[OF store_reachable.step[OF store_reachable.init]])
  have fin: "finite (dom (st_definitions s))" by (simp add: s(2))
  obtain ks where e: "enumerates ks (st_definitions s)" using finite_dom_enumerates[OF fin] .
  have "ran (st_definitions s) = {definition_v 1, definition_v 2}"
    unfolding s(2) by (subst ran_map_upd; simp add: defKey_def definition_v_def insert_commute)
  then have "GetDefinitionByName ks ''n'' ''w'' s = Inr (definition_v 2)"
    using GetDefinitionByName_latest[OF r e, of "''n''" "''w''" "definition_v 2"] by (simp add: named_def definition_v_def)
  then show ?thesis using r e by blast
qed

subsection \<open>Retention\<close>











text \<open>
  (C15) The time a run ends is not recorded when the run was never marked as started: \<open>UpdateRunState\<close>
  to a success or a failure then only fills \<open>StartedAt\<close>, so \<open>ListExpiredRuns\<close> does not return the run
  for any cutoff and limit, and compaction never removes it.
\<close>

theorem UpdateRunState_unstarted_never_expires:
  assumes "store_reachable s" "GetRun ns i s = Inr r" "run_StartedAt r = None" "run_FinishedAt r = None"
    "to = StateSucceeded \<or> to = StateFailed" "UpdateRunState ns i to at s = Inr s'"
    "enumerates ks (st_runs s')"
  shows "GetRun ns i s' = Inr (r\<lparr>run_State := to, run_StartedAt := Some at\<rparr>)
    \<and> (\<forall>x \<in> set (ListExpiredRuns ks cutoff limit s'). (run_Namespace x, run_ID x) \<noteq> (ns, i))"
proof -
  let ?r = "r\<lparr>run_State := to, run_StartedAt := Some at\<rparr>"
  have "set_run_state to at r = ?r" using assms(3,5) by (auto simp: set_run_state_def)
  then have s': "st_runs s' (runKey ns i) = Some ?r"
    using assms(2,6) by (auto simp: GetRun_def UpdateRunState_def split: option.splits)
  have r': "store_reachable s'" using assms(1,6) by (auto intro: store_reachable.intros store_step.intros)
  have "(run_Namespace x, run_ID x) \<noteq> (ns, i)" if "x \<in> set (ListExpiredRuns ks cutoff limit s')" for x
  proof
    assume "(run_Namespace x, run_ID x) = (ns, i)"
    moreover have "x \<in> ran (st_runs s')" and fin: "run_FinishedAt x \<noteq> None"
      using that assms(7) set_take_limit[of limit]
      by (fastforce simp: ListExpiredRuns_def Let_def set_map_values_enum split: option.splits)+
    ultimately have "st_runs s' (runKey ns i) = Some x"
      using store_inv_parts(2)[OF store_inv_reachable[OF r']] by (auto simp: filed_def ran_def)
    then show False using s' fin assms(4) by auto
  qed
  then show ?thesis using s' by (simp add: GetRun_def)
qed

theorem UpdateRunState_unstarted_never_expires_witness:
  "\<exists>s s' r. GetRun ''n'' ''1'' s = Inr r \<and> UpdateRunState ''n'' ''1'' StateSucceeded 5 s = Inr s'
    \<and> (\<forall>x \<in> set (ListExpiredRuns [''n/1''] 1000 0 s'). (run_Namespace x, run_ID x) \<noteq> (''n'', ''1''))"
proof -
  let ?r = "round_trip_run ''n'' ''1''"
  obtain s where s: "CreateRun ?r Store_New = Inr s" and runs: "st_runs s = [''n/1'' \<mapsto> ?r]"
    by (simp add: CreateRun_def Store_New_def round_trip_run_def runKey_def)
  have r: "store_reachable s" using s by (auto dest!: store_step.intros(3) intro: store_reachable.intros)
  obtain s' where u: "UpdateRunState ''n'' ''1'' StateSucceeded 5 s = Inr s'" "dom (st_runs s') = {''n/1''}"
    by (simp add: UpdateRunState_def runs runKey_def)
  have e: "enumerates [''n/1''] (st_runs s')" by (simp add: u(2) enumerates_def)
  have g: "GetRun ''n'' ''1'' s = Inr ?r" by (simp add: GetRun_def runs runKey_def)
  show ?thesis
    using UpdateRunState_unstarted_never_expires[OF r g _ _ _ u(1) e, of 1000 0] g u(1)
    by (intro exI[of _ s] exI[of _ s'] exI[of _ ?r]) (simp add: round_trip_run_def)
qed

end
