(* ===== verification/Plugin.thy ===== *)
theory Plugin
  imports Run_Types
begin

text \<open>
  \<open>internal/plugin\<close>: step handlers and the registry the engine resolves them from. A handler is code of
  the user, so a registry is a parameter of the engine: \<open>h_Execute\<close> says what one call returns, given its
  input and the number of the call.
\<close>

type_synonym clock = "nat \<Rightarrow> gotime"

record Handle =
  hd_RunID :: string
  hd_StepID :: string
  hd_Namespace :: string
  hd_RunInput :: payload
  hd_Deadline :: duration
  hd_Now :: clock

record Result =
  res_Output :: payload
  res_Error :: "go_error option"

definition plugin_Errorf :: "string \<Rightarrow> Result" where
  "plugin_Errorf msg = \<lparr>res_Output = None, res_Error = Some (Message msg)\<rparr>"

record Handler =
  h_Name :: string
  h_Description :: string
  h_Execute :: "Handle \<Rightarrow> nat \<Rightarrow> Result \<times> go_error option"

record HandlerSpec =
  hs_Name :: string
  hs_Description :: string

record Registry =
  reg_handlers :: "string \<rightharpoonup> Handler"

definition NewRegistry :: Registry where
  "NewRegistry = \<lparr>reg_handlers = Map.empty\<rparr>"

definition ContainsAny :: "string \<Rightarrow> string \<Rightarrow> bool" where
  "ContainsAny s chars \<longleftrightarrow> list_ex (\<lambda>c. c \<in> set chars) s"

definition handler_space :: string where
  "handler_space = [CHR '' '', CHR 0x09, CHR 0x0A]"

definition Registry_Register :: "Handler \<Rightarrow> Registry \<Rightarrow> go_error + Registry" where
  "Registry_Register h r =
     (let name = h_Name h in
      if name = '''' then Inl (InvalidArgumentError (Message ''handler name must not be empty''))
      else if ContainsAny name handler_space then
        Inl (InvalidArgumentError (Message (''handler name '' @ Quote name @ '' must not contain whitespace'')))
      else case reg_handlers r name of
        Some _ \<Rightarrow> Inl (AlreadyExistsError (Message (''handler '' @ Quote name @ '' already registered'')))
      | None \<Rightarrow> Inr (r\<lparr>reg_handlers := (reg_handlers r)(name \<mapsto> h)\<rparr>))"

definition Registry_Resolve :: "string \<Rightarrow> Registry \<Rightarrow> go_error + Handler" where
  "Registry_Resolve name r =
     (case reg_handlers r name of
        None \<Rightarrow> Inl (NotFoundError (Message (''no handler named '' @ Quote name)))
      | Some h \<Rightarrow> Inr h)"

definition Registry_List :: "string list \<Rightarrow> Registry \<Rightarrow> string list" where
  "Registry_List ks r = sort (filter (\<lambda>k. reg_handlers r k \<noteq> None) ks)"

definition describe :: "Handler \<Rightarrow> string" where
  "describe h = (if h_Description h = '''' then h_Name h else h_Description h)"

definition Registry_Specs :: "string list \<Rightarrow> Registry \<Rightarrow> HandlerSpec list" where
  "Registry_Specs ks r =
     sort_key hs_Name (List.map_filter (\<lambda>k. map_option (\<lambda>h. \<lparr>hs_Name = k, hs_Description = describe h\<rparr>) (reg_handlers r k)) ks)"

definition Registry_Has :: "string \<Rightarrow> Registry \<Rightarrow> bool" where
  "Registry_Has name r \<longleftrightarrow> reg_handlers r name \<noteq> None"

text \<open>\<open>MustRegister\<close> panics with a message where \<open>Register\<close> returns an error.\<close>

definition Registry_MustRegister :: "Handler \<Rightarrow> Registry \<Rightarrow> string + Registry" where
  "Registry_MustRegister h r =
     (case Registry_Register h r of
        Inl e \<Rightarrow> Inl (''register handler '' @ Quote (h_Name h) @ '': '' @ error_text e)
      | Inr r' \<Rightarrow> Inr r')"

inductive registry_built :: "Registry \<Rightarrow> bool" where
  new: "registry_built NewRegistry"
| register: "registry_built r \<Longrightarrow> Registry_Register h r = Inr r' \<Longrightarrow> registry_built r'"

lemma registry_built_names:
  "registry_built r \<Longrightarrow> reg_handlers r k = Some h \<Longrightarrow> h_Name h = k \<and> k \<noteq> [] \<and> \<not> ContainsAny k handler_space"
proof (induction arbitrary: k h rule: registry_built.induct)
  case (register r g r')
  show ?case using register.hyps(2) register.prems register.IH[of k h] by (auto simp: Registry_Register_def Let_def split: if_splits option.splits)
qed (simp add: NewRegistry_def)

lemma map_filter_keys:
  "List.map_filter (\<lambda>k. map_option (\<lambda>h. \<lparr>hs_Name = k, hs_Description = f h\<rparr>) (m k)) ks =
   map (\<lambda>k. \<lparr>hs_Name = k, hs_Description = f (the (m k))\<rparr>) (filter (\<lambda>k. m k \<noteq> None) ks)"
  by (induction ks) (auto simp: List.map_filter_simps split: option.splits)

text \<open>
  In a registry built by \<open>Register\<close>, a handler is resolved under its own name, which is not empty and
  has no white space; \<open>List\<close> and \<open>Specs\<close> return the registered names in increasing order, each once,
  whatever the iteration order of the map; and a registered name is never taken over by a later
  \<open>Register\<close>.
\<close>

theorem Registry_contract:
  assumes "registry_built r" "enumerates ks (reg_handlers r)"
  shows "(\<forall>name h. Registry_Resolve name r = Inr h \<longrightarrow>
            h_Name h = name \<and> name \<noteq> '''' \<and> \<not> ContainsAny name handler_space)
    \<and> Registry_List ks r = sorted_list_of_set (dom (reg_handlers r))
    \<and> map hs_Name (Registry_Specs ks r) = sorted_list_of_set (dom (reg_handlers r))
    \<and> (\<forall>h r' name g. Registry_Register h r = Inr r' \<and> Registry_Resolve name r = Inr g \<longrightarrow> Registry_Resolve name r' = Inr g)"
proof -
  have ks: "distinct ks" "set ks = dom (reg_handlers r)" using assms(2) by (simp_all add: enumerates_def)
  have fil: "filter (\<lambda>k. reg_handlers r k \<noteq> None) ks = ks" using ks(2) by (intro filter_True) auto
  have sorted: "sort ks = sorted_list_of_set (dom (reg_handlers r))"
    using ks by (metis sorted_list_of_set_sort_remdups distinct_remdups_id)
  have "map hs_Name (Registry_Specs ks r) = sort ks"
    unfolding Registry_Specs_def map_filter_keys fil
    by (rule properties_for_sort[symmetric]) (simp_all add: multiset.map_comp comp_def)
  moreover have "h_Name h = name \<and> name \<noteq> '''' \<and> \<not> ContainsAny name handler_space" if "Registry_Resolve name r = Inr h" for name h
    using that registry_built_names[OF assms(1)] by (auto simp: Registry_Resolve_def split: option.splits)
  moreover have "Registry_Resolve name r' = Inr g" if "Registry_Register h r = Inr r'" "Registry_Resolve name r = Inr g" for h r' name g
    using that by (auto simp: Registry_Resolve_def Registry_Register_def Let_def split: if_splits option.splits)
  moreover have "Registry_List ks r = sort ks" by (simp only: Registry_List_def fil)
  ultimately show ?thesis unfolding sorted by blast
qed

theorem Registry_contract_witness:
  "\<exists>r h. registry_built r \<and> enumerates [''echo''] (reg_handlers r) \<and> Registry_Resolve ''echo'' r = Inr h \<and> h_Name h = ''echo''
     \<and> Registry_List [''echo''] r = [''echo'']"
proof -
  let ?h = "\<lparr>h_Name = ''echo'', h_Description = '''', h_Execute = \<lambda>i n. (\<lparr>res_Output = hd_RunInput i, res_Error = None\<rparr>, None)\<rparr>"
  let ?r = "\<lparr>reg_handlers = [''echo'' \<mapsto> ?h]\<rparr>"
  have "Registry_Register ?h NewRegistry = Inr ?r"
    by (simp add: Registry_Register_def NewRegistry_def ContainsAny_def handler_space_def Let_def)
  then have b: "registry_built ?r" by (rule registry_built.register[OF registry_built.new])
  have e: "enumerates [''echo''] (reg_handlers ?r)" by (simp add: enumerates_def)
  have "Registry_Resolve ''echo'' ?r = Inr ?h" by (simp add: Registry_Resolve_def)
  moreover have "Registry_List [''echo''] ?r = [''echo'']"
    using Registry_contract[OF b e, THEN conjunct2, THEN conjunct1] by (simp only: Registry.select_convs dom_fun_upd) simp
  moreover have "h_Name ?h = ''echo''"
    using Registry_contract[OF b e, THEN conjunct1] calculation(1) by blast
  ultimately show ?thesis using b e by blast
qed

end
