(* ===== verification/Validation.thy ===== *)
theory Validation
  imports Run_Types
begin

text \<open>
  \<open>pkg/validation\<close>: the checks on names, versions, retry policies and the steps of a definition. A
  check returns \<open>None\<close> for Go's nil error and the message otherwise. Text is ASCII.
\<close>

definition maxWorkflowNameLen :: int where "maxWorkflowNameLen = 64"
definition maxStepIDLen :: int where "maxStepIDLen = 64"

section \<open>Names\<close>

text \<open>The regular expression \<open>nameRe\<close>: a lower case letter, then up to 63 letters, digits, dashes or dots.\<close>

definition nameRe_String :: string where
  "nameRe_String = ''^[a-z][a-z0-9'' @ [CHR 0x5C] @ ''-'' @ [CHR 0x5C] @ ''.]{0,63}$''"

definition is_lower :: "char \<Rightarrow> bool" where
  "is_lower c \<longleftrightarrow> of_char c \<in> {97 .. 122 :: nat}"

definition is_digit :: "char \<Rightarrow> bool" where
  "is_digit c \<longleftrightarrow> of_char c \<in> {48 .. 57 :: nat}"

definition nameRe_tail :: "char \<Rightarrow> bool" where
  "nameRe_tail c \<longleftrightarrow> is_lower c \<or> is_digit c \<or> c = CHR ''-'' \<or> c = CHR ''.''"

fun nameRe_MatchString :: "string \<Rightarrow> bool" where
  "nameRe_MatchString [] = False"
| "nameRe_MatchString (c # cs) = (is_lower c \<and> length cs \<le> 63 \<and> list_all nameRe_tail cs)"

definition ValidateName :: "string \<Rightarrow> string option" where
  "ValidateName name =
     (if TrimSpace name = '''' then Some ''name must not be empty''
      else if int (length name) > maxWorkflowNameLen then
        Some (''name '' @ Quote name @ '' exceeds '' @ itoa maxWorkflowNameLen @ '' chars'')
      else if \<not> nameRe_MatchString name then Some (''name '' @ Quote name @ '' must match '' @ nameRe_String)
      else None)"

definition ValidateNamespace :: "string \<Rightarrow> string option" where
  "ValidateNamespace ns =
     (if TrimSpace ns = '''' then Some ''namespace must not be empty'' else ValidateName ns)"

definition ValidateVersion :: "int \<Rightarrow> string option" where
  "ValidateVersion v =
     (if v < 0 then Some (''version must be non-negative, got '' @ itoa v) else None)"

definition ValidateStepID :: "string \<Rightarrow> string option" where
  "ValidateStepID sid =
     (if TrimSpace sid = '''' then Some ''step id must not be empty''
      else if int (length sid) > maxStepIDLen then
        Some (''step id '' @ Quote sid @ '' exceeds '' @ itoa maxStepIDLen @ '' chars'')
      else if \<not> nameRe_MatchString sid then Some (''step id '' @ Quote sid @ '' must match '' @ nameRe_String)
      else None)"

section \<open>Retry policies\<close>

text \<open>
  Comparisons of a \<open>float64\<close> with constants, on its bits. A value is below 1.0 if it is a number and
  either negative or its bits are below those of 1.0; it differs from 0 unless it is one of the zeros.
\<close>

definition float_NaN :: "float64 \<Rightarrow> bool" where
  "float_NaN x \<longleftrightarrow> uint x mod 2 ^ 63 > 0x7FF0000000000000"

definition float_lt_1 :: "float64 \<Rightarrow> bool" where
  "float_lt_1 x \<longleftrightarrow> \<not> float_NaN x \<and> (uint x \<ge> 2 ^ 63 \<or> uint x < 0x3FF0000000000000)"

definition float_neq_0 :: "float64 \<Rightarrow> bool" where
  "float_neq_0 x \<longleftrightarrow> uint x mod 2 ^ 63 \<noteq> 0"

definition ValidateRetryPolicy :: "RetryPolicy option \<Rightarrow> string option" where
  "ValidateRetryPolicy p = (case p of None \<Rightarrow> None | Some r \<Rightarrow>
     if rp_MaxAttempts r < 0 then Some ''max_attempts must be non-negative''
     else if rp_InitialInterval r < 0 then Some ''initial_interval must be non-negative''
     else if rp_MaxInterval r < 0 then Some ''max_interval must be non-negative''
     else if float_lt_1 (rp_Multiplier r) \<and> float_neq_0 (rp_Multiplier r) then Some ''multiplier must be >= 1.0 or 0''
     else None)"

section \<open>Steps\<close>

record StepDef =
  vs_ID :: string
  vs_Handler :: string
  vs_DependsOn :: "string list"

definition validate_step :: "string set \<Rightarrow> StepDef \<Rightarrow> string + string set" where
  "validate_step ids s =
     (case ValidateStepID (vs_ID s) of Some e \<Rightarrow> Inl e | None \<Rightarrow>
        if vs_ID s \<in> ids then Inl (''duplicate step id '' @ Quote (vs_ID s))
        else let ids' = insert (vs_ID s) ids in
          if vs_Handler s = '''' then Inl (''step '' @ Quote (vs_ID s) @ '' requires a handler'')
          else case find (\<lambda>dep. dep \<notin> ids') (vs_DependsOn s) of
            Some dep \<Rightarrow> Inl (''step '' @ Quote (vs_ID s) @ '' depends on unknown step '' @ Quote dep
                             @ '' (must be declared first)'')
          | None \<Rightarrow> Inr ids')"

fun validate_steps :: "string set \<Rightarrow> StepDef list \<Rightarrow> string option" where
  "validate_steps ids [] = None"
| "validate_steps ids (s # ss) = (case validate_step ids s of Inl e \<Rightarrow> Some e | Inr ids' \<Rightarrow> validate_steps ids' ss)"

definition ValidateDefinitionSteps :: "StepDef list \<Rightarrow> string option" where
  "ValidateDefinitionSteps steps =
     (if steps = [] then Some ''definition must have at least one step'' else validate_steps {} steps)"

section \<open>What the checks establish\<close>

lemma space_not_name: "is_space c \<Longrightarrow> \<not> nameRe_tail c"
  by (auto simp: is_space_def nameRe_tail_def is_lower_def is_digit_def)

lemma nameRe_chars: "nameRe_MatchString x \<Longrightarrow> c \<in> set x \<Longrightarrow> nameRe_tail c"
  by (cases x) (auto simp: list_all_iff nameRe_tail_def)

lemma nameRe_length: "nameRe_MatchString x \<Longrightarrow> x \<noteq> [] \<and> length x \<le> 64"
  by (cases x) auto

lemma TrimSpace_Nil_iff: "TrimSpace x = [] \<longleftrightarrow> (\<forall>c \<in> set x. is_space c)"
proof -
  let ?d = "dropWhile is_space x"
  have "TrimSpace x = [] \<longleftrightarrow> (\<forall>c \<in> set ?d. is_space c)"
    by (simp add: TrimSpace_def dropWhile_eq_Nil_conv)
  also have "\<dots> \<longleftrightarrow> ?d = []"
  proof
    assume "\<forall>c \<in> set ?d. is_space c"
    then show "?d = []" using hd_dropWhile[of is_space x] hd_in_set[of ?d] by blast
  qed (simp only: list.set ball_empty)
  finally show ?thesis by (simp add: dropWhile_eq_Nil_conv)
qed

lemma nameRe_TrimSpace:
  assumes "nameRe_MatchString x"
  shows "TrimSpace x \<noteq> []"
proof
  assume "TrimSpace x = []"
  moreover obtain c cs where "x = c # cs" using assms by (cases x) auto
  ultimately show False using assms space_not_name nameRe_chars[OF assms, of c] by (auto simp: TrimSpace_Nil_iff)
qed

lemma ValidateName_None: "ValidateName x = None \<longleftrightarrow> nameRe_MatchString x"
  using nameRe_length[of x] nameRe_TrimSpace[of x] by (auto simp: ValidateName_def maxWorkflowNameLen_def)

lemma ValidateNamespace_None: "ValidateNamespace x = None \<longleftrightarrow> nameRe_MatchString x"
  using nameRe_TrimSpace[of x] by (auto simp: ValidateNamespace_def ValidateName_None)

lemma ValidateStepID_None: "ValidateStepID x = None \<longleftrightarrow> nameRe_MatchString x"
  using nameRe_length[of x] nameRe_TrimSpace[of x] by (auto simp: ValidateStepID_def maxStepIDLen_def)

lemma nameRe_no_slash: "nameRe_MatchString x \<Longrightarrow> CHR ''/'' \<notin> set x"
  using nameRe_chars[of x "CHR ''/''"] by (auto simp: nameRe_tail_def is_lower_def is_digit_def)

text \<open>
  A list of steps is well founded by declaration order: each step depends only on steps declared
  before it or, because the code adds the identifier before it looks at the dependencies, on itself.
\<close>

fun declared_first :: "string set \<Rightarrow> StepDef list \<Rightarrow> bool" where
  "declared_first ids [] = True"
| "declared_first ids (s # ss) \<longleftrightarrow> set (vs_DependsOn s) \<subseteq> insert (vs_ID s) ids \<and> declared_first (insert (vs_ID s) ids) ss"

lemma validate_step_Inr: "validate_step ids s = Inr ids' \<longleftrightarrow>
    nameRe_MatchString (vs_ID s) \<and> vs_ID s \<notin> ids \<and> vs_Handler s \<noteq> '''' \<and>
    set (vs_DependsOn s) \<subseteq> insert (vs_ID s) ids \<and> ids' = insert (vs_ID s) ids"
  unfolding validate_step_def ValidateStepID_None[symmetric]
  by (auto simp: Let_def find_None_iff dest: find_Some_prop split: option.splits if_splits)

lemma validate_steps_None: "validate_steps ids ss = None \<longleftrightarrow>
    (\<forall>s \<in> set ss. nameRe_MatchString (vs_ID s) \<and> vs_Handler s \<noteq> '''') \<and>
    distinct (map vs_ID ss) \<and> vs_ID ` set ss \<inter> ids = {} \<and> declared_first ids ss"
proof (induction ss arbitrary: ids)
  case (Cons s ss)
  show ?case
  proof (cases "validate_step ids s")
    case (Inl e)
    then have "\<not> (\<exists>ids'. validate_step ids s = Inr ids')" by simp
    then show ?thesis using Inl unfolding validate_step_Inr by auto
  next
    case (Inr ids')
    then show ?thesis using Cons.IH[of ids'] validate_step_Inr[of ids s ids'] by auto
  qed
qed simp

text \<open>
  (C20) \<open>ValidateDefinitionSteps\<close> accepts exactly the non-empty lists whose identifiers are names and
  distinct, whose handlers are not empty, and in which every dependency is an identifier declared
  earlier or the step's own.
\<close>

theorem ValidateDefinitionSteps_exact:
  "ValidateDefinitionSteps ss = None \<longleftrightarrow>
     ss \<noteq> [] \<and> distinct (map vs_ID ss) \<and>
     (\<forall>i < length ss. nameRe_MatchString (vs_ID (ss ! i)) \<and> vs_Handler (ss ! i) \<noteq> '''' \<and>
        set (vs_DependsOn (ss ! i)) \<subseteq> vs_ID ` set (take (Suc i) ss))"
proof -
  have "declared_first ids ss \<longleftrightarrow> (\<forall>i < length ss. set (vs_DependsOn (ss ! i)) \<subseteq> ids \<union> vs_ID ` set (take (Suc i) ss))" for ids
  proof (induction ss arbitrary: ids)
    case (Cons s ss)
    show ?case unfolding declared_first.simps Cons.IH by (simp add: All_less_Suc2)
  qed simp
  then show ?thesis
    by (auto simp: ValidateDefinitionSteps_def validate_steps_None all_set_conv_all_nth)
qed

theorem ValidateDefinitionSteps_exact_witness:
  "ValidateDefinitionSteps [\<lparr>vs_ID = ''a'', vs_Handler = ''h'', vs_DependsOn = []\<rparr>, \<lparr>vs_ID = ''b'', vs_Handler = ''h'', vs_DependsOn = [''a'']\<rparr>] = None \<and>
   ValidateDefinitionSteps [\<lparr>vs_ID = ''a'', vs_Handler = ''h'', vs_DependsOn = [''b'']\<rparr>, \<lparr>vs_ID = ''b'', vs_Handler = ''h'', vs_DependsOn = []\<rparr>] \<noteq> None"
proof -
  have "nameRe_MatchString ''a''" "nameRe_MatchString ''b''" by code_simp+
  then show ?thesis unfolding ValidateDefinitionSteps_exact by (simp add: All_less_Suc2 numeral_2_eq_2)
qed

end
