(* ===== verification/Engine.thy ===== *)
theory Engine
  imports Mem_Store Plugin Validation
begin

text \<open>
  The engine: \<open>internal/workflow\<close> (creating a run, finding its ready steps), \<open>internal/scheduler\<close>
  (\<open>Submit\<close>, \<open>ProcessLeases\<close>, \<open>Cancel\<close> and what they call) and the periodic workers of
  \<open>internal/worker\<close>, on the in-memory store.

  Everything an operation may change is a \<open>World\<close>: the store, how often the clock was read, how often
  a handler was called, and the events handed to the event sink. Successive readings of \<open>e.now()\<close> are
  \<open>eng_now e 0\<close>, \<open>eng_now e 1\<close>, ...; the random part of the event identifiers is a stream indexed by the
  events published so far. Metrics and logs have no effect on the state. A nil pointer dereference is
  the outcome \<open>Panic\<close>.
\<close>

section \<open>Workflow\<close>

fun nat_hex :: "nat \<Rightarrow> string" where
  "nat_hex n = (if n < 16 then [hex_digit n] else nat_hex (n div 16) @ [hex_digit (n mod 16)])"

declare nat_hex.simps [simp del]

definition int_hex :: "int \<Rightarrow> string" where
  "int_hex i = (if i < 0 then CHR ''-'' # nat_hex (nat (- i)) else nat_hex (nat i))"

definition new_step :: "StepDefinition \<Rightarrow> StepRun" where
  "new_step sd = \<lparr>sr_StepID = sd_ID sd, sr_State = StepPending, sr_Attempt = 0, sr_StartedAt = None, sr_FinishedAt = None,
     sr_Output = Some Map.empty, sr_Error = '''', sr_LastErrType = '''', sr_Metadata = Some Map.empty\<rparr>"

text \<open>\<open>nanos\<close> is \<open>time.Now().UnixNano()\<close>, from which the identifier of the run is made.\<close>

definition NewRun :: "int \<Rightarrow> WorkflowDefinition option \<Rightarrow> RunInput \<Rightarrow> gotime \<Rightarrow> go_error + Run" where
  "NewRun nanos def input now =
     (case def of None \<Rightarrow> Inl (InvalidArgumentError (Message ''definition must not be nil''))
      | Some d \<Rightarrow>
          if wd_Steps d = [] then Inl (InvalidArgumentError (Message ''definition must have at least one step''))
          else let input' = input\<lparr>ri_Workflow := wd_ID d\<rparr> in
            Inr \<lparr>run_ID = '':'' @ int_hex nanos, run_Namespace = wid_Namespace (ri_Workflow input'),
                 run_Workflow = ri_Workflow input', run_State = StatePending, run_Input = input',
                 run_Steps = map new_step (wd_Steps d), run_Attempt = 0, run_CreatedAt = now,
                 run_StartedAt = None, run_FinishedAt = None, run_Error = '''', run_Labels = None,
                 run_ParentRunID = ''''\<rparr>)"

definition deps_map :: "StepDefinition list \<Rightarrow> (string \<rightharpoonup> string list)" where
  "deps_map sds = foldl (\<lambda>m sd. m(sd_ID sd \<mapsto> sd_DependsOn sd)) Map.empty sds"

definition state_map :: "StepRun list \<Rightarrow> (string \<rightharpoonup> StepState)" where
  "state_map ss = foldl (\<lambda>m s. m(sr_StepID s \<mapsto> sr_State s)) Map.empty ss"

definition step_done :: "StepState \<Rightarrow> bool" where
  "step_done st \<longleftrightarrow> st = StepSucceeded \<or> st = StepSkipped"

text \<open>A missing key reads as the zero value: no dependencies, and the empty state, which is not done.\<close>

definition ReadySteps :: "WorkflowDefinition option \<Rightarrow> Run option \<Rightarrow> StepRun list" where
  "ReadySteps def run =
     (case (def, run) of
        (Some d, Some r) \<Rightarrow>
          (let deps = deps_map (wd_Steps d); stepState = state_map (run_Steps r) in
           filter (\<lambda>s. sr_State s = StepPending \<and>
                       list_all (\<lambda>dep. step_done (case stepState dep of Some st \<Rightarrow> st | None \<Rightarrow> StepOther ''''))
                         (case deps (sr_StepID s) of Some ds \<Rightarrow> ds | None \<Rightarrow> []))
             (run_Steps r))
      | _ \<Rightarrow> [])"

section \<open>Engine\<close>

record Options =
  op_Clock :: "clock option"
  op_MaxDequeue :: int
  op_LeaseTTL :: duration
  op_EventSink :: bool

record Engine =
  eng_registry :: Registry
  eng_now :: clock
  eng_events :: bool
  eng_maxDequeue :: int
  eng_digest :: "nat \<Rightarrow> string"

record World =
  w_store :: Store
  w_ticks :: nat
  w_calls :: nat
  w_published :: "Event list"

datatype outcome = Panic | Returned "go_error option"

text \<open>\<open>systemClock\<close> is \<open>time.Now\<close> and \<open>digest\<close> the random stream. The lease time is defaulted and not kept.\<close>

definition NewEngine :: "clock \<Rightarrow> (nat \<Rightarrow> string) \<Rightarrow> Registry \<Rightarrow> Options \<Rightarrow> Engine" where
  "NewEngine systemClock digest registry opts =
     (let o1 = (if op_Clock opts = None then opts\<lparr>op_Clock := Some systemClock\<rparr> else opts);
          o2 = (if op_MaxDequeue o1 \<le> 0 then o1\<lparr>op_MaxDequeue := 32\<rparr> else o1);
          o3 = (if op_LeaseTTL o2 \<le> 0 then o2\<lparr>op_LeaseTTL := 30 * Second\<rparr> else o2)
      in \<lparr>eng_registry = registry, eng_now = the (op_Clock o3), eng_events = op_EventSink o3,
          eng_maxDequeue = op_MaxDequeue o3, eng_digest = digest\<rparr>)"

definition read_clock :: "Engine \<Rightarrow> World \<Rightarrow> gotime \<times> World" where
  "read_clock e w = (eng_now e (w_ticks w), w\<lparr>w_ticks := w_ticks w + 1\<rparr>)"

text \<open>A call of the store whose error the engine drops (\<open>_ = e.store...\<close>).\<close>

definition ignoring_error :: "(Store \<Rightarrow> go_error + Store) \<Rightarrow> World \<Rightarrow> World" where
  "ignoring_error f w = (case f (w_store w) of Inl _ \<Rightarrow> w | Inr s \<Rightarrow> w\<lparr>w_store := s\<rparr>)"

definition eventID :: "string \<Rightarrow> Event \<Rightarrow> string" where
  "eventID digest ev = EventType_Short (ev_Type ev) @ ''-'' @ digest"

definition emit :: "Engine \<Rightarrow> Event \<Rightarrow> World \<Rightarrow> World" where
  "emit e ev w =
     (if \<not> eng_events e then w
      else w\<lparr>w_published := w_published w @ [ev\<lparr>ev_ID := eventID (eng_digest e (length (w_published w))) ev\<rparr>]\<rparr>)"

definition new_event :: "EventType \<Rightarrow> Run \<Rightarrow> string \<Rightarrow> gotime \<Rightarrow> payload \<Rightarrow> int \<Rightarrow> Event" where
  "new_event typ run stepID at p attempt =
     \<lparr>ev_ID = '''', ev_Type = typ, ev_Version = 1, ev_Namespace = run_Namespace run, ev_RunID = run_ID run,
      ev_StepID = stepID, ev_CreatedAt = at, ev_Payload = p, ev_Attempt = attempt\<rparr>"

definition queueItemFor :: "Run \<Rightarrow> StepRun \<Rightarrow> gotime \<Rightarrow> gotime \<Rightarrow> QueueItem" where
  "queueItemFor run step now visibleAt =
     \<lparr>qi_RunID = run_ID run, qi_Namespace = run_Namespace run, qi_StepID = sr_StepID step,
      qi_EnqueuedAt = now, qi_VisibleAt = visibleAt, qi_Attempt = sr_Attempt step + 1\<rparr>"

definition findStepDef :: "WorkflowDefinition \<Rightarrow> string \<Rightarrow> StepDefinition option" where
  "findStepDef d sid = find (\<lambda>sd. sd_ID sd = sid) (wd_Steps d)"

text \<open>
  The loop that several operations share: the first step of the local run with the identifier is
  changed by \<open>f\<close> and written to the store, whose error is dropped.
\<close>

definition touch_step :: "string \<Rightarrow> (StepRun \<Rightarrow> StepRun) \<Rightarrow> Run \<Rightarrow> World \<Rightarrow> Run \<times> World" where
  "touch_step sid f run w =
     (case (find (\<lambda>s. sr_StepID s = sid) (run_Steps run), update_first (\<lambda>s. sr_StepID s = sid) f (run_Steps run)) of
        (Some s, Some steps) \<Rightarrow>
          (run\<lparr>run_Steps := steps\<rparr>, ignoring_error (UpdateStepState (run_Namespace run) (run_ID run) (f s)) w)
      | _ \<Rightarrow> (run, w))"

fun enqueue_steps :: "Engine \<Rightarrow> gotime \<Rightarrow> StepRun list \<Rightarrow> Run \<times> World \<Rightarrow> Run \<times> World" where
  "enqueue_steps e now [] rw = rw"
| "enqueue_steps e now (s # ss) (run, w) =
     (let w1 = w\<lparr>w_store := Enqueue (queueItemFor run s now now) (w_store w)\<rparr>;
          (run', w2) = touch_step (sr_StepID s) (\<lambda>x. x\<lparr>sr_State := StepQueued\<rparr>) run w1;
          w3 = emit e (new_event EventStepQueued run' (sr_StepID s) now None (sr_Attempt s + 1)) w2
      in enqueue_steps e now ss (run', w3))"

text \<open>\<open>Enqueue\<close> of the in-memory store never fails, so neither does this.\<close>

definition enqueueReadySteps :: "Engine \<Rightarrow> WorkflowDefinition \<Rightarrow> Run \<Rightarrow> World \<Rightarrow> Run \<times> World" where
  "enqueueReadySteps e def run w =
     (let (now, w1) = read_clock e w in enqueue_steps e now (ReadySteps (Some def) (Some run)) (run, w1))"

definition Submit :: "string list \<Rightarrow> int \<Rightarrow> Engine \<Rightarrow> RunInput \<Rightarrow> World \<Rightarrow> World \<times> (go_error + string)" where
  "Submit ks nanos e input w =
     (let (now, w1) = read_clock e w in
      case GetDefinitionByName ks (wid_Namespace (ri_Workflow input)) (wid_Name (ri_Workflow input)) (w_store w1) of
        Inl err \<Rightarrow> (w1, Inl err)
      | Inr def \<Rightarrow>
          (case NewRun nanos (Some def) (input\<lparr>ri_Workflow := wd_ID def\<rparr>) now of
             Inl err \<Rightarrow> (w1, Inl err)
           | Inr run \<Rightarrow>
               (case CreateRun run (w_store w1) of
                  Inl err \<Rightarrow> (w1, Inl err)
                | Inr s2 \<Rightarrow>
                    (case UpdateRunState (run_Namespace run) (run_ID run) StateQueued now s2 of
                       Inl err \<Rightarrow> (w1\<lparr>w_store := s2\<rparr>, Inl err)
                     | Inr s3 \<Rightarrow>
                         (let (run', w4) = enqueueReadySteps e def run (w1\<lparr>w_store := s3\<rparr>);
                              w5 = emit e (new_event EventRunCreated run' '''' now
                                     (Some [''workflow'' \<mapsto> AnyString (wid_Name (wd_ID def)),
                                            ''version'' \<mapsto> AnyInt (wid_Version (wd_ID def))]) 0) w4
                          in (w5, Inr (run_ID run')))))))"

definition markStepRunning :: "Run \<Rightarrow> QueueItem \<Rightarrow> gotime \<Rightarrow> World \<Rightarrow> Run \<times> World" where
  "markStepRunning run item at w =
     touch_step (qi_StepID item) (\<lambda>s. s\<lparr>sr_State := StepRunning, sr_StartedAt := Some at\<rparr>) run w"

definition finishRun :: "Engine \<Rightarrow> Run \<Rightarrow> RunState \<Rightarrow> string \<Rightarrow> World \<Rightarrow> World" where
  "finishRun e run state errMsg w =
     (let (now, w1) = read_clock e w;
          w2 = ignoring_error (UpdateRunState (run_Namespace run) (run_ID run) state now) w1;
          w3 = (if errMsg \<noteq> '''' then ignoring_error (UpdateRunError (run_Namespace run) (run_ID run) errMsg) w2 else w2);
          evType = (if state = StateFailed then EventRunFailed else if state = StateCancelled then EventRunCancelled
                    else if state = StateTimedOut then EventRunTimedOut else EventRunCompleted)
      in emit e (new_event evType run '''' now (Some [''error'' \<mapsto> AnyString errMsg]) 0) w3)"

definition promoteRun :: "Engine \<Rightarrow> Run \<Rightarrow> World \<Rightarrow> World" where
  "promoteRun e run w = finishRun e run StateSucceeded '''' w"

definition failed_step :: "QueueItem \<Rightarrow> string \<Rightarrow> StepRun" where
  "failed_step item msg = \<lparr>sr_StepID = qi_StepID item, sr_State = StepFailed, sr_Attempt = qi_Attempt item,
     sr_StartedAt = None, sr_FinishedAt = None, sr_Output = None, sr_Error = msg, sr_LastErrType = '''', sr_Metadata = None\<rparr>"

definition failStep :: "Engine \<Rightarrow> Run \<Rightarrow> QueueLease \<Rightarrow> go_error \<Rightarrow> World \<Rightarrow> World" where
  "failStep e run lease err w =
     (let item = ql_Item lease;
          (now, w1) = read_clock e w;
          msg = (if error_text err = '''' then ''step failed'' else error_text err);
          w2 = ignoring_error (UpdateStepState (qi_Namespace item) (qi_RunID item) (failed_step item msg)) w1;
          w3 = emit e (new_event EventStepFailed run (qi_StepID item) now (Some [''error'' \<mapsto> AnyString msg]) (qi_Attempt item)) w2;
          w4 = ignoring_error (CompleteStep (qi_Namespace item) (qi_RunID item) (qi_StepID item) (ql_Token lease)) w3
      in finishRun e run StateFailed msg w4)"

definition completeStep :: "Engine \<Rightarrow> Run \<Rightarrow> WorkflowDefinition \<Rightarrow> QueueLease \<Rightarrow> payload \<Rightarrow> World \<Rightarrow> World \<times> go_error option" where
  "completeStep e run def lease out w =
     (let item = ql_Item lease; (now, w1) = read_clock e w in
      case CompleteStep (qi_Namespace item) (qi_RunID item) (qi_StepID item) (ql_Token lease) (w_store w1) of
        Inl err \<Rightarrow> (w1, Some err)
      | Inr s2 \<Rightarrow>
          (let (run', w3) = touch_step (qi_StepID item)
                 (\<lambda>s. s\<lparr>sr_State := StepSucceeded, sr_FinishedAt := Some now, sr_Output := out\<rparr>) run (w1\<lparr>w_store := s2\<rparr>);
               w4 = emit e (new_event EventStepDone run' (qi_StepID item) now None (qi_Attempt item)) w3
           in if list_all (\<lambda>s. step_done (sr_State s)) (run_Steps run') then (promoteRun e run' w4, None)
              else (snd (enqueueReadySteps e def run' w4), None)))"

definition executeLease :: "Engine \<Rightarrow> QueueLease \<Rightarrow> World \<Rightarrow> World \<times> outcome" where
  "executeLease e lease w =
     (let item = ql_Item lease in
      case GetRun (qi_Namespace item) (qi_RunID item) (w_store w) of
        Inl err \<Rightarrow> (w, Returned (Some err))
      | Inr run \<Rightarrow>
          (case GetDefinition (run_Workflow run) (w_store w) of
             Inl err \<Rightarrow> (w, Returned (Some err))
           | Inr def \<Rightarrow>
               (case findStepDef def (qi_StepID item) of
                  None \<Rightarrow> (w, Panic)
                | Some sd \<Rightarrow>
                    (case Registry_Resolve (sd_Handler sd) (eng_registry e) of
                       Inl err \<Rightarrow> (failStep e run lease err w, Returned None)
                     | Inr handler \<Rightarrow>
                         (let (at, w1) = read_clock e w;
                              (run', w2) = markStepRunning run item at w1;
                              (at', w3) = read_clock e w2;
                              w4 = emit e (new_event EventStepStarted run' (qi_StepID item) at' None (qi_Attempt item)) w3;
                              (result, execErr) = h_Execute handler
                                \<lparr>hd_RunID = run_ID run', hd_StepID = qi_StepID item, hd_Namespace = '''',
                                 hd_RunInput = ri_Payload (run_Input run'), hd_Deadline = sd_Timeout sd,
                                 hd_Now = eng_now e\<rparr> (w_calls w4);
                              w5 = w4\<lparr>w_calls := w_calls w4 + 1\<rparr>
                          in case execErr of
                               Some err \<Rightarrow> (failStep e run' lease err w5, Returned None)
                             | None \<Rightarrow>
                                 (case res_Error result of
                                    Some err \<Rightarrow> (failStep e run' lease err w5, Returned None)
                                  | None \<Rightarrow>
                                      (case completeStep e run' def lease (res_Output result) w5 of
                                         (w6, err) \<Rightarrow> (w6, Returned err))))))))"

text \<open>\<open>processLease\<close> only calls \<open>executeLease\<close>; a returned error is logged, a panic ends the loop.\<close>

fun process_leases :: "Engine \<Rightarrow> QueueLease list \<Rightarrow> World \<Rightarrow> World \<times> outcome" where
  "process_leases e [] w = (w, Returned None)"
| "process_leases e (l # ls) w =
     (case executeLease e l w of (w', Panic) \<Rightarrow> (w', Panic) | (w', Returned _) \<Rightarrow> process_leases e ls w')"

definition dequeueLeases :: "string list \<Rightarrow> (nat \<Rightarrow> string) \<Rightarrow> Engine \<Rightarrow> World \<Rightarrow> World \<times> QueueLease list" where
  "dequeueLeases ks tokens e w =
     (let (now, w1) = read_clock e w in
      case DequeueAny ks tokens (eng_maxDequeue e) now (w_store w1) of (s, ls) \<Rightarrow> (w1\<lparr>w_store := s\<rparr>, ls))"

definition ProcessLeases :: "string list \<Rightarrow> (nat \<Rightarrow> string) \<Rightarrow> Engine \<Rightarrow> World \<Rightarrow> World \<times> outcome" where
  "ProcessLeases ks tokens e w =
     (case dequeueLeases ks tokens e w of (w1, leases) \<Rightarrow> process_leases e leases w1)"

definition Cancel :: "Engine \<Rightarrow> Namespace \<Rightarrow> string \<Rightarrow> World \<Rightarrow> World \<times> go_error option" where
  "Cancel e namespace runID w =
     (case GetRun namespace runID (w_store w) of
        Inl err \<Rightarrow> (w, Some err)
      | Inr run \<Rightarrow>
          if IsTerminal (run_State run) then (w, Some (ConflictError (Sentinel ErrConflict)))
          else (finishRun e run StateCancelled '''' w, None))"

section \<open>Periodic workers\<close>

record LeaseReaperOptions =
  lr_LeaseTimeout :: duration
  lr_Interval :: duration

definition NewLeaseReaper :: "LeaseReaperOptions \<Rightarrow> LeaseReaperOptions" where
  "NewLeaseReaper opts =
     (let o1 = (if lr_LeaseTimeout opts \<le> 0 then opts\<lparr>lr_LeaseTimeout := 60 * Second\<rparr> else opts)
      in if lr_Interval o1 \<le> 0 then o1\<lparr>lr_Interval := 15 * Second\<rparr> else o1)"

text \<open>\<open>clk\<close> is the clock of the store; the \<open>i\<close>-th release reads it for the \<open>i\<close>-th time.\<close>

fun release_all :: "clock \<Rightarrow> nat \<Rightarrow> QueueItem list \<Rightarrow> Store \<Rightarrow> Store" where
  "release_all clk i [] s = s"
| "release_all clk i (item # items) s =
     (case ReleaseStep (clk i) (qi_Namespace item) (qi_RunID item) (qi_StepID item) s of
        Inl _ \<Rightarrow> release_all clk i items s
      | Inr s' \<Rightarrow> release_all clk (i + 1) items s')"

definition LeaseReaper_runOnce :: "string list \<Rightarrow> clock \<Rightarrow> LeaseReaperOptions \<Rightarrow> gotime \<Rightarrow> Store \<Rightarrow> Store" where
  "LeaseReaper_runOnce ks clk opts now s = release_all clk 0 (LeaseExpired ks (lr_LeaseTimeout opts) now s) s"

record ExpiryOptions =
  xo_MaxAge :: duration
  xo_Limit :: int

definition NewExpiryWorker :: "ExpiryOptions \<Rightarrow> ExpiryOptions" where
  "NewExpiryWorker opts =
     (let o1 = (if xo_Limit opts \<le> 0 then opts\<lparr>xo_Limit := 100\<rparr> else opts)
      in if xo_MaxAge o1 \<le> 0 then o1\<lparr>xo_MaxAge := 7 * 24 * Hour\<rparr> else o1)"

definition ExpiryWorker_runOnce :: "string list \<Rightarrow> string list \<Rightarrow> ExpiryOptions \<Rightarrow> gotime \<Rightarrow> Store \<Rightarrow> Store" where
  "ExpiryWorker_runOnce rks qks opts now s =
     (let cutoff = time_Add now (- xo_MaxAge opts);
          expired = ListExpiredRuns rks cutoff (xo_Limit opts) s
      in if expired = [] then s else fst (DeleteRuns rks qks (map run_ID expired) s))"

record CompactionOptions =
  co_Before :: duration
  co_Limit :: int

definition NewCompactionWorker :: "CompactionOptions \<Rightarrow> CompactionOptions" where
  "NewCompactionWorker opts =
     (let o1 = (if co_Limit opts \<le> 0 then opts\<lparr>co_Limit := 50\<rparr> else opts)
      in if co_Before o1 \<le> 0 then o1\<lparr>co_Before := 30 * 24 * Hour\<rparr> else o1)"

definition CompactionWorker_runOnce :: "string list \<Rightarrow> string list \<Rightarrow> CompactionOptions \<Rightarrow> gotime \<Rightarrow> Store \<Rightarrow> Store" where
  "CompactionWorker_runOnce rks qks opts now s =
     fst (CompactRuns rks qks (time_Add now (- co_Before opts)) (co_Limit opts) s)"

section \<open>A sample workflow\<close>

text \<open>
  Definitions for concrete runs: workflow \<open>ns/w@1\<close> with the given steps, one handler that always
  succeeds, and a clock that counts its readings.
\<close>

definition sample_step :: "string \<Rightarrow> string list \<Rightarrow> StepDefinition" where
  "sample_step i deps = \<lparr>sd_ID = i, sd_Handler = ''h'', sd_DependsOn = deps, sd_Timeout = 0,
     sd_Retry = \<lparr>rp_MaxAttempts = 0, rp_InitialInterval = 0, rp_MaxInterval = 0, rp_Multiplier = 0, rp_MaxElapsed = 0\<rparr>,
     sd_InputSchema = '''', sd_OutputSchema = '''', sd_IsGateway = False, sd_ContinueOnErr = False\<rparr>"

definition sample_definition :: "StepDefinition list \<Rightarrow> WorkflowDefinition" where
  "sample_definition steps = \<lparr>wd_ID = \<lparr>wid_Namespace = ''ns'', wid_Name = ''w'', wid_Version = 1\<rparr>, wd_Description = '''',
     wd_Steps = steps, wd_Tags = None, wd_CreatedAt = 0, wd_UpdatedAt = 0, wd_Timeout = 0\<rparr>"

definition sample_handler :: Handler where
  "sample_handler = \<lparr>h_Name = ''h'', h_Description = '''', h_Execute = \<lambda>_ _. (\<lparr>res_Output = None, res_Error = None\<rparr>, None)\<rparr>"

definition sample_engine :: Engine where
  "sample_engine = \<lparr>eng_registry = \<lparr>reg_handlers = [''h'' \<mapsto> sample_handler]\<rparr>, eng_now = int, eng_events = True,
     eng_maxDequeue = 32, eng_digest = \<lambda>_. ''''\<rparr>"

definition sample_input :: RunInput where
  "sample_input = \<lparr>ri_Workflow = \<lparr>wid_Namespace = ''ns'', wid_Name = ''w'', wid_Version = 0\<rparr>, ri_Payload = None,
     ri_Labels = None, ri_ParentRunID = ''''\<rparr>"

definition sample_world :: "StepDefinition list \<Rightarrow> World" where
  "sample_world steps = \<lparr>w_store = Store_New\<lparr>st_definitions := [''ns/w@1'' \<mapsto> sample_definition steps]\<rparr>,
     w_ticks = 0, w_calls = 0, w_published = []\<rparr>"

definition sample_submitted :: "StepDefinition list \<Rightarrow> World" where
  "sample_submitted steps = fst (Submit [''ns/w@1''] 5 sample_engine sample_input (sample_world steps))"

definition sample_run :: "World \<Rightarrow> Run" where
  "sample_run w = the (st_runs (w_store w) ''ns/:5'')"

end
