(* ===== verification/Engine_Safety.thy ===== *)
theory Engine_Safety
  imports Engine
begin

text \<open>
  The order the engine gives to the steps of a run. \<open>engine_inv\<close> relates the three tables of the store
  (definitions, runs, queue); every operation of the engine, of the lease reaper and the creation of
  validated definitions preserve it, so that no step is ever started before the steps it depends on
  are done.
\<close>

section \<open>Steps of a run\<close>

lemma foldl_upd_notin: "x \<notin> k ` set ss \<Longrightarrow> foldl (\<lambda>m s. m(k s \<mapsto> v s)) m ss x = m x"
  by (induction ss arbitrary: m) auto

lemma foldl_upd_in: "distinct (map k ss) \<Longrightarrow> s \<in> set ss \<Longrightarrow> foldl (\<lambda>m s. m(k s \<mapsto> v s)) m ss (k s) = Some (v s)"
  by (induction ss arbitrary: m) (auto simp: foldl_upd_notin)

definition done_in :: "StepRun list \<Rightarrow> string \<Rightarrow> bool" where
  "done_in steps dep \<longleftrightarrow> (\<exists>y \<in> set steps. sr_StepID y = dep \<and> step_done (sr_State y))"

definition active_in :: "StepRun list \<Rightarrow> string \<Rightarrow> bool" where
  "active_in steps sid \<longleftrightarrow> (\<exists>x \<in> set steps. sr_StepID x = sid \<and> (sr_State x = StepQueued \<or> sr_State x = StepRunning))"

definition deps_met :: "WorkflowDefinition \<Rightarrow> StepRun list \<Rightarrow> string \<Rightarrow> bool" where
  "deps_met d steps sid \<longleftrightarrow>
     (\<forall>sd \<in> set (wd_Steps d). sd_ID sd = sid \<longrightarrow> (\<forall>dep \<in> set (sd_DependsOn sd). done_in steps dep))"

text \<open>No step has left the pending state before its dependencies were done.\<close>

definition deps_safe :: "WorkflowDefinition \<Rightarrow> StepRun list \<Rightarrow> bool" where
  "deps_safe d steps \<longleftrightarrow> (\<forall>x \<in> set steps. sr_State x \<noteq> StepPending \<longrightarrow> deps_met d steps (sr_StepID x))"

definition same_steps :: "WorkflowDefinition \<Rightarrow> StepRun list \<Rightarrow> bool" where
  "same_steps d steps \<longleftrightarrow> map sr_StepID steps = map sd_ID (wd_Steps d) \<and> distinct (map sr_StepID steps)"

lemma same_steps_distinct: "same_steps d steps \<Longrightarrow> distinct (map sr_StepID steps)"
  unfolding same_steps_def by blast

lemma step_unique:
  "distinct (map sr_StepID steps) \<Longrightarrow> x \<in> set steps \<Longrightarrow> y \<in> set steps \<Longrightarrow> sr_StepID x = sr_StepID y \<Longrightarrow> x = y"
  by (metis inj_on_def distinct_map)

lemma state_map_done:
  assumes "distinct (map sr_StepID steps)"
  shows "step_done (case state_map steps dep of Some st \<Rightarrow> st | None \<Rightarrow> StepOther x) \<longleftrightarrow> done_in steps dep"
proof (cases "dep \<in> sr_StepID ` set steps")
  case True
  then obtain y where y: "y \<in> set steps" "sr_StepID y = dep" by auto
  then have "state_map steps dep = Some (sr_State y)"
    using foldl_upd_in[OF assms y(1), of sr_State] by (simp add: state_map_def)
  moreover have "done_in steps dep \<longleftrightarrow> step_done (sr_State y)"
    unfolding done_in_def using y step_unique[OF assms] by metis
  ultimately show ?thesis by simp
next
  case False
  then have "state_map steps dep = None" by (simp add: state_map_def foldl_upd_notin)
  then show ?thesis using False by (auto simp: done_in_def step_done_def)
qed

lemma deps_map_in: "distinct (map sd_ID sds) \<Longrightarrow> sd \<in> set sds \<Longrightarrow> deps_map sds (sd_ID sd) = Some (sd_DependsOn sd)"
  unfolding deps_map_def by (rule foldl_upd_in)

lemma set_ReadySteps:
  assumes "same_steps d (run_Steps r)"
  shows "s \<in> set (ReadySteps (Some d) (Some r)) \<longleftrightarrow>
    s \<in> set (run_Steps r) \<and> sr_State s = StepPending \<and> deps_met d (run_Steps r) (sr_StepID s)"
proof -
  have dist: "distinct (map sr_StepID (run_Steps r))" "distinct (map sd_ID (wd_Steps d))"
    using assms by (auto simp: same_steps_def)
  have "list_all (\<lambda>dep. step_done (case state_map (run_Steps r) dep of Some st \<Rightarrow> st | None \<Rightarrow> StepOther ''''))
        (case deps_map (wd_Steps d) (sr_StepID s) of Some ds \<Rightarrow> ds | None \<Rightarrow> []) \<longleftrightarrow> deps_met d (run_Steps r) (sr_StepID s)"
    if "s \<in> set (run_Steps r)"
  proof -
    have "sr_StepID s \<in> set (map sr_StepID (run_Steps r))" using that by simp
    also have "\<dots> = set (map sd_ID (wd_Steps d))" using assms by (simp only: same_steps_def)
    finally obtain sd where sd: "sd \<in> set (wd_Steps d)" "sd_ID sd = sr_StepID s" by auto
    moreover have "sd' = sd" if "sd' \<in> set (wd_Steps d)" "sd_ID sd' = sr_StepID s" for sd'
      using that sd dist(2) by (metis inj_on_def distinct_map)
    ultimately have "deps_met d (run_Steps r) (sr_StepID s) \<longleftrightarrow> (\<forall>dep \<in> set (sd_DependsOn sd). done_in (run_Steps r) dep)"
      unfolding deps_met_def by metis
    then show ?thesis using deps_map_in[OF dist(2) sd(1)] sd(2) by (simp add: list_all_iff state_map_done[OF dist(1)])
  qed
  then show ?thesis by (auto simp: ReadySteps_def Let_def)
qed

text \<open>One step is changed, from a state that is not done.\<close>

definition change_step :: "string \<Rightarrow> (StepRun \<Rightarrow> StepRun) \<Rightarrow> StepRun list \<Rightarrow> StepRun list" where
  "change_step sid f steps = map (\<lambda>x. if sr_StepID x = sid then f x else x) steps"

abbreviation keeps_id :: "string \<Rightarrow> (StepRun \<Rightarrow> StepRun) \<Rightarrow> bool" where
  "keeps_id sid f \<equiv> \<forall>x. sr_StepID x = sid \<longrightarrow> sr_StepID (f x) = sid"

lemma map_change_step: "keeps_id sid f \<Longrightarrow> map sr_StepID (change_step sid f steps) = map sr_StepID steps"
  by (simp add: change_step_def)

lemma same_steps_change: "same_steps d steps \<Longrightarrow> keeps_id sid f \<Longrightarrow> same_steps d (change_step sid f steps)"
  unfolding same_steps_def by (metis map_change_step)

lemma done_in_change_step:
  assumes "keeps_id sid f" "done_in steps dep" "\<not> done_in steps sid"
  shows "done_in (change_step sid f steps) dep"
  using assms by (fastforce simp: done_in_def change_step_def)

lemma deps_safe_change_step:
  assumes f: "keeps_id sid f"
    and safe: "deps_safe d steps" and undone: "\<not> done_in steps sid" and met: "deps_met d steps sid"
  shows "deps_safe d (change_step sid f steps)"
  unfolding deps_safe_def
proof (intro ballI impI)
  fix x assume x: "x \<in> set (change_step sid f steps)" "sr_State x \<noteq> StepPending"
  have "deps_met d steps (sr_StepID x)"
  proof (cases "sr_StepID x = sid")
    case True
    then show ?thesis using met by simp
  next
    case False
    then have "x \<in> set steps" using x f by (auto simp: change_step_def split: if_splits)
    then show ?thesis using safe x by (simp add: deps_safe_def)
  qed
  then show "deps_met d (change_step sid f steps) (sr_StepID x)"
    unfolding deps_met_def using done_in_change_step[OF f _ undone] by blast
qed

lemma active_not_done: "distinct (map sr_StepID steps) \<Longrightarrow> active_in steps sid \<Longrightarrow> \<not> done_in steps sid"
  unfolding active_in_def done_in_def step_done_def by (metis step_unique StepState.distinct)

lemma active_deps_met: "deps_safe d steps \<Longrightarrow> active_in steps sid \<Longrightarrow> deps_met d steps sid"
  by (auto simp: deps_safe_def active_in_def)

lemma active_in_change_other:
  "active_in steps x \<Longrightarrow> x \<noteq> sid \<Longrightarrow> active_in (change_step sid f steps) x"
  by (fastforce simp: active_in_def change_step_def)

lemma active_in_change_same:
  assumes "active_in steps sid" "\<forall>x. sr_StepID x = sid \<longrightarrow> sr_StepID (f x) = sid \<and> (sr_State (f x) = StepQueued \<or> sr_State (f x) = StepRunning)"
  shows "active_in (change_step sid f steps) sid"
  using assms by (fastforce simp: active_in_def change_step_def)

lemma update_first_change_step:
  assumes "distinct (map sr_StepID steps)" "sid \<in> sr_StepID ` set steps"
  shows "update_first (\<lambda>s. sr_StepID s = sid) f steps = Some (change_step sid f steps)"
proof -
  obtain ys where "update_first (\<lambda>s. sr_StepID s = sid) f steps = Some ys"
    using assms(2) by (cases "update_first (\<lambda>s. sr_StepID s = sid) f steps") (auto simp: update_first_None)
  then show ?thesis using update_first_map[OF assms(1)] by (simp add: change_step_def)
qed

section \<open>The invariant\<close>

definition to_vs :: "StepDefinition \<Rightarrow> StepDef" where
  "to_vs sd = \<lparr>vs_ID = sd_ID sd, vs_Handler = sd_Handler sd, vs_DependsOn = sd_DependsOn sd\<rparr>"

definition valid_definition :: "WorkflowDefinition \<Rightarrow> bool" where
  "valid_definition d \<longleftrightarrow> ValidateNamespace (wid_Namespace (wd_ID d)) = None \<and>
     ValidateDefinitionSteps (map to_vs (wd_Steps d)) = None"

definition run_inv :: "(string \<rightharpoonup> WorkflowDefinition) \<Rightarrow> Run \<Rightarrow> bool" where
  "run_inv defs r \<longleftrightarrow> no_slash (run_ID r) \<and> no_slash (run_Namespace r) \<and>
     (\<exists>d. defs (id_key (run_Workflow r)) = Some d \<and> wd_ID d = run_Workflow r \<and>
          same_steps d (run_Steps r) \<and> deps_safe d (run_Steps r))"

definition item_inv :: "(string \<rightharpoonup> Run) \<Rightarrow> QueueItem \<Rightarrow> bool" where
  "item_inv runs i \<longleftrightarrow> (\<exists>r. runs (runKey (qi_Namespace i) (qi_RunID i)) = Some r \<and>
     run_Namespace r = qi_Namespace i \<and> run_ID r = qi_RunID i \<and> active_in (run_Steps r) (qi_StepID i))"

definition engine_inv :: "Store \<Rightarrow> bool" where
  "engine_inv s \<longleftrightarrow> store_inv s \<and> (\<forall>d \<in> ran (st_definitions s). valid_definition d) \<and>
     (\<forall>r \<in> ran (st_runs s). run_inv (st_definitions s) r) \<and> (\<forall>i \<in> ran (st_queue s). item_inv (st_runs s) i)"

lemma engine_invD:
  assumes "engine_inv s"
  shows "store_inv s" "st_definitions s k = Some d \<Longrightarrow> valid_definition d"
    "st_runs s k = Some r \<Longrightarrow> run_inv (st_definitions s) r"
    "st_runs s k = Some r \<Longrightarrow> k = runKey (run_Namespace r) (run_ID r)"
    "st_queue s k = Some i \<Longrightarrow> item_inv (st_runs s) i"
    "st_queue s k = Some i \<Longrightarrow> k = queueKey (qi_Namespace i) (qi_RunID i) (qi_StepID i)"
  using assms store_inv_parts[of s] by (auto simp: engine_inv_def ranI filed_def)

text \<open>
  The step \<open>sid\<close> of the run \<open>r\<close> is changed by \<open>f\<close>, and the queue with it: the items of other steps stay, an
  item of the changed step may stay only if the step remains active.
\<close>

lemma engine_inv_change:
  assumes inv: "engine_inv s" and r: "st_runs s k = Some r" and d: "st_definitions s (id_key (run_Workflow r)) = Some d"
    and f: "keeps_id sid f"
    and undone: "\<not> done_in (run_Steps r) sid" and met: "deps_met d (run_Steps r) sid"
    and q: "\<And>k' i. queue k' = Some i \<Longrightarrow> st_queue s k' = Some i \<and> (qi_Namespace i, qi_RunID i, qi_StepID i) \<noteq> (run_Namespace r, run_ID r, sid)
      \<or> k' = queueKey (qi_Namespace i) (qi_RunID i) (qi_StepID i) \<and> (qi_Namespace i, qi_RunID i, qi_StepID i) = (run_Namespace r, run_ID r, sid) \<and>
        active_in (change_step sid f (run_Steps r)) sid"
    and fin: "finite (dom queue)"
    and r': "r' = r\<lparr>run_Steps := change_step sid f (run_Steps r)\<rparr>"
  shows "engine_inv (s\<lparr>st_runs := (st_runs s)(k \<mapsto> r'), st_queue := queue\<rparr>)"
proof -
  have k: "k = runKey (run_Namespace r) (run_ID r)" using engine_invD(4)[OF inv r] .
  have ri: "run_inv (st_definitions s) r" using engine_invD(3)[OF inv r] .
  have ri': "run_inv (st_definitions s) r'"
    using ri d deps_safe_change_step[OF f, of d "run_Steps r"] undone met map_change_step[OF f, of "run_Steps r"]
    by (auto simp: run_inv_def r' same_steps_def)
  have qi: "item_inv ((st_runs s)(k \<mapsto> r')) i \<and> k' = queueKey (qi_Namespace i) (qi_RunID i) (qi_StepID i)"
    if "queue k' = Some i" for k' i
    using q[OF that]
  proof
    assume old: "st_queue s k' = Some i \<and> (qi_Namespace i, qi_RunID i, qi_StepID i) \<noteq> (run_Namespace r, run_ID r, sid)"
    then obtain r1 where r1: "st_runs s (runKey (qi_Namespace i) (qi_RunID i)) = Some r1" "run_Namespace r1 = qi_Namespace i"
      "run_ID r1 = qi_RunID i" "active_in (run_Steps r1) (qi_StepID i)"
      using engine_invD(5)[OF inv] by (auto simp: item_inv_def)
    have "k' = queueKey (qi_Namespace i) (qi_RunID i) (qi_StepID i)" using old engine_invD(6)[OF inv] by blast
    moreover have "item_inv ((st_runs s)(k \<mapsto> r')) i"
    proof (cases "runKey (qi_Namespace i) (qi_RunID i) = k")
      case True
      then have "r1 = r" using r r1(1) by simp
      then show ?thesis using r1 old True active_in_change_other[of "run_Steps r" "qi_StepID i" sid f]
        by (auto simp: item_inv_def r')
    next
      case False
      then show ?thesis using r1 by (auto simp: item_inv_def)
    qed
    ultimately show ?thesis by blast
  next
    assume new: "k' = queueKey (qi_Namespace i) (qi_RunID i) (qi_StepID i) \<and>
      (qi_Namespace i, qi_RunID i, qi_StepID i) = (run_Namespace r, run_ID r, sid) \<and> active_in (change_step sid f (run_Steps r)) sid"
    then show ?thesis by (auto simp: item_inv_def k r')
  qed
  have "filed (\<lambda>i. queueKey (qi_Namespace i) (qi_RunID i) (qi_StepID i)) queue"
    using qi fin by (auto simp: filed_def)
  moreover have "filed (\<lambda>r. runKey (run_Namespace r) (run_ID r)) ((st_runs s)(k \<mapsto> r'))"
    using store_inv_parts(2)[OF engine_invD(1)[OF inv]] r by (rule filed_change) (simp add: r')
  ultimately have "store_inv (s\<lparr>st_runs := (st_runs s)(k \<mapsto> r'), st_queue := queue\<rparr>)"
    using engine_invD(1)[OF inv] by (simp add: store_inv_def)
  then show ?thesis using inv qi ri' by (auto simp: engine_inv_def ran_def)
qed

lemma engine_inv_fields:
  assumes inv: "engine_inv s" and r: "st_runs s k = Some r"
    and same: "run_Namespace r' = run_Namespace r" "run_ID r' = run_ID r" "run_Workflow r' = run_Workflow r" "run_Steps r' = run_Steps r"
  shows "engine_inv (s\<lparr>st_runs := (st_runs s)(k \<mapsto> r')\<rparr>)"
proof -
  have "filed (\<lambda>r. runKey (run_Namespace r) (run_ID r)) ((st_runs s)(k \<mapsto> r'))"
    using store_inv_parts(2)[OF engine_invD(1)[OF inv]] r by (rule filed_change) (simp add: same)
  then have st: "store_inv (s\<lparr>st_runs := (st_runs s)(k \<mapsto> r')\<rparr>)"
    using engine_invD(1)[OF inv] by (simp add: store_inv_def)
  have "run_inv (st_definitions s) r'" using engine_invD(3)[OF inv r] by (simp add: run_inv_def same)
  moreover have "item_inv ((st_runs s)(k \<mapsto> r')) i" if "item_inv (st_runs s) i" for i
    using that r same by (auto simp: item_inv_def)
  ultimately show ?thesis using inv st by (auto simp: engine_inv_def ran_def)
qed

section \<open>The operations of the engine\<close>

text \<open>The engine's copy of a run agrees with the store's up to the fields no step depends on.\<close>

definition local_copy :: "Run \<Rightarrow> Store \<Rightarrow> bool" where
  "local_copy r s \<longleftrightarrow> (\<exists>r'. st_runs s (runKey (run_Namespace r) (run_ID r)) = Some r' \<and>
     run_Namespace r' = run_Namespace r \<and> run_ID r' = run_ID r \<and> run_Workflow r' = run_Workflow r \<and> run_Steps r' = run_Steps r)"

lemma local_copyE:
  assumes "engine_inv s" "local_copy r s"
  obtains r' d where "st_runs s (runKey (run_Namespace r) (run_ID r)) = Some r'"
    "run_Namespace r' = run_Namespace r" "run_ID r' = run_ID r" "run_Workflow r' = run_Workflow r" "run_Steps r' = run_Steps r"
    "no_slash (run_Namespace r)" "no_slash (run_ID r)"
    "st_definitions s (id_key (run_Workflow r)) = Some d" "same_steps d (run_Steps r)" "deps_safe d (run_Steps r)"
proof -
  obtain r' where r': "st_runs s (runKey (run_Namespace r) (run_ID r)) = Some r'"
    "run_Namespace r' = run_Namespace r" "run_ID r' = run_ID r" "run_Workflow r' = run_Workflow r" "run_Steps r' = run_Steps r"
    using assms(2) by (auto simp: local_copy_def)
  have "run_inv (st_definitions s) r'" using engine_invD(3)[OF assms(1) r'(1)] .
  then show thesis using r' that unfolding run_inv_def by metis
qed

lemma UpdateStepState_change:
  assumes "st_runs s (runKey n i) = Some r" "distinct (map sr_StepID (run_Steps r))" "sr_StepID step \<in> sr_StepID ` set (run_Steps r)"
  shows "UpdateStepState n i step s =
    Inr (s\<lparr>st_runs := (st_runs s)(runKey n i \<mapsto> r\<lparr>run_Steps := change_step (sr_StepID step) (\<lambda>_. step) (run_Steps r)\<rparr>)\<rparr>)"
  using assms update_first_change_step[OF assms(2,3), of "\<lambda>_. step"] by (simp add: UpdateStepState_def)

lemma change_step_const:
  assumes "distinct (map sr_StepID steps)" "x \<in> set steps"
  shows "change_step (sr_StepID x) (\<lambda>_. f x) steps = change_step (sr_StepID x) f steps"
  unfolding change_step_def using step_unique[OF assms(1) _ assms(2)] by (intro map_cong refl) (metis)

lemma find_step:
  assumes "distinct (map sr_StepID steps)" "x \<in> set steps"
  shows "find (\<lambda>s. sr_StepID s = sr_StepID x) steps = Some x"
proof -
  obtain y where "find (\<lambda>s. sr_StepID s = sr_StepID x) steps = Some y"
    using assms(2) by (cases "find (\<lambda>s. sr_StepID s = sr_StepID x) steps") (auto simp: find_None_iff)
  moreover from find_Some_prop[OF this] have "y = x" using step_unique[OF assms(1) _ assms(2)] by blast
  ultimately show ?thesis by simp
qed

lemma touch_step_eq:
  assumes r: "st_runs (w_store w) (runKey (run_Namespace r) (run_ID r)) = Some r'" "run_Steps r' = run_Steps r"
    and dist: "distinct (map sr_StepID (run_Steps r))" and x: "x \<in> set (run_Steps r)" "sr_StepID x = sid"
    and f: "keeps_id sid f"
  shows "touch_step sid f r w =
    (r\<lparr>run_Steps := change_step sid f (run_Steps r)\<rparr>,
     w\<lparr>w_store := (w_store w)\<lparr>st_runs := (st_runs (w_store w))
        (runKey (run_Namespace r) (run_ID r) \<mapsto> r'\<lparr>run_Steps := change_step sid f (run_Steps r)\<rparr>)\<rparr>\<rparr>)"
proof -
  have id: "sr_StepID (f x) = sid" using f x(2) by blast
  have mem: "sid \<in> sr_StepID ` set (run_Steps r)" using x by blast
  have "UpdateStepState (run_Namespace r) (run_ID r) (f x) (w_store w) =
      Inr ((w_store w)\<lparr>st_runs := (st_runs (w_store w))
        (runKey (run_Namespace r) (run_ID r) \<mapsto> r'\<lparr>run_Steps := change_step sid f (run_Steps r)\<rparr>)\<rparr>)"
    using UpdateStepState_change[OF r(1), of "f x"] change_step_const[OF dist x(1), of f] dist mem
    by (simp add: r(2) id x(2))
  moreover have "find (\<lambda>s. sr_StepID s = sid) (run_Steps r) = Some x" using find_step[OF dist x(1)] x(2) by simp
  ultimately show ?thesis
    using update_first_change_step[OF dist mem, of f] by (simp add: touch_step_def ignoring_error_def)
qed

lemma emit_store [simp]: "w_store (emit e ev w) = w_store w"
  by (simp add: emit_def)

lemma emit_ticks [simp]: "w_ticks (emit e ev w) = w_ticks w" "w_calls (emit e ev w) = w_calls w"
  by (simp_all add: emit_def)

lemma local_copy_steps:
  assumes "local_copy r s" "same_steps d (run_Steps r)" "x \<in> set (run_Steps r)" "sr_StepID x = sid" "keeps_id sid f"
    "touch_step sid f r w = (r1, w1)" "w_store w = s"
  shows "run_Steps r1 = change_step sid f (run_Steps r)" "run_Namespace r1 = run_Namespace r" "run_ID r1 = run_ID r"
    "run_Workflow r1 = run_Workflow r" "local_copy r1 (w_store w1)" "st_queue (w_store w1) = st_queue s"
    "st_definitions (w_store w1) = st_definitions s" "w_ticks w1 = w_ticks w"
proof -
  obtain r' where r': "st_runs s (runKey (run_Namespace r) (run_ID r)) = Some r'"
    "run_Namespace r' = run_Namespace r" "run_ID r' = run_ID r" "run_Workflow r' = run_Workflow r" "run_Steps r' = run_Steps r"
    using assms(1) by (auto simp: local_copy_def)
  have dist: "distinct (map sr_StepID (run_Steps r))" using assms(2) by (rule same_steps_distinct)
  have t: "touch_step sid f r w =
    (r\<lparr>run_Steps := change_step sid f (run_Steps r)\<rparr>,
     w\<lparr>w_store := s\<lparr>st_runs := (st_runs s)
        (runKey (run_Namespace r) (run_ID r) \<mapsto> r'\<lparr>run_Steps := change_step sid f (run_Steps r)\<rparr>)\<rparr>\<rparr>)"
    using touch_step_eq[of w r r' x sid f] r'(1,5) dist assms(3-5) unfolding assms(7) by blast
  then show "run_Steps r1 = change_step sid f (run_Steps r)" "run_Namespace r1 = run_Namespace r" "run_ID r1 = run_ID r"
    "run_Workflow r1 = run_Workflow r" "st_queue (w_store w1) = st_queue s"
    "st_definitions (w_store w1) = st_definitions s" "w_ticks w1 = w_ticks w" using assms(6) by auto
  show "local_copy r1 (w_store w1)" using t assms(6) r'(2-4) by (auto simp: local_copy_def)
qed

text \<open>Changing a step of the local run and of the store, together with its queue item.\<close>

lemma touch_step_inv:
  assumes inv: "engine_inv s0" and lc: "local_copy r s0"
    and d: "st_definitions s0 (id_key (run_Workflow r)) = Some d"
    and x: "x \<in> set (run_Steps r)" "sr_StepID x = sid"
    and f: "keeps_id sid f" and undone: "\<not> done_in (run_Steps r) sid" and met: "deps_met d (run_Steps r) sid"
    and t: "touch_step sid f r w = (r1, w1)"
    and s: "w_store w = s0\<lparr>st_queue := queue\<rparr>" and fin: "finite (dom queue)"
    and q: "\<And>k' i. queue k' = Some i \<Longrightarrow> st_queue s0 k' = Some i \<and> (qi_Namespace i, qi_RunID i, qi_StepID i) \<noteq> (run_Namespace r, run_ID r, sid)
      \<or> k' = queueKey (qi_Namespace i) (qi_RunID i) (qi_StepID i) \<and> (qi_Namespace i, qi_RunID i, qi_StepID i) = (run_Namespace r, run_ID r, sid) \<and>
        active_in (change_step sid f (run_Steps r)) sid"
  shows "engine_inv (w_store w1)"
proof -
  obtain r' d' where r': "st_runs s0 (runKey (run_Namespace r) (run_ID r)) = Some r'"
    "run_Namespace r' = run_Namespace r" "run_ID r' = run_ID r" "run_Workflow r' = run_Workflow r" "run_Steps r' = run_Steps r"
    and dist: "distinct (map sr_StepID (run_Steps r))"
    using local_copyE[OF inv lc] by (metis same_steps_def)
  let ?r1 = "r'\<lparr>run_Steps := change_step sid f (run_Steps r)\<rparr>"
  have "st_runs (w_store w) (runKey (run_Namespace r) (run_ID r)) = Some r'" using r'(1) s by simp
  then have "w_store w1 = s0\<lparr>st_runs := (st_runs s0)(runKey (run_Namespace r) (run_ID r) \<mapsto> ?r1), st_queue := queue\<rparr>"
    using touch_step_eq[of w r r' x sid f] r'(5) dist x f t s by auto
  moreover have "engine_inv (s0\<lparr>st_runs := (st_runs s0)(runKey (run_Namespace r) (run_ID r) \<mapsto> ?r1), st_queue := queue\<rparr>)"
    by (rule engine_inv_change[OF inv r'(1) _ f _ _ _ fin]) (use r' d undone met q in auto)
  ultimately show ?thesis by simp
qed

lemma active_step:
  assumes "active_in steps sid"
  obtains x where "x \<in> set steps" "sr_StepID x = sid"
  using assms by (auto simp: active_in_def)

lemma queue_at:
  assumes "engine_inv s" "st_queue s k = Some i"
  shows "k = queueKey (qi_Namespace i) (qi_RunID i) (qi_StepID i)" "no_slash (qi_Namespace i)" "no_slash (qi_RunID i)"
proof -
  show "k = queueKey (qi_Namespace i) (qi_RunID i) (qi_StepID i)" using engine_invD(6)[OF assms] .
  obtain r where r: "st_runs s (runKey (qi_Namespace i) (qi_RunID i)) = Some r" "run_Namespace r = qi_Namespace i" "run_ID r = qi_RunID i"
    using engine_invD(5)[OF assms] by (auto simp: item_inv_def)
  then show "no_slash (qi_Namespace i)" "no_slash (qi_RunID i)"
    using engine_invD(3)[OF assms(1) r(1)] by (auto simp: run_inv_def)
qed

lemma finite_queue: "engine_inv s \<Longrightarrow> finite (dom (st_queue s))"
  using store_inv_parts(3)[OF engine_invD(1)] by (simp add: filed_def)

lemma engine_inv_dequeue:
  assumes "engine_inv s"
  shows "engine_inv (s\<lparr>st_queue := (st_queue s)(k := None)\<rparr>)"
  using assms filed_delete[of _ "st_queue s" k] by (auto simp: engine_inv_def store_inv_def ran_def split: if_splits)

lemma markStepRunning_inv:
  assumes inv: "engine_inv (w_store w)" and lc: "local_copy r (w_store w)" and act: "active_in (run_Steps r) (qi_StepID i)"
    and m: "markStepRunning r i at w = (r1, w1)"
  shows "engine_inv (w_store w1)" "active_in (run_Steps r1) (qi_StepID i)"
proof -
  let ?f = "\<lambda>s. s\<lparr>sr_State := StepRunning, sr_StartedAt := Some at\<rparr>"
  obtain r' d where d: "st_definitions (w_store w) (id_key (run_Workflow r)) = Some d" "same_steps d (run_Steps r)" "deps_safe d (run_Steps r)"
    by (rule local_copyE[OF inv lc])
  obtain x where x: "x \<in> set (run_Steps r)" "sr_StepID x = qi_StepID i" using act by (rule active_step)
  have f: "keeps_id (qi_StepID i) ?f" by simp
  have act': "active_in (change_step (qi_StepID i) ?f (run_Steps r)) (qi_StepID i)"
    by (rule active_in_change_same[OF act]) simp
  have t: "touch_step (qi_StepID i) ?f r w = (r1, w1)" using m by (simp add: markStepRunning_def)
  show "active_in (run_Steps r1) (qi_StepID i)"
    using local_copy_steps(1)[OF lc d(2) x f t refl] act' by simp
  show "engine_inv (w_store w1)"
    by (rule touch_step_inv[OF inv lc d(1) x f active_not_done[OF same_steps_distinct[OF d(2)] act] active_deps_met[OF d(3) act] t,
          of "st_queue (w_store w)"])
      (use finite_queue[OF inv] act' queue_at(1)[OF inv] in auto)
qed

lemma complete_touch_inv:
  assumes inv: "engine_inv s" and lc: "local_copy r s" and act: "active_in (run_Steps r) sid"
    and f: "keeps_id sid f" and t: "touch_step sid f r w = (r1, w1)"
    and s: "w_store w = s\<lparr>st_queue := (st_queue s)(queueKey (run_Namespace r) (run_ID r) sid := None)\<rparr>"
  shows "engine_inv (w_store w1)"
proof -
  obtain r' d where d: "st_definitions s (id_key (run_Workflow r)) = Some d" "same_steps d (run_Steps r)" "deps_safe d (run_Steps r)"
    by (rule local_copyE[OF inv lc])
  obtain x where x: "x \<in> set (run_Steps r)" "sr_StepID x = sid" using act by (rule active_step)
  show ?thesis
    by (rule touch_step_inv[OF inv lc d(1) x f active_not_done[OF same_steps_distinct[OF d(2)] act] active_deps_met[OF d(3) act] t s])
      (use finite_queue[OF inv] in \<open>auto split: if_splits dest: queue_at(1)[OF inv]\<close>)
qed

lemma ignoring_error_fields:
  assumes inv: "engine_inv (w_store w)"
  shows "engine_inv (w_store (ignoring_error (UpdateRunState n i to at) w))"
    "engine_inv (w_store (ignoring_error (UpdateRunError n i msg) w))"
  using engine_inv_fields[OF inv, of "runKey n i"] inv
  by (auto simp: ignoring_error_def UpdateRunState_def UpdateRunError_def split: sum.splits option.splits)

lemma ignoring_error_queue [simp]:
  "st_queue (w_store (ignoring_error (UpdateRunState n i to at) w)) = st_queue (w_store w)"
  "st_queue (w_store (ignoring_error (UpdateRunError n i msg) w)) = st_queue (w_store w)"
  "st_queue (w_store (ignoring_error (UpdateStepState n i step) w)) = st_queue (w_store w)"
  by (auto simp: ignoring_error_def UpdateRunState_def UpdateRunError_def UpdateStepState_def split: sum.splits option.splits)

lemma finishRun_inv:
  assumes "engine_inv (w_store w)"
  shows "engine_inv (w_store (finishRun e r to msg w)) \<and> st_queue (w_store (finishRun e r to msg w)) = st_queue (w_store w)"
proof -
  have "engine_inv (w_store (w\<lparr>w_ticks := w_ticks w + 1\<rparr>))" using assms by simp
  from ignoring_error_fields(1)[OF this] show ?thesis
    by (simp add: finishRun_def Let_def read_clock_def ignoring_error_fields(2))
qed

text \<open>Enqueueing: a pending step whose dependencies are met gets a queue item and becomes queued.\<close>

lemma enqueue_touch_inv:
  assumes inv: "engine_inv (w_store w)" and lc: "local_copy r (w_store w)"
    and d: "st_definitions (w_store w) (id_key (run_Workflow r)) = Some d"
    and x: "x \<in> set (run_Steps r)" "sr_StepID x = sr_StepID s" "sr_State x = StepPending" "deps_met d (run_Steps r) (sr_StepID s)"
    and t: "touch_step (sr_StepID s) (\<lambda>x. x\<lparr>sr_State := StepQueued\<rparr>) r
      (w\<lparr>w_store := Enqueue (queueItemFor r s now vis) (w_store w)\<rparr>) = (r1, w1)"
  shows "engine_inv (w_store w1)"
proof -
  let ?f = "\<lambda>x. x\<lparr>sr_State := StepQueued\<rparr>" and ?i = "queueItemFor r s now vis"
  let ?k = "queueKey (run_Namespace r) (run_ID r) (sr_StepID s)"
  have dist: "distinct (map sr_StepID (run_Steps r))"
    by (rule local_copyE[OF inv lc]) (rule same_steps_distinct)
  have undone: "\<not> done_in (run_Steps r) (sr_StepID s)"
    using step_unique[OF dist x(1)] x(2,3) by (auto simp: done_in_def step_done_def)
  have act: "active_in (change_step (sr_StepID s) ?f (run_Steps r)) (sr_StepID s)"
    unfolding active_in_def change_step_def using x(1,2) by (intro bexI[of _ "?f x"]) auto
  have s: "w_store (w\<lparr>w_store := Enqueue ?i (w_store w)\<rparr>) = (w_store w)\<lparr>st_queue := (st_queue (w_store w))(?k \<mapsto> ?i)\<rparr>"
    by (simp add: Enqueue_def queueItemFor_def)
  show ?thesis
    by (rule touch_step_inv[OF inv lc d x(1,2) _ undone x(4) t s])
      (use finite_queue[OF inv] act queue_at(1)[OF inv] in \<open>auto simp: queueItemFor_def split: if_splits\<close>)
qed

definition mark_queued :: "string set \<Rightarrow> StepRun list \<Rightarrow> StepRun list" where
  "mark_queued ids steps = map (\<lambda>x. if sr_StepID x \<in> ids then x\<lparr>sr_State := StepQueued\<rparr> else x) steps"

lemma mark_queued_change: "mark_queued ids (change_step sid (\<lambda>x. x\<lparr>sr_State := StepQueued\<rparr>) steps) = mark_queued (insert sid ids) steps"
  by (auto simp: mark_queued_def change_step_def)

lemma queueKey_step_inject [simp]: "queueKey n i x = queueKey n i y \<longleftrightarrow> x = y"
  by (simp add: queueKey_def)

lemma enqueue_steps_spec:
  assumes "enqueue_steps e now ss (r, w) = (r1, w1)" "engine_inv (w_store w)" "local_copy r (w_store w)"
    "st_definitions (w_store w) (id_key (run_Workflow r)) = Some d" "distinct (map sr_StepID ss)"
    "\<forall>s \<in> set ss. \<exists>x \<in> set (run_Steps r). sr_StepID x = sr_StepID s \<and> sr_State x = StepPending \<and> deps_met d (run_Steps r) (sr_StepID s)"
  shows "engine_inv (w_store w1) \<and> local_copy r1 (w_store w1) \<and> run_Namespace r1 = run_Namespace r \<and> run_ID r1 = run_ID r \<and>
    run_Workflow r1 = run_Workflow r \<and> run_Steps r1 = mark_queued (sr_StepID ` set ss) (run_Steps r) \<and>
    st_definitions (w_store w1) = st_definitions (w_store w) \<and> w_ticks w1 = w_ticks w \<and>
    (\<forall>s \<in> set ss. st_queue (w_store w1) (queueKey (run_Namespace r) (run_ID r) (sr_StepID s)) = Some (queueItemFor r s now now)) \<and>
    (\<forall>k. k \<notin> (\<lambda>s. queueKey (run_Namespace r) (run_ID r) (sr_StepID s)) ` set ss \<longrightarrow> st_queue (w_store w1) k = st_queue (w_store w) k)"
  using assms
proof (induction ss arbitrary: r w)
  case Nil
  then show ?case by (simp add: mark_queued_def)
next
  case (Cons s ss)
  let ?f = "\<lambda>x. x\<lparr>sr_State := StepQueued\<rparr>"
  let ?w1 = "w\<lparr>w_store := Enqueue (queueItemFor r s now now) (w_store w)\<rparr>"
  obtain r2 w2 where t: "touch_step (sr_StepID s) ?f r ?w1 = (r2, w2)" by (cases "touch_step (sr_StepID s) ?f r ?w1")
  define w3 where "w3 = emit e (new_event EventStepQueued r2 (sr_StepID s) now None (sr_Attempt s + 1)) w2"
  have rest: "enqueue_steps e now ss (r2, w3) = (r1, w1)" using Cons.prems(1) t by (simp add: w3_def)
  from Cons.prems(6) obtain x where x: "x \<in> set (run_Steps r)" "sr_StepID x = sr_StepID s" "sr_State x = StepPending"
    "deps_met d (run_Steps r) (sr_StepID s)" by auto
  have inv2: "engine_inv (w_store w2)" by (rule enqueue_touch_inv[OF Cons.prems(2,3,4) x t])
  obtain d' where ss': "same_steps d' (run_Steps r)" by (rule local_copyE[OF Cons.prems(2,3)])
  have lc1: "local_copy r (w_store ?w1)" using Cons.prems(3) by (simp add: local_copy_def Enqueue_def)
  note T = local_copy_steps[OF lc1 ss' x(1,2) _ t refl, simplified]
  have dist: "distinct (map sr_StepID (run_Steps r))" using ss' by (rule same_steps_distinct)
  have undone: "\<not> done_in (run_Steps r) (sr_StepID s)"
    unfolding done_in_def step_done_def using step_unique[OF dist x(1)] x(2,3) by (metis StepState.distinct(5,9))
  have later: "\<forall>s' \<in> set ss. \<exists>x \<in> set (run_Steps r2). sr_StepID x = sr_StepID s' \<and> sr_State x = StepPending \<and> deps_met d (run_Steps r2) (sr_StepID s')"
  proof
    fix s' assume s': "s' \<in> set ss"
    then obtain y where y: "y \<in> set (run_Steps r)" "sr_StepID y = sr_StepID s'" "sr_State y = StepPending" "deps_met d (run_Steps r) (sr_StepID s')"
      using Cons.prems(6) by auto
    have "sr_StepID s' \<noteq> sr_StepID s" using Cons.prems(5) s' by (auto simp: image_iff)
    then have "y \<in> set (run_Steps r2)" using y(1,2) unfolding T(1) by (force simp: change_step_def)
    moreover have "deps_met d (run_Steps r2) (sr_StepID s')"
      using y(4) done_in_change_step[of "sr_StepID s" ?f "run_Steps r", OF _ _ undone] unfolding T(1) deps_met_def by auto
    ultimately show "\<exists>x \<in> set (run_Steps r2). sr_StepID x = sr_StepID s' \<and> sr_State x = StepPending \<and> deps_met d (run_Steps r2) (sr_StepID s')"
      using y by blast
  qed
  have IH: "engine_inv (w_store w1) \<and> local_copy r1 (w_store w1) \<and> run_Namespace r1 = run_Namespace r2 \<and> run_ID r1 = run_ID r2 \<and>
    run_Workflow r1 = run_Workflow r2 \<and> run_Steps r1 = mark_queued (sr_StepID ` set ss) (run_Steps r2) \<and>
    st_definitions (w_store w1) = st_definitions (w_store w3) \<and> w_ticks w1 = w_ticks w3 \<and>
    (\<forall>s \<in> set ss. st_queue (w_store w1) (queueKey (run_Namespace r2) (run_ID r2) (sr_StepID s)) = Some (queueItemFor r2 s now now)) \<and>
    (\<forall>k. k \<notin> (\<lambda>s. queueKey (run_Namespace r2) (run_ID r2) (sr_StepID s)) ` set ss \<longrightarrow> st_queue (w_store w1) k = st_queue (w_store w3) k)"
    by (rule Cons.IH[OF rest]) (use inv2 T Cons.prems(4,5) later in \<open>simp_all add: w3_def Enqueue_def\<close>)
  have q3: "st_queue (w_store w3) = (st_queue (w_store w))(queueKey (run_Namespace r) (run_ID r) (sr_StepID s) \<mapsto> queueItemFor r s now now)"
    using T(6) by (simp add: w3_def Enqueue_def queueItemFor_def)
  have items: "queueItemFor r2 s' now now = queueItemFor r s' now now" for s' using T(2,3) by (simp add: queueItemFor_def)
  have fresh: "sr_StepID s \<notin> sr_StepID ` set ss" using Cons.prems(5) by simp
  have "st_queue (w_store w1) (queueKey (run_Namespace r) (run_ID r) (sr_StepID s)) = Some (queueItemFor r s now now)"
    using IH q3 fresh T(2,3) by (auto simp: image_iff)
  moreover have "run_Steps r1 = mark_queued (sr_StepID ` set (s # ss)) (run_Steps r)"
    using IH by (simp add: T(1) mark_queued_change)
  moreover have "st_queue (w_store w1) k = st_queue (w_store w) k"
    if "k \<notin> (\<lambda>s. queueKey (run_Namespace r) (run_ID r) (sr_StepID s)) ` set (s # ss)" for k
    using IH q3 that T(2,3) by auto
  ultimately show ?case using IH T items by (auto simp: w3_def Enqueue_def)
qed

subsection \<open>Completing and failing a step\<close>

definition ready_ids :: "WorkflowDefinition \<Rightarrow> StepRun list \<Rightarrow> string set" where
  "ready_ids d steps = {sr_StepID x | x. x \<in> set steps \<and> sr_State x = StepPending \<and> deps_met d steps (sr_StepID x)}"

lemma ready_ids_ReadySteps:
  "same_steps d (run_Steps r) \<Longrightarrow> sr_StepID ` set (ReadySteps (Some d) (Some r)) = ready_ids d (run_Steps r)"
  by (auto simp: set_ReadySteps ready_ids_def image_def)

lemma distinct_ReadySteps: "distinct (map sr_StepID (run_Steps r)) \<Longrightarrow> distinct (map sr_StepID (ReadySteps (Some d) (Some r)))"
  by (simp add: ReadySteps_def Let_def distinct_map_filter)

lemma enqueueReadySteps_spec:
  assumes e: "enqueueReadySteps e d r w = (r1, w1)" and inv: "engine_inv (w_store w)" and lc: "local_copy r (w_store w)"
    and d: "st_definitions (w_store w) (id_key (run_Workflow r)) = Some d" "same_steps d (run_Steps r)"
  shows "engine_inv (w_store w1)" "local_copy r1 (w_store w1)" "run_Namespace r1 = run_Namespace r" "run_ID r1 = run_ID r"
    "run_Workflow r1 = run_Workflow r" "run_Steps r1 = mark_queued (ready_ids d (run_Steps r)) (run_Steps r)"
    "st_definitions (w_store w1) = st_definitions (w_store w)" "w_ticks w1 = w_ticks w + 1"
    "x \<in> ready_ids d (run_Steps r) \<Longrightarrow> \<exists>i. st_queue (w_store w1) (queueKey (run_Namespace r) (run_ID r) x) = Some i \<and> qi_VisibleAt i = eng_now e (w_ticks w)"
    "k \<notin> queueKey (run_Namespace r) (run_ID r) ` ready_ids d (run_Steps r) \<Longrightarrow> st_queue (w_store w1) k = st_queue (w_store w) k"
proof -
  let ?w = "w\<lparr>w_ticks := w_ticks w + 1\<rparr>" and ?ss = "ReadySteps (Some d) (Some r)"
  have e': "enqueue_steps e (eng_now e (w_ticks w)) ?ss (r, ?w) = (r1, w1)"
    using e by (simp add: enqueueReadySteps_def read_clock_def)
  have ready: "\<forall>s \<in> set ?ss. \<exists>x \<in> set (run_Steps r). sr_StepID x = sr_StepID s \<and> sr_State x = StepPending \<and> deps_met d (run_Steps r) (sr_StepID s)"
    using set_ReadySteps[OF d(2)] by blast
  have S: "engine_inv (w_store w1) \<and> local_copy r1 (w_store w1) \<and> run_Namespace r1 = run_Namespace r \<and> run_ID r1 = run_ID r \<and>
    run_Workflow r1 = run_Workflow r \<and> run_Steps r1 = mark_queued (sr_StepID ` set ?ss) (run_Steps r) \<and>
    st_definitions (w_store w1) = st_definitions (w_store ?w) \<and> w_ticks w1 = w_ticks ?w \<and>
    (\<forall>s \<in> set ?ss. st_queue (w_store w1) (queueKey (run_Namespace r) (run_ID r) (sr_StepID s)) = Some (queueItemFor r s (eng_now e (w_ticks w)) (eng_now e (w_ticks w)))) \<and>
    (\<forall>k. k \<notin> (\<lambda>s. queueKey (run_Namespace r) (run_ID r) (sr_StepID s)) ` set ?ss \<longrightarrow> st_queue (w_store w1) k = st_queue (w_store ?w) k)"
    by (rule enqueue_steps_spec[OF e']) (use inv lc d ready distinct_ReadySteps[OF same_steps_distinct[OF d(2)]] in auto)
  note R = ready_ids_ReadySteps[OF d(2)]
  show "engine_inv (w_store w1)" "local_copy r1 (w_store w1)" "run_Namespace r1 = run_Namespace r" "run_ID r1 = run_ID r"
    "run_Workflow r1 = run_Workflow r" "run_Steps r1 = mark_queued (ready_ids d (run_Steps r)) (run_Steps r)"
    "st_definitions (w_store w1) = st_definitions (w_store w)" "w_ticks w1 = w_ticks w + 1"
    using S by (simp_all add: R)
  show "\<exists>i. st_queue (w_store w1) (queueKey (run_Namespace r) (run_ID r) x) = Some i \<and> qi_VisibleAt i = eng_now e (w_ticks w)"
    if "x \<in> ready_ids d (run_Steps r)"
    using that S unfolding R[symmetric] by (auto simp: queueItemFor_def)
  show "st_queue (w_store w1) k = st_queue (w_store w) k" if "k \<notin> queueKey (run_Namespace r) (run_ID r) ` ready_ids d (run_Steps r)"
    using that S unfolding R[symmetric] by (auto simp: image_image)
qed

lemma finishRun_state:
  assumes "st_runs (w_store w) (runKey (run_Namespace r) (run_ID r)) = Some r'"
  shows "\<exists>r''. st_runs (w_store (finishRun e r to msg w)) (runKey (run_Namespace r) (run_ID r)) = Some r'' \<and>
    run_State r'' = to \<and> run_Steps r'' = run_Steps r' \<and> run_Namespace r'' = run_Namespace r' \<and> run_ID r'' = run_ID r' \<and>
    run_Workflow r'' = run_Workflow r'"
    "st_definitions (w_store (finishRun e r to msg w)) = st_definitions (w_store w)"
    "w_ticks (finishRun e r to msg w) = w_ticks w + 1"
  using assms
  by (simp_all add: finishRun_def Let_def read_clock_def ignoring_error_def UpdateRunState_def UpdateRunError_def)

lemma finishRun_local_copy: "local_copy r (w_store w) \<Longrightarrow> local_copy r (w_store (finishRun e r to msg w))"
  unfolding local_copy_def using finishRun_state(1)[of w r] by metis

definition succeed :: "gotime \<Rightarrow> payload \<Rightarrow> StepRun \<Rightarrow> StepRun" where
  "succeed now out s = s\<lparr>sr_State := StepSucceeded, sr_FinishedAt := Some now, sr_Output := out\<rparr>"

lemma mark_queued_empty [simp]: "mark_queued {} steps = steps"
  by (simp add: mark_queued_def)

text \<open>
  What \<open>completeStep\<close> does, in one equation per part of the state: the step becomes succeeded, then the
  steps that are ready become queued; the item of the step leaves the queue and the ready steps get
  one; the run succeeds if every step is done.
\<close>

lemma completeStep_spec:
  assumes inv: "engine_inv (w_store w)" and lc: "local_copy r (w_store w)"
    and d: "st_definitions (w_store w) (id_key (run_Workflow r)) = Some d" "same_steps d (run_Steps r)"
    and item: "qi_Namespace (ql_Item l) = run_Namespace r" "qi_RunID (ql_Item l) = run_ID r" "qi_StepID (ql_Item l) = sid"
    and act: "active_in (run_Steps r) sid"
    and q: "st_queue (w_store w) (queueKey (run_Namespace r) (run_ID r) sid) \<noteq> None"
    and c: "completeStep e r d l out w = (w1, err)"
  defines "steps1 \<equiv> change_step sid (succeed (eng_now e (w_ticks w)) out) (run_Steps r)"
  shows "err = None \<and> engine_inv (w_store w1) \<and> st_definitions (w_store w1) = st_definitions (w_store w) \<and> w_ticks w1 = w_ticks w + 2 \<and>
    (\<exists>r1. local_copy r1 (w_store w1) \<and> run_Namespace r1 = run_Namespace r \<and> run_ID r1 = run_ID r \<and> run_Workflow r1 = run_Workflow r \<and>
       run_Steps r1 = mark_queued (ready_ids d steps1) steps1 \<and>
       (list_all (\<lambda>s. step_done (sr_State s)) steps1 \<longrightarrow>
         (\<exists>r2. st_runs (w_store w1) (runKey (run_Namespace r) (run_ID r)) = Some r2 \<and> run_State r2 = StateSucceeded))) \<and>
    (\<forall>x \<in> ready_ids d steps1. \<exists>i. st_queue (w_store w1) (queueKey (run_Namespace r) (run_ID r) x) = Some i \<and>
       qi_VisibleAt i = eng_now e (w_ticks w + 1)) \<and>
    (\<forall>k. k \<notin> queueKey (run_Namespace r) (run_ID r) ` ready_ids d steps1 \<longrightarrow>
       st_queue (w_store w1) k = ((st_queue (w_store w))(queueKey (run_Namespace r) (run_ID r) sid := None)) k)"
proof -
  let ?k = "queueKey (run_Namespace r) (run_ID r) sid" and ?f = "succeed (eng_now e (w_ticks w)) out"
  let ?s2 = "(w_store w)\<lparr>st_queue := (st_queue (w_store w))(?k := None)\<rparr>"
  let ?w2 = "w\<lparr>w_ticks := w_ticks w + 1, w_store := ?s2\<rparr>"
  obtain r1 w3 where t: "touch_step sid ?f r ?w2 = (r1, w3)" by (cases "touch_step sid ?f r ?w2")
  define w4 where "w4 = emit e (new_event EventStepDone r1 sid (eng_now e (w_ticks w)) None (qi_Attempt (ql_Item l))) w3"
  have f: "keeps_id sid ?f" by (simp add: succeed_def)
  obtain x where x: "x \<in> set (run_Steps r)" "sr_StepID x = sid" using act by (rule active_step)
  have lc2: "local_copy r ?s2" using lc by (simp add: local_copy_def)
  have "w_store ?w2 = ?s2" by simp
  note T = local_copy_steps[OF lc2 d(2) x f t this]
  have inv4: "engine_inv (w_store w4)" and lc4: "local_copy r1 (w_store w4)"
    using complete_touch_inv[OF inv lc act f t] T(5) by (simp_all add: w4_def)
  have steps: "run_Steps r1 = steps1" using T(1) by (simp add: steps1_def)
  have same1: "same_steps d steps1" unfolding steps1_def by (rule same_steps_change[OF d(2) f])
  have c': "completeStep e r d l out w = (if list_all (\<lambda>s. step_done (sr_State s)) (run_Steps r1)
      then (promoteRun e r1 w4, None) else (snd (enqueueReadySteps e d r1 w4), None))"
    using q t[unfolded succeed_def[abs_def]] by (auto simp: completeStep_def Let_def read_clock_def item CompleteStep_def w4_def)
  have ticks: "w_ticks w4 = w_ticks w + 1" using T(8) by (simp add: w4_def)
  have defs: "st_definitions (w_store w4) = st_definitions (w_store w)" using T(7) by (simp add: w4_def)
  have q4: "st_queue (w_store w4) = (st_queue (w_store w))(?k := None)" using T(6) by (simp add: w4_def)
  show ?thesis
  proof (cases "list_all (\<lambda>s. step_done (sr_State s)) steps1")
    case True
    then have "ready_ids d steps1 = {}" by (auto simp: ready_ids_def list_all_iff step_done_def)
    moreover have "w1 = promoteRun e r1 w4" "err = None" using c c' True steps by simp_all
    moreover obtain r2 where "st_runs (w_store w4) (runKey (run_Namespace r1) (run_ID r1)) = Some r2"
      using lc4 by (auto simp: local_copy_def)
    note F = finishRun_state[OF this, of e StateSucceeded "''''"]
    ultimately show ?thesis
      using finishRun_inv[OF inv4, of e r1 StateSucceeded "''''"] finishRun_local_copy[OF lc4, of e StateSucceeded "''''"]
        F T(2-4) steps ticks defs q4
      by (auto simp: promoteRun_def intro: exI[of _ r1])
  next
    case False
    obtain r5 w5 where e5: "enqueueReadySteps e d r1 w4 = (r5, w5)" by (cases "enqueueReadySteps e d r1 w4")
    have "st_definitions (w_store w4) (id_key (run_Workflow r1)) = Some d" using d(1) defs T(4) by simp
    note E = enqueueReadySteps_spec[OF e5 inv4 lc4 this, unfolded steps, OF same1]
    have "w1 = w5" "err = None" using c c' False steps e5 by simp_all
    then show ?thesis using E T(2-4) ticks defs q4 False by (auto intro!: exI[of _ r5])
  qed
qed

lemma failStep_inv:
  assumes inv: "engine_inv (w_store w)" and lc: "local_copy r (w_store w)"
    and item: "qi_Namespace (ql_Item l) = run_Namespace r" "qi_RunID (ql_Item l) = run_ID r"
    and act: "active_in (run_Steps r) (qi_StepID (ql_Item l))"
  shows "engine_inv (w_store (failStep e r l err w)) \<and>
    st_queue (w_store (failStep e r l err w)) = (st_queue (w_store w))(lease_key l := None)"
proof -
  let ?i = "ql_Item l" and ?s = "w_store w"
  define msg where "msg = (if error_text err = '''' then ''step failed'' else error_text err)"
  let ?f = "\<lambda>_ :: StepRun. failed_step ?i msg"
  obtain r' d where r': "st_runs ?s (runKey (run_Namespace r) (run_ID r)) = Some r'" "run_Namespace r' = run_Namespace r" "run_ID r' = run_ID r"
    "run_Workflow r' = run_Workflow r" "run_Steps r' = run_Steps r"
    and d: "st_definitions ?s (id_key (run_Workflow r)) = Some d" "same_steps d (run_Steps r)" "deps_safe d (run_Steps r)"
    by (rule local_copyE[OF inv lc])
  obtain x where x: "x \<in> set (run_Steps r)" "sr_StepID x = qi_StepID ?i" using act by (rule active_step)
  have mem: "qi_StepID ?i \<in> sr_StepID ` set (run_Steps r)" using x by (metis imageI)
  let ?r1 = "r'\<lparr>run_Steps := change_step (qi_StepID ?i) ?f (run_Steps r)\<rparr>"
  have up: "UpdateStepState (qi_Namespace ?i) (qi_RunID ?i) (failed_step ?i msg) ?s =
      Inr (?s\<lparr>st_runs := (st_runs ?s)(runKey (run_Namespace r) (run_ID r) \<mapsto> ?r1)\<rparr>)"
    using UpdateStepState_change[OF r'(1), of "failed_step ?i msg"] same_steps_distinct[OF d(2)] mem
    by (simp add: r'(5) item failed_step_def)
  define s4 where "s4 = ?s\<lparr>st_runs := (st_runs ?s)(runKey (run_Namespace r) (run_ID r) \<mapsto> ?r1), st_queue := (st_queue ?s)(lease_key l := None)\<rparr>"
  have k: "lease_key l = queueKey (run_Namespace r) (run_ID r) (qi_StepID ?i)" by (simp add: lease_key_def item)
  have "engine_inv s4"
    unfolding s4_def
    by (rule engine_inv_change[OF inv r'(1), where f = ?f and sid = "qi_StepID ?i" and d = d])
      (use d(1) r' active_not_done[OF same_steps_distinct[OF d(2)] act] active_deps_met[OF d(3) act] finite_queue[OF inv]
        in \<open>auto simp: failed_step_def k split: if_splits dest: queue_at(1)[OF inv]\<close>)
  moreover obtain w4 where "failStep e r l err w = finishRun e r StateFailed msg w4" "w_store w4 = s4"
  proof -
    have eq: "failStep e r l err w = finishRun e r StateFailed msg
        (ignoring_error (CompleteStep (qi_Namespace ?i) (qi_RunID ?i) (qi_StepID ?i) (ql_Token l))
          (emit e (new_event EventStepFailed r (qi_StepID ?i) (eng_now e (w_ticks w)) (Some [''error'' \<mapsto> AnyString msg]) (qi_Attempt ?i))
            (ignoring_error (UpdateStepState (qi_Namespace ?i) (qi_RunID ?i) (failed_step ?i msg)) (w\<lparr>w_ticks := w_ticks w + 1\<rparr>))))"
      by (simp add: failStep_def Let_def read_clock_def msg_def)
    show thesis by (rule that[OF eq]) (auto simp: ignoring_error_def up CompleteStep_def Let_def s4_def lease_key_def fun_upd_idem split: option.splits)
  qed
  ultimately show ?thesis using finishRun_inv[of w4 e r StateFailed msg] by (simp add: s4_def)
qed

subsection \<open>Executing a lease\<close>

definition lease_live :: "QueueLease \<Rightarrow> Store \<Rightarrow> bool" where
  "lease_live l s \<longleftrightarrow> st_queue s (lease_key l) \<noteq> None \<and> no_slash (qi_Namespace (ql_Item l)) \<and> no_slash (qi_RunID (ql_Item l))"

lemma lease_run:
  assumes inv: "engine_inv s" and live: "lease_live l s"
  obtains r d sd where "st_runs s (runKey (qi_Namespace (ql_Item l)) (qi_RunID (ql_Item l))) = Some r"
    "run_Namespace r = qi_Namespace (ql_Item l)" "run_ID r = qi_RunID (ql_Item l)" "local_copy r s"
    "active_in (run_Steps r) (qi_StepID (ql_Item l))"
    "st_definitions s (id_key (run_Workflow r)) = Some d" "same_steps d (run_Steps r)" "findStepDef d (qi_StepID (ql_Item l)) = Some sd"
proof -
  let ?it = "ql_Item l"
  obtain i where i: "st_queue s (lease_key l) = Some i" using live by (auto simp: lease_live_def)
  have eq: "qi_Namespace i = qi_Namespace ?it" "qi_RunID i = qi_RunID ?it" "qi_StepID i = qi_StepID ?it"
    using queue_at[OF inv i] live queueKey_inject[of "qi_Namespace ?it" "qi_Namespace i" "qi_RunID ?it" "qi_RunID i"]
    by (auto simp: lease_live_def lease_key_def)
  obtain r where r: "st_runs s (runKey (qi_Namespace ?it) (qi_RunID ?it)) = Some r" "run_Namespace r = qi_Namespace ?it"
    "run_ID r = qi_RunID ?it" "active_in (run_Steps r) (qi_StepID ?it)"
    using engine_invD(5)[OF inv i] by (auto simp: item_inv_def eq)
  have lc: "local_copy r s" using r by (simp add: local_copy_def)
  obtain r' d where d: "st_definitions s (id_key (run_Workflow r)) = Some d" "same_steps d (run_Steps r)"
    by (rule local_copyE[OF inv lc])
  obtain x where "x \<in> set (run_Steps r)" "sr_StepID x = qi_StepID ?it" using r(4) by (rule active_step)
  then have "qi_StepID ?it \<in> set (map sr_StepID (run_Steps r))" by (metis imageI list.set_map)
  then have "qi_StepID ?it \<in> sd_ID ` set (wd_Steps d)" using d(2) unfolding same_steps_def by (metis list.set_map)
  then obtain sd where "findStepDef d (qi_StepID ?it) = Some sd"
    by (cases "findStepDef d (qi_StepID ?it)") (auto simp: findStepDef_def find_None_iff)
  then show thesis using that r lc d by blast
qed

definition started :: "gotime \<Rightarrow> StepRun \<Rightarrow> StepRun" where
  "started at s = s\<lparr>sr_State := StepRunning, sr_StartedAt := Some at\<rparr>"

text \<open>
  After the handler is resolved, the step is marked as running and the handler is called; what
  remains is failing or completing the step.
\<close>

lemma executeLease_resolved:
  assumes inv: "engine_inv (w_store w)"
    and r: "st_runs (w_store w) (runKey (qi_Namespace (ql_Item l)) (qi_RunID (ql_Item l))) = Some r"
    "run_Namespace r = qi_Namespace (ql_Item l)" "run_ID r = qi_RunID (ql_Item l)" "local_copy r (w_store w)"
    "active_in (run_Steps r) (qi_StepID (ql_Item l))"
    and d: "st_definitions (w_store w) (id_key (run_Workflow r)) = Some d" "same_steps d (run_Steps r)"
    and sd: "findStepDef d (qi_StepID (ql_Item l)) = Some sd" and h: "Registry_Resolve (sd_Handler sd) (eng_registry e) = Inr h"
  obtains r1 w5 result ex where "engine_inv (w_store w5)" "local_copy r1 (w_store w5)" "run_Namespace r1 = run_Namespace r" "run_ID r1 = run_ID r"
    "run_Workflow r1 = run_Workflow r"
    "run_Steps r1 = change_step (qi_StepID (ql_Item l)) (started (eng_now e (w_ticks w))) (run_Steps r)"
    "active_in (run_Steps r1) (qi_StepID (ql_Item l))" "same_steps d (run_Steps r1)"
    "st_definitions (w_store w5) = st_definitions (w_store w)" "st_queue (w_store w5) = st_queue (w_store w)" "w_ticks w5 = w_ticks w + 2"
    "\<exists>hd n. (result, ex) = h_Execute h hd n"
    "executeLease e l w = (case ex of Some err \<Rightarrow> (failStep e r1 l err w5, Returned None)
       | None \<Rightarrow> (case res_Error result of Some err \<Rightarrow> (failStep e r1 l err w5, Returned None)
           | None \<Rightarrow> (case completeStep e r1 d l (res_Output result) w5 of (w6, err) \<Rightarrow> (w6, Returned err))))"
proof -
  let ?it = "ql_Item l" and ?at = "eng_now e (w_ticks w)" and ?w1 = "w\<lparr>w_ticks := w_ticks w + 1\<rparr>"
  obtain r1 w2 where m: "markStepRunning r ?it ?at ?w1 = (r1, w2)" by (cases "markStepRunning r ?it ?at ?w1")
  have inv1: "engine_inv (w_store ?w1)" and lc1: "local_copy r (w_store ?w1)" using inv r(4) by simp_all
  note M = markStepRunning_inv[OF inv1 lc1 r(5) m]
  obtain x where x: "x \<in> set (run_Steps r)" "sr_StepID x = qi_StepID ?it" using r(5) by (rule active_step)
  have f: "keeps_id (qi_StepID ?it) (started ?at)" by (simp add: started_def)
  have t: "touch_step (qi_StepID ?it) (started ?at) r ?w1 = (r1, w2)"
    using m by (simp add: markStepRunning_def started_def[abs_def])
  note T = local_copy_steps[OF lc1 d(2) x f t refl]
  define w4 where "w4 = emit e (new_event EventStepStarted r1 (qi_StepID ?it) (eng_now e (w_ticks w2)) None (qi_Attempt ?it)) (w2\<lparr>w_ticks := w_ticks w2 + 1\<rparr>)"
  define hd where "hd = \<lparr>hd_RunID = run_ID r1, hd_StepID = qi_StepID ?it, hd_Namespace = '''',
     hd_RunInput = ri_Payload (run_Input r1), hd_Deadline = sd_Timeout sd, hd_Now = eng_now e\<rparr>"
  define w5 where "w5 = w4\<lparr>w_calls := w_calls w4 + 1\<rparr>"
  obtain result ex where res: "h_Execute h hd (w_calls w4) = (result, ex)" by (cases "h_Execute h hd (w_calls w4)")
  have st: "w_store w5 = w_store w2" by (simp add: w5_def w4_def)
  have "executeLease e l w = (case ex of Some err \<Rightarrow> (failStep e r1 l err w5, Returned None)
       | None \<Rightarrow> (case res_Error result of Some err \<Rightarrow> (failStep e r1 l err w5, Returned None)
           | None \<Rightarrow> (case completeStep e r1 d l (res_Output result) w5 of (w6, err) \<Rightarrow> (w6, Returned err))))"
    using r(1) d(1) sd h m res
    by (cases ex; cases "res_Error result") (simp_all add: executeLease_def Let_def GetRun_def GetDefinition_def read_clock_def w5_def w4_def hd_def)
  moreover have "\<exists>hd n. (result, ex) = h_Execute h hd n" using res[symmetric] by blast
  ultimately show thesis
    by (intro that[of w5 r1 result ex]) (use M T same_steps_change[OF d(2) f] in \<open>simp_all add: st w5_def w4_def\<close>)
qed

lemma executeLease_inv:
  assumes inv: "engine_inv (w_store w)" and live: "lease_live l (w_store w)" and ex: "executeLease e l w = (w', out)"
  shows "engine_inv (w_store w') \<and> out = Returned None \<and>
    (\<forall>k. k \<noteq> lease_key l \<longrightarrow> st_queue (w_store w) k \<noteq> None \<longrightarrow> st_queue (w_store w') k \<noteq> None)"
proof -
  obtain r d sd where r: "st_runs (w_store w) (runKey (qi_Namespace (ql_Item l)) (qi_RunID (ql_Item l))) = Some r"
    "run_Namespace r = qi_Namespace (ql_Item l)" "run_ID r = qi_RunID (ql_Item l)" "local_copy r (w_store w)"
    "active_in (run_Steps r) (qi_StepID (ql_Item l))"
    and d: "st_definitions (w_store w) (id_key (run_Workflow r)) = Some d" "same_steps d (run_Steps r)"
    and sd: "findStepDef d (qi_StepID (ql_Item l)) = Some sd"
    by (rule lease_run[OF inv live])
  show ?thesis
  proof (cases "Registry_Resolve (sd_Handler sd) (eng_registry e)")
    case (Inl err)
    then have "executeLease e l w = (failStep e r l err w, Returned None)"
      using r(1) d(1) sd by (simp add: executeLease_def Let_def GetRun_def GetDefinition_def)
    then show ?thesis using ex failStep_inv[OF inv r(4), of l e err] r(2,3,5) by auto
  next
    case (Inr h)
    obtain r1 w5 exErr and result :: Result where w5: "engine_inv (w_store w5)" "local_copy r1 (w_store w5)" "run_Namespace r1 = run_Namespace r" "run_ID r1 = run_ID r"
      "run_Workflow r1 = run_Workflow r" "active_in (run_Steps r1) (qi_StepID (ql_Item l))" "same_steps d (run_Steps r1)"
      "st_definitions (w_store w5) = st_definitions (w_store w)" "st_queue (w_store w5) = st_queue (w_store w)"
      and eq: "executeLease e l w = (case exErr of Some err \<Rightarrow> (failStep e r1 l err w5, Returned None)
         | None \<Rightarrow> (case res_Error result of Some err \<Rightarrow> (failStep e r1 l err w5, Returned None)
             | None \<Rightarrow> (case completeStep e r1 d l (res_Output result) w5 of (w6, err) \<Rightarrow> (w6, Returned err))))"
      by (rule executeLease_resolved[OF inv r d sd Inr])
    have fail: ?thesis if "executeLease e l w = (failStep e r1 l err w5, Returned None)" for err
      using that ex failStep_inv[OF w5(1,2), of l e err] r(2,3) w5(3,4,6,9) by auto
    obtain w6 err where c: "completeStep e r1 d l (res_Output result) w5 = (w6, err)"
      by (cases "completeStep e r1 d l (res_Output result) w5")
    have k: "lease_key l = queueKey (run_Namespace r1) (run_ID r1) (qi_StepID (ql_Item l))" using r(2,3) w5(3,4) by (simp add: lease_key_def)
    have dd: "st_definitions (w_store w5) (id_key (run_Workflow r1)) = Some d" using d(1) w5(5,8) by simp
    have it: "qi_Namespace (ql_Item l) = run_Namespace r1" "qi_RunID (ql_Item l) = run_ID r1" using r(2,3) w5(3,4) by simp_all
    have qq: "st_queue (w_store w5) (queueKey (run_Namespace r1) (run_ID r1) (qi_StepID (ql_Item l))) \<noteq> None"
      using live w5(9) k by (simp add: lease_live_def)
    define R where "R = ready_ids d (change_step (qi_StepID (ql_Item l)) (succeed (eng_now e (w_ticks w5)) (res_Output result)) (run_Steps r1))"
    note C0 = completeStep_spec[OF w5(1,2) dd w5(7) it refl w5(6) qq c, folded R_def k]
    note C = C0[THEN conjunct1] C0[THEN conjunct2, THEN conjunct1]
    have C3: "st_queue (w_store w6) (queueKey (run_Namespace r1) (run_ID r1) x) \<noteq> None" if "x \<in> R" for x
      using C0[THEN conjunct2, THEN conjunct2, THEN conjunct2, THEN conjunct2, THEN conjunct2, THEN conjunct1] that by auto
    have C4: "st_queue (w_store w6) k' = ((st_queue (w_store w5))(lease_key l := None)) k'"
      if "k' \<notin> queueKey (run_Namespace r1) (run_ID r1) ` R" for k'
      using C0[THEN conjunct2, THEN conjunct2, THEN conjunct2, THEN conjunct2, THEN conjunct2, THEN conjunct2] that by blast
    show ?thesis
    proof (cases "exErr = None \<and> res_Error result = None")
      case True
      then have "w' = w6" "out = Returned err" using ex eq c by auto
      moreover have "st_queue (w_store w6) k' \<noteq> None" if "k' \<noteq> lease_key l" "st_queue (w_store w) k' \<noteq> None" for k'
        using C3 C4[of k'] that w5(9) by (cases "k' \<in> queueKey (run_Namespace r1) (run_ID r1) ` R") auto
      ultimately show ?thesis using C by simp
    next
      case False
      then show ?thesis using eq fail by (auto split: option.splits)
    qed
  qed
qed

lemma process_leases_inv:
  assumes "engine_inv (w_store w)" "\<forall>l \<in> set ls. lease_live l (w_store w)" "distinct (map lease_key ls)"
    "process_leases e ls w = (w', out)"
  shows "engine_inv (w_store w') \<and> out = Returned None"
  using assms
proof (induction ls arbitrary: w)
  case (Cons l ls)
  obtain w1 o1 where ex: "executeLease e l w = (w1, o1)" by (cases "executeLease e l w")
  have I: "engine_inv (w_store w1) \<and> o1 = Returned None \<and>
    (\<forall>k. k \<noteq> lease_key l \<longrightarrow> st_queue (w_store w) k \<noteq> None \<longrightarrow> st_queue (w_store w1) k \<noteq> None)"
    by (rule executeLease_inv[OF Cons.prems(1) _ ex]) (use Cons.prems(2) in simp)
  have "\<forall>m \<in> set ls. lease_live m (w_store w1)"
    using I Cons.prems(2,3) by (auto simp: lease_live_def image_iff)
  then show ?case using Cons.IH[of w1] I Cons.prems ex by auto
qed simp

subsection \<open>Submitting a run\<close>

lemma hex_digit_no_slash: "d < 16 \<Longrightarrow> hex_digit d \<noteq> CHR ''/''"
proof -
  assume "d < 16"
  then have "hex_digit d \<in> set ''0123456789abcdef''" unfolding hex_digit_def by (intro nth_mem) simp
  then show ?thesis by auto
qed

lemma nat_hex_no_slash: "no_slash (nat_hex n)"
proof (induction n rule: nat_hex.induct)
  case (1 n)
  then show ?case
    using hex_digit_no_slash[of n] hex_digit_no_slash[of "n mod 16"]
    by (subst nat_hex.simps) (auto simp: no_slash_def)
qed

lemma run_ID_no_slash: "no_slash ('':'' @ int_hex i)"
  using nat_hex_no_slash[of "nat i"] nat_hex_no_slash[of "nat (- i)"] by (auto simp: int_hex_def no_slash_def)

lemma valid_definition_facts:
  assumes "valid_definition d"
  shows "no_slash (wid_Namespace (wd_ID d))" "wd_Steps d \<noteq> []" "distinct (map sd_ID (wd_Steps d))"
    "x \<in> set (wd_Steps d) \<Longrightarrow> sd_Handler x \<noteq> [] \<and> no_slash (sd_ID x)"
proof -
  have v: "ValidateDefinitionSteps (map to_vs (wd_Steps d)) = None" "nameRe_MatchString (wid_Namespace (wd_ID d))"
    using assms by (simp_all add: valid_definition_def ValidateNamespace_None)
  have "validate_steps {} (map to_vs (wd_Steps d)) = None" and ne: "wd_Steps d \<noteq> []"
    using v(1) by (simp_all add: ValidateDefinitionSteps_def split: if_splits)
  then have "distinct (map vs_ID (map to_vs (wd_Steps d)))"
    and all: "\<forall>s \<in> set (map to_vs (wd_Steps d)). nameRe_MatchString (vs_ID s) \<and> vs_Handler s \<noteq> []"
    unfolding validate_steps_None by blast+
  then show "distinct (map sd_ID (wd_Steps d))" by (simp add: to_vs_def comp_def)
  show "no_slash (wid_Namespace (wd_ID d))" using nameRe_no_slash[OF v(2)] by (simp add: no_slash_def)
  show "wd_Steps d \<noteq> []" by (rule ne)
  show "sd_Handler x \<noteq> [] \<and> no_slash (sd_ID x)" if "x \<in> set (wd_Steps d)"
    using all that nameRe_no_slash by (auto simp: to_vs_def no_slash_def)
qed

lemma CreateRun_inv:
  assumes inv: "engine_inv s" and d: "st_definitions s (id_key (wd_ID d)) = Some d"
    and r: "run_Namespace r = wid_Namespace (wd_ID d)" "run_Workflow r = wd_ID d" "no_slash (run_ID r)" "run_Steps r = map new_step (wd_Steps d)"
    and c: "CreateRun r s = Inr s2"
  shows "engine_inv s2" "st_runs s (runKey (run_Namespace r) (run_ID r)) = None"
    "s2 = s\<lparr>st_runs := (st_runs s)(runKey (run_Namespace r) (run_ID r) \<mapsto> r)\<rparr>"
proof -
  let ?k = "runKey (run_Namespace r) (run_ID r)"
  show fresh: "st_runs s ?k = None" and s2: "s2 = s\<lparr>st_runs := (st_runs s)(?k \<mapsto> r)\<rparr>"
    using c by (auto simp: CreateRun_def Let_def split: option.splits)
  note V = valid_definition_facts[OF engine_invD(2)[OF inv d]]
  have "same_steps d (run_Steps r)" using V(3) by (simp add: same_steps_def r(4) new_step_def comp_def)
  moreover have "deps_safe d (run_Steps r)" by (auto simp: deps_safe_def r(4) new_step_def)
  ultimately have "run_inv (st_definitions s) r" using d V(1) r by (auto simp: run_inv_def)
  moreover have "item_inv ((st_runs s)(?k \<mapsto> r)) i" if "item_inv (st_runs s) i" for i
    using that fresh by (auto simp: item_inv_def)
  moreover have "store_inv s2" using store_inv_step[OF store_step.intros(3)[OF c] engine_invD(1)[OF inv]] .
  ultimately show "engine_inv s2" using inv s2 by (auto simp: engine_inv_def ran_def)
qed

lemma GetDefinitionByName_Inr:
  assumes "store_inv s" "enumerates ks (st_definitions s)" "GetDefinitionByName ks ns nm s = Inr d"
  shows "st_definitions s (id_key (wd_ID d)) = Some d \<and> named ns nm d"
proof -
  have l: "latest_definition ns nm (map_values ks (st_definitions s)) None = Some d"
    using assms(3) by (auto simp: GetDefinitionByName_def split: option.splits)
  have "named ns nm d" "d \<in> ran (st_definitions s)"
    using latest_definition_spec[OF l] set_map_values_enum[OF assms(2)] by auto
  then show ?thesis using store_inv_parts(1)[OF assms(1)] by (auto simp: ran_def filed_def)
qed

text \<open>
  A successful \<open>Submit\<close>: which definition it used, and the run it created. The steps without open
  dependencies are queued, the others are pending.
\<close>

lemma Submit_spec:
  assumes inv: "engine_inv (w_store w)" and ks: "enumerates ks (st_definitions (w_store w))"
    and sub: "Submit ks nanos e input w = (w', Inr rid)"
  obtains d r where "GetDefinitionByName ks (wid_Namespace (ri_Workflow input)) (wid_Name (ri_Workflow input)) (w_store w) = Inr d"
    "st_definitions (w_store w') (id_key (wd_ID d)) = Some d" "st_definitions (w_store w') = st_definitions (w_store w)"
    "rid = '':'' @ int_hex nanos" "engine_inv (w_store w')" "local_copy r (w_store w')"
    "st_runs (w_store w) (runKey (run_Namespace r) rid) = None"
    "run_Namespace r = wid_Namespace (wd_ID d)" "run_ID r = rid" "run_Workflow r = wd_ID d"
    "run_Steps r = mark_queued (ready_ids d (map new_step (wd_Steps d))) (map new_step (wd_Steps d))"
    "\<forall>x \<in> ready_ids d (map new_step (wd_Steps d)). \<exists>i. st_queue (w_store w') (queueKey (run_Namespace r) rid x) = Some i \<and>
       qi_VisibleAt i = eng_now e (w_ticks w + 1)"
    "\<forall>k. k \<notin> queueKey (run_Namespace r) rid ` ready_ids d (map new_step (wd_Steps d)) \<longrightarrow> st_queue (w_store w') k = st_queue (w_store w) k"
    "w_ticks w' = w_ticks w + 2"
proof -
  let ?now = "eng_now e (w_ticks w)" and ?w1 = "w\<lparr>w_ticks := w_ticks w + 1\<rparr>"
  have sub': "Submit ks nanos e input w = (w', Inr rid)" by (rule sub)
  obtain d where d: "GetDefinitionByName ks (wid_Namespace (ri_Workflow input)) (wid_Name (ri_Workflow input)) (w_store w) = Inr d"
    using sub by (auto simp: Submit_def read_clock_def split: sum.splits)
  have dd: "st_definitions (w_store w) (id_key (wd_ID d)) = Some d"
    using GetDefinitionByName_Inr[OF engine_invD(1)[OF inv] ks d] by blast
  obtain r where r: "NewRun nanos (Some d) (input\<lparr>ri_Workflow := wd_ID d\<rparr>) ?now = Inr r"
    using sub d by (auto simp: Submit_def read_clock_def split: sum.splits)
  then have rf: "run_Namespace r = wid_Namespace (wd_ID d)" "run_Workflow r = wd_ID d" "run_ID r = '':'' @ int_hex nanos"
    "run_Steps r = map new_step (wd_Steps d)" by (auto simp: NewRun_def Let_def split: if_splits)
  obtain s2 where s2: "CreateRun r (w_store w) = Inr s2"
    using sub d r by (auto simp: Submit_def read_clock_def split: sum.splits)
  note C = CreateRun_inv[OF inv dd rf(1,2) _ rf(4) s2, unfolded rf(3), OF run_ID_no_slash, folded rf(3)]
  let ?k = "runKey (run_Namespace r) (run_ID r)" and ?r3 = "set_run_state StateQueued ?now r"
  define s3 where "s3 = s2\<lparr>st_runs := (st_runs s2)(?k \<mapsto> ?r3)\<rparr>"
  have up: "UpdateRunState (run_Namespace r) (run_ID r) StateQueued ?now s2 = Inr s3"
    by (simp add: UpdateRunState_def C(3) s3_def)
  have inv3: "engine_inv s3" unfolding s3_def by (rule engine_inv_fields[OF C(1), of ?k r]) (simp_all add: C(3))
  have lc3: "local_copy r s3" by (simp add: local_copy_def s3_def)
  have d3: "st_definitions s3 = st_definitions (w_store w)" and q3: "st_queue s3 = st_queue (w_store w)" by (simp_all add: s3_def C(3))
  obtain r4 w4 where e4: "enqueueReadySteps e d r (?w1\<lparr>w_store := s3\<rparr>) = (r4, w4)"
    by (cases "enqueueReadySteps e d r (?w1\<lparr>w_store := s3\<rparr>)")
  have same: "same_steps d (run_Steps r)"
    using valid_definition_facts(3)[OF engine_invD(2)[OF inv dd]] by (simp add: same_steps_def rf(4) new_step_def comp_def)
  have "engine_inv (w_store (?w1\<lparr>w_store := s3\<rparr>))" "local_copy r (w_store (?w1\<lparr>w_store := s3\<rparr>))"
    "st_definitions (w_store (?w1\<lparr>w_store := s3\<rparr>)) (id_key (run_Workflow r)) = Some d"
    using inv3 lc3 d3 dd rf(2) by simp_all
  note E = enqueueReadySteps_spec[OF e4 this same]
  have res: "rid = run_ID r4" "w_store w' = w_store w4" "w_ticks w' = w_ticks w4"
    using sub d r s2 up e4 by (auto simp: Submit_def read_clock_def Let_def)
  show thesis
    by (rule that[of d r4]) (use d dd d3 q3 C(2) rf res E in \<open>simp_all\<close>)
qed

lemma Submit_inv:
  assumes inv: "engine_inv (w_store w)" and ks: "enumerates ks (st_definitions (w_store w))"
    and sub: "Submit ks nanos e input w = (w', res)"
  shows "engine_inv (w_store w')"
proof (cases res)
  case (Inr rid)
  show ?thesis by (rule Submit_spec[OF inv ks sub[unfolded Inr]])
next
  case (Inl err)
  have "w_store w' = w_store w"
  proof -
    have "UpdateRunState (run_Namespace r) (run_ID r) to at s2 \<noteq> Inl e'" if "CreateRun r s = Inr s2" for r s s2 to at e'
      using that by (auto simp: CreateRun_def UpdateRunState_def Let_def split: option.splits)
    then show ?thesis using sub Inl
      by (auto simp: Submit_def read_clock_def Let_def split: sum.splits prod.splits)
  qed
  then show ?thesis using inv by simp
qed

subsection \<open>Queue items\<close>

lemma engine_inv_items:
  assumes inv: "engine_inv s"
    and q: "\<And>k i. queue k = Some i \<Longrightarrow> \<exists>j. st_queue s k = Some j \<and> qi_Namespace j = qi_Namespace i \<and> qi_RunID j = qi_RunID i \<and> qi_StepID j = qi_StepID i"
  shows "engine_inv (s\<lparr>st_queue := queue\<rparr>)"
proof -
  have "filed (\<lambda>i. queueKey (qi_Namespace i) (qi_RunID i) (qi_StepID i)) queue"
    by (rule filed_mono[OF store_inv_parts(3)[OF engine_invD(1)[OF inv]]]) (use q in fastforce)
  then have "store_inv (s\<lparr>st_queue := queue\<rparr>)" using engine_invD(1)[OF inv] by (simp add: store_inv_def)
  moreover have "item_inv (st_runs s) i" if "queue k = Some i" for k i
    using q[OF that] engine_invD(5)[OF inv] by (metis item_inv_def)
  ultimately show ?thesis using inv by (auto simp: engine_inv_def ran_def)
qed

lemma release_all_inv: "engine_inv s \<Longrightarrow> engine_inv (release_all clk n items s)"
proof (induction clk n items s rule: release_all.induct)
  case (2 clk n item items s)
  show ?case
  proof (cases "ReleaseStep (clk n) (qi_Namespace item) (qi_RunID item) (qi_StepID item) s")
    case (Inr s')
    then obtain i where "s' = s\<lparr>st_queue := (st_queue s)(queueKey (qi_Namespace item) (qi_RunID item) (qi_StepID item) \<mapsto> i\<lparr>qi_VisibleAt := clk n\<rparr>)\<rparr>"
      "st_queue s (queueKey (qi_Namespace item) (qi_RunID item) (qi_StepID item)) = Some i"
      by (auto simp: ReleaseStep_def Let_def split: option.splits)
    then have "engine_inv s'" by (simp only:) (rule engine_inv_items[OF 2(3)], auto split: if_splits)
    then show ?thesis using Inr 2(2) by simp
  qed (use 2 in simp)
qed simp

lemma dequeueLeases_inv:
  assumes inv: "engine_inv (w_store w)" and ks: "enumerates ks (st_queue (w_store w))"
    and dq: "dequeueLeases ks tokens e w = (w1, ls)"
  shows "engine_inv (w_store w1)" "\<forall>l \<in> set ls. lease_live l (w_store w1)" "distinct (map lease_key ls)"
proof -
  obtain s1 where s1: "DequeueAny ks tokens (eng_maxDequeue e) (eng_now e (w_ticks w)) (w_store w) = (s1, ls)" "w_store w1 = s1"
    using dq by (auto simp: dequeueLeases_def read_clock_def split: prod.splits)
  note D = DequeueAny_sel[OF engine_invD(1)[OF inv] ks s1(1)]
  obtain sel where sel: "s1 = (w_store w)\<lparr>st_queue := lease_all (eng_now e (w_ticks w)) sel (st_queue (w_store w))\<rparr>"
    using DequeueAny_queue[OF _ s1(1)] ks by (auto simp: enumerates_def)
  show inv1: "engine_inv (w_store w1)"
    unfolding s1(2) sel by (rule engine_inv_items[OF inv]) (auto simp: lease_all_def split: if_splits)
  show "\<forall>l \<in> set ls. lease_live l (w_store w1)"
    using D(3) queue_at(2,3)[OF inv1] unfolding lease_live_def s1(2) by fastforce
  show "distinct (map lease_key ls)" by (rule D(1))
qed

lemma ProcessLeases_inv:
  assumes "engine_inv (w_store w)" "enumerates ks (st_queue (w_store w))" "ProcessLeases ks tokens e w = (w', out)"
  shows "engine_inv (w_store w') \<and> out = Returned None"
proof -
  obtain w1 ls where dq: "dequeueLeases ks tokens e w = (w1, ls)" by (cases "dequeueLeases ks tokens e w")
  then have "process_leases e ls w1 = (w', out)" using assms(3) by (simp add: ProcessLeases_def)
  then show ?thesis using process_leases_inv[OF dequeueLeases_inv[OF assms(1,2) dq]] by blast
qed

lemma CreateDefinition_inv:
  assumes inv: "engine_inv s" and v: "valid_definition d" and c: "CreateDefinition d s = Inr s'"
  shows "engine_inv s'"
proof -
  have fresh: "st_definitions s (id_key (wd_ID d)) = None" and s': "s' = s\<lparr>st_definitions := (st_definitions s)(id_key (wd_ID d) \<mapsto> d)\<rparr>"
    using c by (auto simp: CreateDefinition_def Let_def split: option.splits)
  have "run_inv ((st_definitions s)(id_key (wd_ID d) \<mapsto> d)) r" if "run_inv (st_definitions s) r" for r
    using that fresh by (fastforce simp: run_inv_def)
  moreover have "store_inv s'" using store_inv_step[OF store_step.intros(1)[OF c] engine_invD(1)[OF inv]] .
  ultimately show ?thesis using inv v s' by (auto simp: engine_inv_def ran_def)
qed

section \<open>Runs of the engine\<close>

text \<open>
  The worlds that arise from an empty store when validated definitions are created, runs are
  submitted and cancelled, leases are processed and the lease reaper runs, one call after the other,
  in any order and with any clock, handlers and iteration orders.
\<close>

inductive engine_reach :: "World \<Rightarrow> bool" where
  empty: "w_store w = Store_New \<Longrightarrow> engine_reach w"
| define_workflow: "engine_reach w \<Longrightarrow> valid_definition d \<Longrightarrow> CreateDefinition d (w_store w) = Inr s \<Longrightarrow> engine_reach (w\<lparr>w_store := s\<rparr>)"
| submit: "engine_reach w \<Longrightarrow> enumerates ks (st_definitions (w_store w)) \<Longrightarrow> Submit ks nanos e input w = (w', res) \<Longrightarrow> engine_reach w'"
| process: "engine_reach w \<Longrightarrow> enumerates ks (st_queue (w_store w)) \<Longrightarrow> ProcessLeases ks tokens e w = (w', out) \<Longrightarrow> engine_reach w'"
| cancel: "engine_reach w \<Longrightarrow> Cancel e n i w = (w', err) \<Longrightarrow> engine_reach w'"
| reap: "engine_reach w \<Longrightarrow> engine_reach (w\<lparr>w_store := LeaseReaper_runOnce ks clk opts now (w_store w)\<rparr>)"

lemma engine_inv_New: "engine_inv Store_New"
  using store_inv_reachable[OF store_reachable.init] by (auto simp: engine_inv_def Store_New_def)

lemma engine_reach_inv: "engine_reach w \<Longrightarrow> engine_inv (w_store w)"
proof (induction rule: engine_reach.induct)
  case (empty w)
  then show ?case by (simp add: engine_inv_New)
next
  case (define_workflow w d s)
  then show ?case by (simp add: CreateDefinition_inv)
next
  case (submit w ks nanos e input w' res)
  then show ?case by (blast intro: Submit_inv)
next
  case (process w ks tokens e w' out)
  then show ?case using ProcessLeases_inv by blast
next
  case (cancel w e n i w' err)
  then show ?case using finishRun_inv[of w e _ StateCancelled "''''"]
    by (auto simp: Cancel_def split: sum.splits if_splits)
next
  case (reap w ks clk opts now)
  then show ?case by (simp add: LeaseReaper_runOnce_def release_all_inv)
qed

lemma Submit_queue:
  assumes inv: "engine_inv (w_store w)" and ks: "enumerates ks (st_definitions (w_store w))" and q: "st_queue (w_store w) = Map.empty"
    and sub: "Submit ks nanos e input w = (w', Inr rid)"
    and d: "GetDefinitionByName ks (wid_Namespace (ri_Workflow input)) (wid_Name (ri_Workflow input)) (w_store w) = Inr d"
  shows "dom (st_queue (w_store w')) = queueKey (wid_Namespace (wd_ID d)) rid ` ready_ids d (map new_step (wd_Steps d))"
proof -
  let ?K = "queueKey (wid_Namespace (wd_ID d)) rid ` ready_ids d (map new_step (wd_Steps d))"
  obtain d' and r :: Run where d': "GetDefinitionByName ks (wid_Namespace (ri_Workflow input)) (wid_Name (ri_Workflow input)) (w_store w) = Inr d'"
    and r: "run_Namespace r = wid_Namespace (wd_ID d')"
    and ready: "\<forall>x \<in> ready_ids d' (map new_step (wd_Steps d')). \<exists>i. st_queue (w_store w') (queueKey (run_Namespace r) rid x) = Some i \<and>
       qi_VisibleAt i = eng_now e (w_ticks w + 1)"
    and other: "\<forall>k. k \<notin> queueKey (run_Namespace r) rid ` ready_ids d' (map new_step (wd_Steps d')) \<longrightarrow> st_queue (w_store w') k = st_queue (w_store w) k"
    by (rule Submit_spec[OF inv ks sub])
  have "k \<in> dom (st_queue (w_store w')) \<longleftrightarrow> k \<in> ?K" for k
    using ready other q r d d' by (cases "k \<in> ?K") (auto simp: domIff)
  then show ?thesis by blast
qed

subsection \<open>The sample workflow\<close>

definition sample_ab :: "StepDefinition list" where
  "sample_ab = [sample_step ''a'' [], sample_step ''b'' [''a'']]"


lemma sample_valid: "valid_definition (sample_definition sample_ab)"
  by code_simp

lemma sample_world_reach:
  assumes "valid_definition (sample_definition steps)"
  shows "engine_reach (sample_world steps)"
proof -
  let ?w = "(sample_world steps)\<lparr>w_store := Store_New\<rparr>"
  have "itoa 1 = ''1''" by code_simp
  then have "CreateDefinition (sample_definition steps) (w_store ?w) = Inr (w_store (sample_world steps))"
    by (simp add: CreateDefinition_def sample_world_def sample_definition_def Store_New_def defKey_def Let_def)
  from engine_reach.define_workflow[OF _ assms this] show ?thesis by (simp add: engine_reach.empty)
qed

lemma sample_definitions: "enumerates [''ns/w@1''] (st_definitions (w_store (sample_world steps)))"
  by (simp add: enumerates_def sample_world_def)

lemma sample_submit:
  assumes "valid_definition (sample_definition steps)"
  shows "engine_reach (sample_submitted steps)"
  using engine_reach.submit[OF sample_world_reach[OF assms] sample_definitions, of 5 sample_engine sample_input]
  by (metis prod.collapse sample_submitted_def)

lemma sample_result: "snd (Submit [''ns/w@1''] 5 sample_engine sample_input (sample_world sample_ab)) = Inr '':5''"
  by code_simp

lemma ready_ids_filter:
  "ready_ids d steps = sr_StepID ` set (filter (\<lambda>x. sr_State x = StepPending \<and> deps_met d steps (sr_StepID x)) steps)"
  by (auto simp: ready_ids_def)

lemma sample_lookup: "GetDefinitionByName [''ns/w@1''] (wid_Namespace (ri_Workflow sample_input)) (wid_Name (ri_Workflow sample_input))
    (w_store (sample_world steps)) = Inr (sample_definition steps)"
  by (simp add: GetDefinitionByName_def sample_input_def sample_world_def sample_definition_def map_values_def)

lemma sample_queue_dom:
  assumes "valid_definition (sample_definition steps)"
    "snd (Submit [''ns/w@1''] 5 sample_engine sample_input (sample_world steps)) = Inr rid"
  shows "dom (st_queue (w_store (sample_submitted steps))) = queueKey ''ns'' rid ` ready_ids (sample_definition steps) (map new_step steps)"
proof -
  have sub: "Submit [''ns/w@1''] 5 sample_engine sample_input (sample_world steps) = (sample_submitted steps, Inr rid)"
    unfolding sample_submitted_def using assms(2) by (metis prod.collapse)
  have q: "st_queue (w_store (sample_world steps)) = Map.empty" by (simp add: sample_world_def Store_New_def)
  show ?thesis
    using Submit_queue[OF engine_reach_inv[OF sample_world_reach[OF assms(1)]] sample_definitions q sub sample_lookup]
    by (simp add: sample_definition_def)
qed

lemma sample_queue: "enumerates [''ns/:5/a''] (st_queue (w_store (sample_submitted sample_ab)))"
proof -
  have "ready_ids (sample_definition sample_ab) (map new_step sample_ab) = {''a''}"
    by (simp add: ready_ids_filter deps_met_def done_in_def step_done_def sample_definition_def sample_ab_def sample_step_def new_step_def)
  then show ?thesis using sample_queue_dom[OF sample_valid sample_result] by (simp add: enumerates_def queueKey_def)
qed





text \<open>
  (C17) In such a world \<open>ProcessLeases\<close> never panics and never returns an error, whatever the handlers
  return: the definition of every leased step is found, and so is its queue item when it completes.
\<close>

theorem ProcessLeases_no_panic:
  assumes "engine_reach w" "enumerates ks (st_queue (w_store w))"
  shows "snd (ProcessLeases ks tokens e w) = Returned None"
  using ProcessLeases_inv[OF engine_reach_inv[OF assms(1)] assms(2), of tokens e] by (metis prod.collapse)

theorem ProcessLeases_no_panic_witness:
  "engine_reach (sample_submitted sample_ab) \<and>
    snd (ProcessLeases [''ns/:5/a''] (\<lambda>_. '''') sample_engine (sample_submitted sample_ab)) = Returned None"
  using ProcessLeases_no_panic[OF sample_submit[OF sample_valid] sample_queue] sample_submit[OF sample_valid] by blast

end
