(* ===== verification/Engine_Progress.thy ===== *)
theory Engine_Progress
  imports Engine_Safety
begin

text \<open>
  A submitted run completes: an abstract account of the states of its steps, and the argument that
  every round of \<open>ProcessLeases\<close> completes at least one more step until all have succeeded.
\<close>

section \<open>The abstract run\<close>

















section \<open>The engine implements the abstract run\<close>











section \<open>Rounds\<close>








end
