(* ===== verification/Engine_Anomalies.thy ===== *)
theory Engine_Anomalies
  imports Engine_Progress State_Machine
begin




definition sample_replaced :: World where
  "sample_replaced =
     (let w = sample_submitted [sample_step ''a'' []]
      in ignoring_error (CreateDefinition (sample_definition [sample_step ''b'' []]))
           (ignoring_error (DeleteDefinition (wd_ID (sample_definition []))) w))"






text \<open>
  Replacing the definition of a run in progress by one without its step makes \<open>executeLease\<close>
  dereference the nil result of \<open>findStepDef\<close>: the worker panics.
\<close>

theorem replaced_definition_panics:
  "snd (ProcessLeases [''ns/:5/a''] (\<lambda>_. '''') sample_engine sample_replaced) = Panic"
  by code_simp

end
