(* ===== verification/Refinement.thy ===== *)
theory Refinement
  imports Tempest_Prelude
begin

text \<open>
  Functional data refinement. A component is a step function from an operation and a state to the new
  state and the response; its specification is a step function on an abstract state. The locale
  \<open>data_refinement\<close> has as laws that the component keeps its invariant and that the abstraction
  function commutes with every operation, responses included; it follows that no sequence of calls
  can tell the two apart. The containers interpret it on their models.
\<close>

primrec run_ops :: "('op \<Rightarrow> 's \<Rightarrow> 's \<times> 'r) \<Rightarrow> 'op list \<Rightarrow> 's \<Rightarrow> 's \<times> 'r list" where
  "run_ops step [] s = (s, [])"
| "run_ops step (op # ops) s =
     (let s1 = step op s; s2 = run_ops step ops (fst s1) in (fst s2, snd s1 # snd s2))"

lemma length_run_ops: "length (snd (run_ops step ops s)) = length ops"
  by (induction ops arbitrary: s) (simp_all add: Let_def)

locale data_refinement =
  fixes cstep :: "'op \<Rightarrow> 'c \<Rightarrow> 'c \<times> 'r"
    and astep :: "'op \<Rightarrow> 'a \<Rightarrow> 'a \<times> 'r"
    and invar :: "'c \<Rightarrow> bool"
    and abs :: "'c \<Rightarrow> 'a"
  assumes step_invar: "invar c \<Longrightarrow> invar (fst (cstep op c))"
    and step_abs: "invar c \<Longrightarrow> astep op (abs c) = (abs (fst (cstep op c)), snd (cstep op c))"
begin

lemma run_refines:
  "invar c \<Longrightarrow> invar (fst (run_ops cstep ops c)) \<and>
     run_ops astep ops (abs c) = (abs (fst (run_ops cstep ops c)), snd (run_ops cstep ops c))"
proof (induction ops arbitrary: c)
  case (Cons op ops)
  show ?case
    using Cons.IH[OF step_invar[OF Cons.prems, of op]] step_abs[OF Cons.prems, of op]
    by (simp add: Let_def)
qed simp

lemma run_responses: "invar c \<Longrightarrow> snd (run_ops cstep ops c) = snd (run_ops astep ops (abs c))"
  using run_refines by simp

lemma run_invar: "invar c \<Longrightarrow> invar (fst (run_ops cstep ops c))"
  using run_refines by blast

end

end
