(* ===== verification/Ring_Buffer.thy ===== *)
theory Ring_Buffer
  imports Refinement
begin

text \<open>
  \<open>internal/ringbuffer\<close>: a queue of bounded capacity in an array with a head (where the next item is
  written), a tail (where the oldest item is) and a count. \<open>zero\<close> is Go's zero value of the item type.
\<close>

record 'a RingBuffer =
  rb_buf :: "'a list"
  rb_head :: nat
  rb_tail :: nat
  rb_count :: nat
  rb_maxCap :: nat

definition RingBuffer_New :: "'a \<Rightarrow> int \<Rightarrow> 'a RingBuffer" where
  "RingBuffer_New zero capacity =
     (let c = (if capacity \<le> 0 then 64 else nat capacity)
      in \<lparr>rb_buf = replicate c zero, rb_head = 0, rb_tail = 0, rb_count = 0, rb_maxCap = c\<rparr>)"

definition RingBuffer_Push :: "'a \<Rightarrow> 'a RingBuffer \<Rightarrow> 'a RingBuffer \<times> bool" where
  "RingBuffer_Push item rb =
     (if rb_count rb = rb_maxCap rb then (rb, False)
      else (rb\<lparr>rb_buf := (rb_buf rb)[rb_head rb := item],
               rb_head := (rb_head rb + 1) mod rb_maxCap rb,
               rb_count := rb_count rb + 1\<rparr>, True))"

definition RingBuffer_Pop :: "'a \<Rightarrow> 'a RingBuffer \<Rightarrow> 'a RingBuffer \<times> 'a \<times> bool" where
  "RingBuffer_Pop zero rb =
     (if rb_count rb = 0 then (rb, zero, False)
      else (rb\<lparr>rb_tail := (rb_tail rb + 1) mod rb_maxCap rb, rb_count := rb_count rb - 1\<rparr>,
            rb_buf rb ! rb_tail rb, True))"

definition RingBuffer_Peek :: "'a \<Rightarrow> 'a RingBuffer \<Rightarrow> 'a \<times> bool" where
  "RingBuffer_Peek zero rb =
     (if rb_count rb = 0 then (zero, False) else (rb_buf rb ! rb_tail rb, True))"

definition RingBuffer_Len :: "'a RingBuffer \<Rightarrow> nat" where
  "RingBuffer_Len rb = rb_count rb"

definition RingBuffer_Cap :: "'a RingBuffer \<Rightarrow> nat" where
  "RingBuffer_Cap rb = rb_maxCap rb"

definition RingBuffer_Full :: "'a RingBuffer \<Rightarrow> bool" where
  "RingBuffer_Full rb \<longleftrightarrow> rb_count rb = rb_maxCap rb"

definition RingBuffer_Empty :: "'a RingBuffer \<Rightarrow> bool" where
  "RingBuffer_Empty rb \<longleftrightarrow> rb_count rb = 0"

definition RingBuffer_Clear :: "'a RingBuffer \<Rightarrow> 'a RingBuffer" where
  "RingBuffer_Clear rb = rb\<lparr>rb_head := 0, rb_tail := 0, rb_count := 0\<rparr>"

definition RingBuffer_Items :: "'a RingBuffer \<Rightarrow> 'a list" where
  "RingBuffer_Items rb = map (\<lambda>i. rb_buf rb ! ((rb_tail rb + i) mod rb_maxCap rb)) [0..<rb_count rb]"

section \<open>Invariant and bounded queue specification\<close>

definition rb_inv :: "'a RingBuffer \<Rightarrow> bool" where
  "rb_inv rb \<longleftrightarrow> 0 < rb_maxCap rb \<and> length (rb_buf rb) = rb_maxCap rb \<and> rb_count rb \<le> rb_maxCap rb \<and>
     rb_tail rb < rb_maxCap rb \<and> rb_head rb = (rb_tail rb + rb_count rb) mod rb_maxCap rb"

datatype 'a queue_op = QPush 'a | QPop | QPeek | QLen | QCap | QFull | QEmpty | QClear | QItems
datatype 'a queue_response = RBool bool | RItem 'a bool | RNat nat | RList "'a list" | RUnit

definition ring_step :: "'a \<Rightarrow> 'a queue_op \<Rightarrow> 'a RingBuffer \<Rightarrow> 'a RingBuffer \<times> 'a queue_response" where
  "ring_step zero op rb = (case op of
      QPush x \<Rightarrow> (let (rb', ok) = RingBuffer_Push x rb in (rb', RBool ok))
    | QPop \<Rightarrow> (let (rb', x, ok) = RingBuffer_Pop zero rb in (rb', RItem x ok))
    | QPeek \<Rightarrow> (let (x, ok) = RingBuffer_Peek zero rb in (rb, RItem x ok))
    | QLen \<Rightarrow> (rb, RNat (RingBuffer_Len rb))
    | QCap \<Rightarrow> (rb, RNat (RingBuffer_Cap rb))
    | QFull \<Rightarrow> (rb, RBool (RingBuffer_Full rb))
    | QEmpty \<Rightarrow> (rb, RBool (RingBuffer_Empty rb))
    | QClear \<Rightarrow> (RingBuffer_Clear rb, RUnit)
    | QItems \<Rightarrow> (rb, RList (RingBuffer_Items rb)))"

text \<open>The specification: a capacity and the queued items, oldest first.\<close>

definition queue_step :: "'a \<Rightarrow> 'a queue_op \<Rightarrow> nat \<times> 'a list \<Rightarrow> (nat \<times> 'a list) \<times> 'a queue_response" where
  "queue_step zero op s = (let (c, xs) = s in case op of
      QPush x \<Rightarrow> if length xs < c then ((c, xs @ [x]), RBool True) else (s, RBool False)
    | QPop \<Rightarrow> (case xs of [] \<Rightarrow> (s, RItem zero False) | x # ys \<Rightarrow> ((c, ys), RItem x True))
    | QPeek \<Rightarrow> (case xs of [] \<Rightarrow> (s, RItem zero False) | x # ys \<Rightarrow> (s, RItem x True))
    | QLen \<Rightarrow> (s, RNat (length xs))
    | QCap \<Rightarrow> (s, RNat c)
    | QFull \<Rightarrow> (s, RBool (length xs = c))
    | QEmpty \<Rightarrow> (s, RBool (xs = []))
    | QClear \<Rightarrow> ((c, []), RUnit)
    | QItems \<Rightarrow> (s, RList xs))"

definition rb_abs :: "'a RingBuffer \<Rightarrow> nat \<times> 'a list" where
  "rb_abs rb = (rb_maxCap rb, RingBuffer_Items rb)"

lemma length_Items [simp]: "length (RingBuffer_Items rb) = rb_count rb"
  by (simp add: RingBuffer_Items_def)

lemma Items_Nil [simp]: "rb_count rb = 0 \<Longrightarrow> RingBuffer_Items rb = []"
  by (simp add: RingBuffer_Items_def)

lemma mod_add_neq:
  assumes "i < n" "n < (c :: nat)"
  shows "(t + i) mod c \<noteq> (t + n) mod c"
proof
  assume "(t + i) mod c = (t + n) mod c"
  then have "c dvd (t + n) - (t + i)" using assms mod_eq_dvd_iff_nat[of "t + i" "t + n" c] by simp
  then have "c dvd n - i" by simp
  then show False using assms dvd_imp_le[of c "n - i"] by simp
qed

lemma Push_inv:
  assumes "rb_inv rb"
  shows "rb_inv (fst (RingBuffer_Push x rb))"
  using assms by (auto simp: rb_inv_def RingBuffer_Push_def mod_Suc_eq)

lemma Push_Items:
  assumes "rb_inv rb" "rb_count rb < rb_maxCap rb"
  shows "RingBuffer_Items (fst (RingBuffer_Push x rb)) = RingBuffer_Items rb @ [x]"
proof (rule nth_equalityI)
  show "length (RingBuffer_Items (fst (RingBuffer_Push x rb))) = length (RingBuffer_Items rb @ [x])"
    using assms by (simp add: RingBuffer_Push_def)
next
  fix i assume "i < length (RingBuffer_Items (fst (RingBuffer_Push x rb)))"
  then have i: "i \<le> rb_count rb" using assms by (simp add: RingBuffer_Push_def)
  have "(rb_tail rb + i) mod rb_maxCap rb < length (rb_buf rb)" using assms by (simp add: rb_inv_def)
  then show "RingBuffer_Items (fst (RingBuffer_Push x rb)) ! i = (RingBuffer_Items rb @ [x]) ! i"
    using assms i mod_add_neq[of i "rb_count rb" "rb_maxCap rb" "rb_tail rb"]
    by (cases "i = rb_count rb") (auto simp: RingBuffer_Push_def RingBuffer_Items_def rb_inv_def nth_append simp del: upt_Suc)
qed

lemma Pop_inv:
  assumes "rb_inv rb"
  shows "rb_inv (fst (RingBuffer_Pop z rb))"
proof (cases "rb_count rb")
  case (Suc n)
  then show ?thesis using assms by (simp add: rb_inv_def RingBuffer_Pop_def mod_add_left_eq)
qed (use assms in \<open>simp add: RingBuffer_Pop_def\<close>)

lemma Items_Cons:
  assumes "rb_inv rb" "rb_count rb > 0"
  shows "RingBuffer_Items rb = rb_buf rb ! rb_tail rb # RingBuffer_Items (fst (RingBuffer_Pop z rb))"
proof -
  obtain n where n: "rb_count rb = Suc n" using assms(2) by (cases "rb_count rb") auto
  then show ?thesis using assms(1)
    by (simp add: RingBuffer_Items_def RingBuffer_Pop_def rb_inv_def upt_conv_Cons map_Suc_upt[symmetric] mod_add_left_eq
        del: upt_Suc)
qed

lemma New_inv: "rb_inv (RingBuffer_New zero capacity)"
  by (simp add: rb_inv_def RingBuffer_New_def Let_def)

interpretation ring: data_refinement "ring_step zero" "queue_step zero" rb_inv rb_abs for zero :: 'a
proof
  fix c :: "'a RingBuffer" and op
  assume inv: "rb_inv c"
  show "rb_inv (fst (ring_step zero op c))"
    using inv Push_inv[OF inv] Pop_inv[OF inv, of zero]
  proof (cases op)
    case QClear
    then show ?thesis using inv by (simp add: ring_step_def rb_inv_def RingBuffer_Clear_def)
  qed (simp_all add: ring_step_def split_beta)
  show "queue_step zero op (rb_abs c) = (rb_abs (fst (ring_step zero op c)), snd (ring_step zero op c))"
  proof (cases op)
    case (QPush x)
    then show ?thesis
      using Push_Items[OF inv, of x] inv by (auto simp: ring_step_def queue_step_def rb_abs_def RingBuffer_Push_def rb_inv_def)
  next
    case QPop
    then show ?thesis using Items_Cons[OF inv, of zero]
      by (cases "rb_count c") (auto simp: ring_step_def queue_step_def rb_abs_def RingBuffer_Pop_def split: list.split)
  next
    case QPeek
    then show ?thesis using Items_Cons[OF inv, of zero]
      by (cases "rb_count c") (auto simp: ring_step_def queue_step_def rb_abs_def RingBuffer_Peek_def split: list.split)
  qed (auto simp: ring_step_def queue_step_def rb_abs_def RingBuffer_Len_def RingBuffer_Cap_def RingBuffer_Full_def
      RingBuffer_Empty_def RingBuffer_Clear_def RingBuffer_Items_def)
qed

text \<open>
  (C30) The ring buffer refines the bounded queue: whatever sequence of \<open>Push\<close>, \<open>Pop\<close>, \<open>Peek\<close>, \<open>Len\<close>,
  \<open>Cap\<close>, \<open>Full\<close>, \<open>Empty\<close>, \<open>Clear\<close> and \<open>Items\<close> calls is made on a new buffer, every answer is the one of
  a first-in first-out list bounded by the capacity (64 when the requested capacity is not positive).
\<close>

theorem RingBuffer_refines_queue:
  "snd (run_ops (ring_step zero) ops (RingBuffer_New zero capacity)) =
   snd (run_ops (queue_step zero) ops (if capacity \<le> 0 then 64 else nat capacity, []))"
  using ring.run_responses[OF New_inv[of zero capacity]]
  by (simp add: rb_abs_def RingBuffer_Items_def RingBuffer_New_def Let_def)

end
