(* ===== verification/Lru.thy ===== *)
theory Lru
  imports Refinement
begin

text \<open>
  \<open>internal/lru\<close>: a cache that evicts the least recently used entry. The doubly linked list of
  \<open>container/list\<close> is a list of element addresses, front first, with a heap from addresses to entries,
  because \<open>items\<close> keeps pointers to the elements. \<open>lru_evicted\<close> is the sequence of calls of \<open>onEvict\<close>
  made so far; \<open>lru_onEvict\<close> says whether a callback is set.
\<close>

record ('k, 'v) Lru =
  lru_capacity :: nat
  lru_items :: "'k \<rightharpoonup> nat"
  lru_order :: "nat list"
  lru_heap :: "nat \<Rightarrow> 'k \<times> 'v"
  lru_onEvict :: bool
  lru_evicted :: "('k \<times> 'v) list"

definition Lru_New :: "('k \<times> 'v) \<Rightarrow> int \<Rightarrow> ('k, 'v) Lru" where
  "Lru_New zero capacity =
     \<lparr>lru_capacity = (if capacity \<le> 0 then 128 else nat capacity), lru_items = Map.empty, lru_order = [],
      lru_heap = (\<lambda>_. zero), lru_onEvict = False, lru_evicted = []\<rparr>"

definition Lru_OnEvict :: "('k, 'v) Lru \<Rightarrow> ('k, 'v) Lru" where
  "Lru_OnEvict c = c\<lparr>lru_onEvict := True\<rparr>"

definition MoveToFront :: "nat \<Rightarrow> nat list \<Rightarrow> nat list" where
  "MoveToFront el order = el # remove1 el order"

text \<open>The address of a new element: above every element of the list.\<close>

definition fresh :: "nat list \<Rightarrow> nat" where
  "fresh order = Suc (foldr max order 0)"

definition removeElement :: "nat \<Rightarrow> ('k, 'v) Lru \<Rightarrow> ('k, 'v) Lru" where
  "removeElement el c =
     (let (k, v) = lru_heap c el;
          c1 = c\<lparr>lru_order := remove1 el (lru_order c), lru_items := (lru_items c)(k := None)\<rparr>
      in if lru_onEvict c then c1\<lparr>lru_evicted := lru_evicted c @ [(k, v)]\<rparr> else c1)"

definition Lru_evict :: "('k, 'v) Lru \<Rightarrow> ('k, 'v) Lru" where
  "Lru_evict c = (if lru_order c = [] then c else removeElement (last (lru_order c)) c)"

definition Lru_Get :: "'k \<Rightarrow> ('k, 'v) Lru \<Rightarrow> ('k, 'v) Lru \<times> 'v option" where
  "Lru_Get key c =
     (case lru_items c key of
        Some el \<Rightarrow> (c\<lparr>lru_order := MoveToFront el (lru_order c)\<rparr>, Some (snd (lru_heap c el)))
      | None \<Rightarrow> (c, None))"

definition Lru_Put :: "'k \<Rightarrow> 'v \<Rightarrow> ('k, 'v) Lru \<Rightarrow> ('k, 'v) Lru" where
  "Lru_Put key value c =
     (case lru_items c key of
        Some el \<Rightarrow> c\<lparr>lru_order := MoveToFront el (lru_order c),
                      lru_heap := (lru_heap c)(el := (fst (lru_heap c el), value))\<rparr>
      | None \<Rightarrow>
          (let c1 = (if length (lru_order c) \<ge> lru_capacity c then Lru_evict c else c);
               el = fresh (lru_order c1)
           in c1\<lparr>lru_order := el # lru_order c1, lru_heap := (lru_heap c1)(el := (key, value)),
                 lru_items := (lru_items c1)(key \<mapsto> el)\<rparr>))"

definition Lru_Remove :: "'k \<Rightarrow> ('k, 'v) Lru \<Rightarrow> ('k, 'v) Lru \<times> bool" where
  "Lru_Remove key c =
     (case lru_items c key of Some el \<Rightarrow> (removeElement el c, True) | None \<Rightarrow> (c, False))"

definition Lru_Len :: "('k, 'v) Lru \<Rightarrow> nat" where
  "Lru_Len c = length (lru_order c)"

definition Lru_Keys :: "('k, 'v) Lru \<Rightarrow> 'k list" where
  "Lru_Keys c = map (fst \<circ> lru_heap c) (lru_order c)"

definition Lru_Clear :: "('k, 'v) Lru \<Rightarrow> ('k, 'v) Lru" where
  "Lru_Clear c = c\<lparr>lru_items := Map.empty, lru_order := []\<rparr>"

section \<open>Invariant and recency list specification\<close>

definition lru_inv :: "('k, 'v) Lru \<Rightarrow> bool" where
  "lru_inv c \<longleftrightarrow> 0 < lru_capacity c \<and> length (lru_order c) \<le> lru_capacity c \<and> distinct (lru_order c) \<and>
     (\<forall>k el. lru_items c k = Some el \<longleftrightarrow> el \<in> set (lru_order c) \<and> fst (lru_heap c el) = k)"

definition lru_entries :: "('k, 'v) Lru \<Rightarrow> ('k \<times> 'v) list" where
  "lru_entries c = map (lru_heap c) (lru_order c)"

text \<open>
  The specification keeps the entries most recently used first, the calls of the callback, and
  whether it is set.
\<close>

record ('k, 'v) recency =
  rc_capacity :: nat
  rc_entries :: "('k \<times> 'v) list"
  rc_notify :: bool
  rc_evicted :: "('k \<times> 'v) list"

datatype ('k, 'v) lru_op = LGet 'k | LPut 'k 'v | LRemove 'k | LLen | LKeys | LClear | LOnEvict
datatype ('k, 'v) lru_response = LValue "'v option" | LBool bool | LNat nat | LKeyList "'k list" | LUnit

definition without :: "'k \<Rightarrow> ('k \<times> 'v) list \<Rightarrow> ('k \<times> 'v) list" where
  "without k es = filter (\<lambda>e. fst e \<noteq> k) es"

definition evicting :: "('k \<times> 'v) list \<Rightarrow> ('k, 'v) recency \<Rightarrow> ('k, 'v) recency" where
  "evicting es r = (if rc_notify r then r\<lparr>rc_evicted := rc_evicted r @ es\<rparr> else r)"

definition recency_step :: "('k, 'v) lru_op \<Rightarrow> ('k, 'v) recency \<Rightarrow> ('k, 'v) recency \<times> ('k, 'v) lru_response" where
  "recency_step op r = (case op of
      LGet k \<Rightarrow> (case map_of (rc_entries r) k of
          None \<Rightarrow> (r, LValue None)
        | Some v \<Rightarrow> (r\<lparr>rc_entries := (k, v) # without k (rc_entries r)\<rparr>, LValue (Some v)))
    | LPut k v \<Rightarrow>
        (if k \<in> fst ` set (rc_entries r) then (r\<lparr>rc_entries := (k, v) # without k (rc_entries r)\<rparr>, LUnit)
         else if length (rc_entries r) < rc_capacity r then (r\<lparr>rc_entries := (k, v) # rc_entries r\<rparr>, LUnit)
         else ((evicting [last (rc_entries r)] r)\<lparr>rc_entries := (k, v) # butlast (rc_entries r)\<rparr>, LUnit))
    | LRemove k \<Rightarrow> (case map_of (rc_entries r) k of
          None \<Rightarrow> (r, LBool False)
        | Some v \<Rightarrow> ((evicting [(k, v)] r)\<lparr>rc_entries := without k (rc_entries r)\<rparr>, LBool True))
    | LLen \<Rightarrow> (r, LNat (length (rc_entries r)))
    | LKeys \<Rightarrow> (r, LKeyList (map fst (rc_entries r)))
    | LClear \<Rightarrow> (r\<lparr>rc_entries := []\<rparr>, LUnit)
    | LOnEvict \<Rightarrow> (r\<lparr>rc_notify := True\<rparr>, LUnit))"

definition lru_step :: "('k, 'v) lru_op \<Rightarrow> ('k, 'v) Lru \<Rightarrow> ('k, 'v) Lru \<times> ('k, 'v) lru_response" where
  "lru_step op c = (case op of
      LGet k \<Rightarrow> (fst (Lru_Get k c), LValue (snd (Lru_Get k c)))
    | LPut k v \<Rightarrow> (Lru_Put k v c, LUnit)
    | LRemove k \<Rightarrow> (fst (Lru_Remove k c), LBool (snd (Lru_Remove k c)))
    | LLen \<Rightarrow> (c, LNat (Lru_Len c))
    | LKeys \<Rightarrow> (c, LKeyList (Lru_Keys c))
    | LClear \<Rightarrow> (Lru_Clear c, LUnit)
    | LOnEvict \<Rightarrow> (Lru_OnEvict c, LUnit))"

definition lru_abs :: "('k, 'v) Lru \<Rightarrow> ('k, 'v) recency" where
  "lru_abs c = \<lparr>rc_capacity = lru_capacity c, rc_entries = lru_entries c, rc_notify = lru_onEvict c, rc_evicted = lru_evicted c\<rparr>"

lemma lru_invD:
  assumes "lru_inv c"
  shows "0 < lru_capacity c" "length (lru_order c) \<le> lru_capacity c" "distinct (lru_order c)"
    "lru_items c k = Some el \<longleftrightarrow> el \<in> set (lru_order c) \<and> fst (lru_heap c el) = k"
  using assms by (auto simp: lru_inv_def)

lemma keys_distinct:
  assumes "lru_inv c"
  shows "inj_on (fst \<circ> lru_heap c) (set (lru_order c))"
proof (rule inj_onI)
  fix x y assume "x \<in> set (lru_order c)" "y \<in> set (lru_order c)" "(fst \<circ> lru_heap c) x = (fst \<circ> lru_heap c) y"
  then have "lru_items c (fst (lru_heap c x)) = Some x" "lru_items c (fst (lru_heap c x)) = Some y"
    using lru_invD(4)[OF assms] by auto
  then show "x = y" by simp
qed

lemma items_None:
  assumes "lru_inv c" "lru_items c k = None"
  shows "k \<notin> fst ` set (lru_entries c)"
proof
  assume "k \<in> fst ` set (lru_entries c)"
  then obtain x where "x \<in> set (lru_order c)" "fst (lru_heap c x) = k" unfolding lru_entries_def by auto
  then show False using lru_invD(4)[OF assms(1), of k x] assms(2) by simp
qed

lemma items_Some:
  assumes "lru_inv c" "lru_items c k = Some el"
  shows "el \<in> set (lru_order c)" "lru_heap c el = (k, snd (lru_heap c el))"
    "map_of (lru_entries c) k = Some (snd (lru_heap c el))"
    "map (lru_heap c) (remove1 el (lru_order c)) = without k (lru_entries c)"
proof -
  show el: "el \<in> set (lru_order c)" and k: "lru_heap c el = (k, snd (lru_heap c el))"
    using lru_invD(4)[OF assms(1), of k el] assms(2) by (auto simp: prod_eq_iff)
  have "distinct (map fst (lru_entries c))"
    using keys_distinct[OF assms(1)] lru_invD(3)[OF assms(1)] by (simp add: lru_entries_def distinct_map comp_def)
  moreover have "(k, snd (lru_heap c el)) \<in> set (lru_entries c)"
    using el k[symmetric] by (simp add: lru_entries_def)
  ultimately show "map_of (lru_entries c) k = Some (snd (lru_heap c el))" by simp
  have "fst (lru_heap c x) \<noteq> k \<longleftrightarrow> x \<noteq> el" if "x \<in> set (lru_order c)" for x
    using keys_distinct[OF assms(1)] that el k unfolding inj_on_def by (metis comp_apply fst_conv)
  then have "filter (\<lambda>x. fst (lru_heap c x) \<noteq> k) (lru_order c) = filter (\<lambda>x. x \<noteq> el) (lru_order c)"
    by (rule filter_cong[OF refl])
  then show "map (lru_heap c) (remove1 el (lru_order c)) = without k (lru_entries c)"
    using lru_invD(3)[OF assms(1)]
    by (simp add: without_def lru_entries_def filter_map comp_def distinct_remove1_removeAll removeAll_filter_not_eq eq_commute)
qed

lemma fresh_notin: "fresh order \<notin> set order"
proof -
  have "x \<le> foldr max order 0" if "x \<in> set order" for x using that by (induction order) (auto simp: le_max_iff_disj)
  then show ?thesis by (force simp: fresh_def)
qed

lemma removeElement_inv:
  assumes "lru_inv c" "el \<in> set (lru_order c)"
  shows "lru_inv (removeElement el c)"
proof -
  have "x = el" if "x \<in> set (lru_order c)" "fst (lru_heap c x) = fst (lru_heap c el)" for x
    using keys_distinct[OF assms(1)] that assms(2) by (auto simp: inj_on_def)
  then show ?thesis
    using assms lru_invD[OF assms(1)]
    by (auto simp: lru_inv_def removeElement_def split_beta Let_def length_remove1)
qed

lemma removeElement_abs:
  assumes "lru_inv c" "lru_items c k = Some el"
  shows "lru_abs (removeElement el c) =
     (evicting [(k, snd (lru_heap c el))] (lru_abs c))\<lparr>rc_entries := without k (lru_entries c)\<rparr>"
proof -
  have "fst (lru_heap c el) = k" using items_Some(2)[OF assms] by (metis fst_conv)
  then show ?thesis using items_Some(4)[OF assms]
    by (simp add: lru_abs_def removeElement_def split_beta Let_def lru_entries_def evicting_def prod_eq_iff)
qed

lemma MoveToFront_inv:
  assumes "lru_inv c" "lru_items c k = Some el" "\<And>x. fst (h x) = fst (lru_heap c x)"
  shows "lru_inv (c\<lparr>lru_order := MoveToFront el (lru_order c), lru_heap := h\<rparr>)"
  using assms items_Some(1)[OF assms(1,2)] lru_invD[OF assms(1)]
  by (auto simp: lru_inv_def MoveToFront_def length_remove1)

lemma push_inv:
  assumes "lru_inv c" "lru_items c k = None" "length (lru_order c) < lru_capacity c"
  shows "lru_inv (c\<lparr>lru_order := fresh (lru_order c) # lru_order c, lru_heap := (lru_heap c)(fresh (lru_order c) := (k, v)),
      lru_items := (lru_items c)(k \<mapsto> fresh (lru_order c))\<rparr>)"
  using assms fresh_notin[of "lru_order c"] lru_invD[OF assms(1)] unfolding lru_inv_def by (simp, metis option.distinct(1))

lemma push_entries:
  "lru_entries (c\<lparr>lru_order := fresh (lru_order c) # lru_order c, lru_heap := (lru_heap c)(fresh (lru_order c) := (k, v)),
      lru_items := m\<rparr>) = (k, v) # lru_entries c"
  using fresh_notin[of "lru_order c"] by (auto simp: lru_entries_def)

lemma Put_evict_last:
  assumes inv: "lru_inv c" and ne: "lru_order c \<noteq> []"
  shows "\<exists>k. lru_items c k = Some (last (lru_order c)) \<and> without k (lru_entries c) = butlast (lru_entries c) \<and>
    last (lru_entries c) = (k, snd (lru_heap c (last (lru_order c))))"
proof (intro exI conjI)
  let ?el = "last (lru_order c)" and ?k = "fst (lru_heap c (last (lru_order c)))"
  show it: "lru_items c ?k = Some ?el" using lru_invD(4)[OF inv, of ?k ?el] ne by simp
  show "last (lru_entries c) = (?k, snd (lru_heap c ?el))" using ne by (simp add: lru_entries_def last_map)
  have "remove1 ?el (lru_order c) = butlast (lru_order c)"
    using lru_invD(3)[OF inv] ne by (metis append_butlast_last_id distinct_append not_distinct_conv_prefix remove1_append remove1_idem remove1.simps(2) append_Nil2 disjoint_insert(1) list.simps(15))
  then show "without ?k (lru_entries c) = butlast (lru_entries c)"
    using items_Some(4)[OF inv it] by (simp add: lru_entries_def map_butlast)
qed

lemma Put_refines:
  assumes inv: "lru_inv c"
  shows "lru_inv (Lru_Put k v c)" "recency_step (LPut k v) (lru_abs c) = (lru_abs (Lru_Put k v c), LUnit)"
proof -
  consider (hit) el where "lru_items c k = Some el" | (room) "lru_items c k = None" "length (lru_order c) < lru_capacity c"
    | (full) "lru_items c k = None" "length (lru_order c) = lru_capacity c"
    using lru_invD(2)[OF inv] by (cases "lru_items c k") fastforce+
  then have "lru_inv (Lru_Put k v c) \<and> recency_step (LPut k v) (lru_abs c) = (lru_abs (Lru_Put k v c), LUnit)"
  proof cases
    case hit
    note S = items_Some[OF inv hit]
    have "map ((lru_heap c)(el := (fst (lru_heap c el), v))) (remove1 el (lru_order c)) = map (lru_heap c) (remove1 el (lru_order c))"
      using lru_invD(3)[OF inv] by auto
    moreover have "fst (lru_heap c el) = k" using S(2) by (metis fst_conv)
    moreover have "k \<in> fst ` set (lru_entries c)" using S(3) by (metis map_of_SomeD image_eqI fst_conv)
    ultimately show ?thesis
      using MoveToFront_inv[OF inv hit, of "(lru_heap c)(el := (fst (lru_heap c el), v))"] S(4)
      by (simp add: Lru_Put_def hit recency_step_def lru_abs_def lru_entries_def MoveToFront_def)
  next
    case room
    then show ?thesis
      using push_inv[OF inv room, of v] push_entries[where c = c and k = k and v = v] items_None[OF inv room(1)]
      by (simp add: Lru_Put_def recency_step_def lru_abs_def Let_def) (simp add: lru_entries_def)
  next
    case full
    let ?c1 = "Lru_evict c"
    have ne: "lru_order c \<noteq> []" using full(2) lru_invD(1)[OF inv] by auto
    obtain k' where k': "lru_items c k' = Some (last (lru_order c))" "without k' (lru_entries c) = butlast (lru_entries c)"
      "last (lru_entries c) = (k', snd (lru_heap c (last (lru_order c))))"
      using Put_evict_last[OF inv ne] by blast
    have c1: "?c1 = removeElement (last (lru_order c)) c" using ne by (simp add: Lru_evict_def)
    have inv1: "lru_inv ?c1" unfolding c1 using removeElement_inv[OF inv] ne by simp
    have abs1: "lru_abs ?c1 = (evicting [last (lru_entries c)] (lru_abs c))\<lparr>rc_entries := butlast (lru_entries c)\<rparr>"
      unfolding c1 using removeElement_abs[OF inv k'(1)] k'(2,3) by simp
    have "lru_items ?c1 k = None" "length (lru_order ?c1) < lru_capacity ?c1"
      using full ne lru_invD(1)[OF inv] by (auto simp: c1 removeElement_def split_beta Let_def length_remove1)
    note P = push_inv[OF inv1 this, of v] push_entries[where c = ?c1 and k = k and v = v]
    have "lru_abs (Lru_Put k v c) = (lru_abs ?c1)\<lparr>rc_entries := (k, v) # lru_entries ?c1\<rparr>"
      using P(2) full by (simp add: Lru_Put_def Let_def lru_abs_def)
    also have "\<dots> = (evicting [last (lru_entries c)] (lru_abs c))\<lparr>rc_entries := (k, v) # butlast (lru_entries c)\<rparr>"
    proof -
      have "lru_entries ?c1 = rc_entries (lru_abs ?c1)" by (simp add: lru_abs_def)
      also have "\<dots> = butlast (lru_entries c)" unfolding abs1 by simp
      finally show ?thesis unfolding abs1 by simp
    qed
    finally show ?thesis
      using P(1) full items_None[OF inv full(1)] by (simp add: Lru_Put_def Let_def recency_step_def lru_abs_def lru_entries_def)
  qed
  then show "lru_inv (Lru_Put k v c)" "recency_step (LPut k v) (lru_abs c) = (lru_abs (Lru_Put k v c), LUnit)" by blast+
qed

lemma Get_refines:
  assumes inv: "lru_inv c"
  shows "lru_inv (fst (Lru_Get k c))"
    "recency_step (LGet k) (lru_abs c) = (lru_abs (fst (Lru_Get k c)), LValue (snd (Lru_Get k c)))"
proof (atomize (full), cases "lru_items c k")
  case None
  then have "map_of (lru_entries c) k = None" using items_None[OF inv] by (simp add: map_of_eq_None_iff)
  then show "lru_inv (fst (Lru_Get k c)) \<and> recency_step (LGet k) (lru_abs c) = (lru_abs (fst (Lru_Get k c)), LValue (snd (Lru_Get k c)))"
    using None inv by (simp add: Lru_Get_def recency_step_def lru_abs_def)
next
  case (Some el)
  note S = items_Some[OF inv Some]
  show "lru_inv (fst (Lru_Get k c)) \<and> recency_step (LGet k) (lru_abs c) = (lru_abs (fst (Lru_Get k c)), LValue (snd (Lru_Get k c)))"
    using MoveToFront_inv[OF inv Some, of "lru_heap c"] S(2-4) Some
    by (simp add: Lru_Get_def recency_step_def lru_abs_def lru_entries_def MoveToFront_def)
qed

lemma Remove_refines:
  assumes inv: "lru_inv c"
  shows "lru_inv (fst (Lru_Remove k c))"
    "recency_step (LRemove k) (lru_abs c) = (lru_abs (fst (Lru_Remove k c)), LBool (snd (Lru_Remove k c)))"
proof (atomize (full), cases "lru_items c k")
  case None
  then have "map_of (lru_entries c) k = None" using items_None[OF inv] by (simp add: map_of_eq_None_iff)
  then show "lru_inv (fst (Lru_Remove k c)) \<and>
      recency_step (LRemove k) (lru_abs c) = (lru_abs (fst (Lru_Remove k c)), LBool (snd (Lru_Remove k c)))"
    using None inv by (simp add: Lru_Remove_def recency_step_def lru_abs_def)
next
  case (Some el)
  note S = items_Some[OF inv Some]
  have "rc_entries (lru_abs c) = lru_entries c" by (simp add: lru_abs_def)
  then show "lru_inv (fst (Lru_Remove k c)) \<and>
      recency_step (LRemove k) (lru_abs c) = (lru_abs (fst (Lru_Remove k c)), LBool (snd (Lru_Remove k c)))"
    using removeElement_inv[OF inv S(1)] removeElement_abs[OF inv Some] S(3) Some
    by (simp add: Lru_Remove_def recency_step_def)
qed

interpretation lru: data_refinement lru_step recency_step lru_inv lru_abs
proof
  fix c :: "('k, 'v) Lru" and op
  assume inv: "lru_inv c"
  have "lru_inv (fst (lru_step op c)) \<and> recency_step op (lru_abs c) = (lru_abs (fst (lru_step op c)), snd (lru_step op c))"
  proof (cases op)
    case (LGet k)
    then show ?thesis using Get_refines[OF inv, of k] by (simp add: lru_step_def)
  next
    case (LPut k v)
    then show ?thesis using Put_refines[OF inv, of k v] by (simp add: lru_step_def)
  next
    case (LRemove k)
    then show ?thesis using Remove_refines[OF inv, of k] by (simp add: lru_step_def)
  qed (use inv in \<open>auto simp: lru_step_def recency_step_def lru_abs_def lru_entries_def Lru_Len_def Lru_Keys_def
      Lru_Clear_def Lru_OnEvict_def lru_inv_def\<close>)
  then show "lru_inv (fst (lru_step op c))"
    "recency_step op (lru_abs c) = (lru_abs (fst (lru_step op c)), snd (lru_step op c))" by blast+
qed

text \<open>
  (C31) The cache refines the recency list: any sequence of calls on a new cache, callbacks included,
  is answered as by a list of at most \<open>capacity\<close> entries kept most recently used first, from which a
  \<open>Put\<close> of a new key into a full cache drops the last entry and reports it to \<open>onEvict\<close>.
\<close>

theorem Lru_refines_recency_list:
  "snd (run_ops lru_step ops (Lru_New zero capacity)) =
     snd (run_ops recency_step ops (lru_abs (Lru_New zero capacity))) \<and>
   rc_evicted (fst (run_ops recency_step ops (lru_abs (Lru_New zero capacity)))) =
     lru_evicted (fst (run_ops lru_step ops (Lru_New zero capacity))) \<and>
   Lru_Len (fst (run_ops lru_step ops (Lru_New zero capacity))) \<le> lru_capacity (Lru_New zero capacity)"
proof -
  let ?c = "Lru_New zero capacity"
  have inv: "lru_inv ?c" by (simp add: lru_inv_def Lru_New_def)
  have cap: "lru_capacity (fst (lru_step op c)) = lru_capacity c" for op c
    by (cases op) (auto simp: lru_step_def Lru_Get_def Lru_Put_def Lru_Remove_def Lru_evict_def removeElement_def Lru_Clear_def
        Lru_OnEvict_def Let_def split_beta split: option.split)
  have "lru_capacity (fst (run_ops lru_step ops c)) = lru_capacity c" for c
    by (induction ops arbitrary: c) (simp_all add: Let_def cap)
  then show ?thesis
    using lru.run_refines[OF inv, of ops] lru_invD(2)[OF lru.run_invar[OF inv, of ops]] by (simp add: Lru_Len_def lru_abs_def)
qed

end
