(* ===== verification/Fencing.thy ===== *)
theory Fencing
  imports Tempest_Prelude
begin

text \<open>
  \<open>internal/fencing\<close>: fencing tokens, their two generators, the lease manager, the storage that
  rejects stale tokens, and tokens in contexts. Token numbers and epochs are 64-bit words. Every
  reading of the clock is an argument, in the order in which the code reads it. An error is a value
  with the sentinel it wraps and the arguments of its message.
\<close>

section \<open>Tokens\<close>

record FencingToken =
  ft_Resource :: string
  ft_Token :: uint64
  ft_Owner :: string
  ft_Epoch :: uint64
  ft_IssuedAt :: gotime
  ft_ExpiresAt :: gotime

datatype fencing_error =
    ErrStaleFencingToken uint64 uint64 string
  | ErrTokenExpired uint64 string gotime
  | ErrPreempted string uint64 uint64
  | ErrMissingContextToken

definition FencingToken_String :: "FencingToken \<Rightarrow> string" where
  "FencingToken_String t =
     ''FencingToken[res='' @ ft_Resource t @ '', token='' @ itoa (uint (ft_Token t)) @ '', epoch='' @
     itoa (uint (ft_Epoch t)) @ '', owner='' @ ft_Owner t @ '']''"

definition IsExpired :: "gotime \<Rightarrow> FencingToken \<Rightarrow> bool" where
  "IsExpired now t \<longleftrightarrow> time_After now (ft_ExpiresAt t)"

definition zero_token :: FencingToken where
  "zero_token = \<lparr>ft_Resource = '''', ft_Token = 0, ft_Owner = '''', ft_Epoch = 0, ft_IssuedAt = 0, ft_ExpiresAt = 0\<rparr>"

text \<open>Reading a map of counters: a missing key is zero.\<close>

definition at0 :: "('k \<rightharpoonup> uint64) \<Rightarrow> 'k \<Rightarrow> uint64" where
  "at0 m k = (case m k of None \<Rightarrow> 0 | Some n \<Rightarrow> n)"

lemma at0_upd [simp]: "at0 (m(k \<mapsto> n)) k' = (if k' = k then n else at0 m k')"
  by (simp add: at0_def)

section \<open>Generators\<close>

record TokenGenerator =
  tg_lastToken :: "string \<rightharpoonup> uint64"
  tg_epochs :: "string \<rightharpoonup> uint64"
  tg_activeTokens :: "string \<rightharpoonup> FencingToken"

definition NewTokenGenerator :: TokenGenerator where
  "NewTokenGenerator = \<lparr>tg_lastToken = Map.empty, tg_epochs = Map.empty, tg_activeTokens = Map.empty\<rparr>"

definition default_ttl :: "duration \<Rightarrow> duration" where
  "default_ttl ttl = (if ttl \<le> 0 then 30 * Second else ttl)"

definition AcquireToken :: "string \<Rightarrow> string \<Rightarrow> duration \<Rightarrow> gotime \<Rightarrow> TokenGenerator \<Rightarrow> TokenGenerator \<times> FencingToken" where
  "AcquireToken resource owner ttl now g =
     (let tokNum = at0 (tg_lastToken g) resource + 1;
          g1 = g\<lparr>tg_lastToken := (tg_lastToken g)(resource \<mapsto> tokNum)\<rparr>;
          epoch = (if tokNum = 1 then 1 else at0 (tg_epochs g) resource);
          g2 = (if tokNum = 1 then g1\<lparr>tg_epochs := (tg_epochs g1)(resource \<mapsto> 1)\<rparr> else g1);
          token = \<lparr>ft_Resource = resource, ft_Token = tokNum, ft_Owner = owner, ft_Epoch = epoch,
                   ft_IssuedAt = now, ft_ExpiresAt = time_Add now (default_ttl ttl)\<rparr>
      in (g2\<lparr>tg_activeTokens := (tg_activeTokens g2)(resource \<mapsto> token)\<rparr>, token))"

definition NextEpoch :: "string \<Rightarrow> TokenGenerator \<Rightarrow> TokenGenerator \<times> uint64" where
  "NextEpoch resource g =
     (let n = at0 (tg_epochs g) resource + 1
      in (g\<lparr>tg_epochs := (tg_epochs g)(resource \<mapsto> n)\<rparr>, n))"

definition LatestToken :: "string \<Rightarrow> TokenGenerator \<Rightarrow> FencingToken option" where
  "LatestToken resource g = tg_activeTokens g resource"

definition CurrentTokenNumber :: "string \<Rightarrow> TokenGenerator \<Rightarrow> uint64" where
  "CurrentTokenNumber resource g = at0 (tg_lastToken g) resource"

text \<open>The lock-free generator: per resource a counter and an epoch that starts at 1.\<close>

record ResourceCounter =
  rcn_counter :: uint64
  rcn_epoch :: uint64

type_synonym CASTokenGenerator = "string \<rightharpoonup> ResourceCounter"


definition getOrCreateCounter :: "string \<Rightarrow> CASTokenGenerator \<Rightarrow> CASTokenGenerator \<times> ResourceCounter" where
  "getOrCreateCounter resource g =
     (case g resource of
        Some rc \<Rightarrow> (g, rc)
      | None \<Rightarrow> (let rc = \<lparr>rcn_counter = 0, rcn_epoch = 1\<rparr> in (g(resource \<mapsto> rc), rc)))"

definition AcquireFastToken :: "string \<Rightarrow> string \<Rightarrow> duration \<Rightarrow> gotime \<Rightarrow> CASTokenGenerator \<Rightarrow> CASTokenGenerator \<times> FencingToken" where
  "AcquireFastToken resource owner ttl now g =
     (let (g1, rc) = getOrCreateCounter resource g;
          tokNum = rcn_counter rc + 1
      in (g1(resource \<mapsto> rc\<lparr>rcn_counter := tokNum\<rparr>),
          \<lparr>ft_Resource = resource, ft_Token = tokNum, ft_Owner = owner, ft_Epoch = rcn_epoch rc,
           ft_IssuedAt = now, ft_ExpiresAt = time_Add now (default_ttl ttl)\<rparr>))"

definition AdvanceEpoch :: "string \<Rightarrow> CASTokenGenerator \<Rightarrow> CASTokenGenerator \<times> uint64" where
  "AdvanceEpoch resource g =
     (let (g1, rc) = getOrCreateCounter resource g;
          n = rcn_epoch rc + 1
      in (g1(resource \<mapsto> rc\<lparr>rcn_epoch := n\<rparr>), n))"

definition CurrentSeq :: "string \<Rightarrow> CASTokenGenerator \<Rightarrow> uint64" where
  "CurrentSeq resource g = (case g resource of Some rc \<Rightarrow> rcn_counter rc | None \<Rightarrow> 0)"

section \<open>Lease manager\<close>

text \<open>
  The manager holds the generator. The callbacks are numbered; \<open>NotifyPreemption\<close> returns the calls
  it makes, in order.
\<close>

record LeaseManager =
  lm_generator :: TokenGenerator
  lm_preemptSubs :: "string \<rightharpoonup> nat list"

definition NewLeaseManager :: "TokenGenerator \<Rightarrow> LeaseManager" where
  "NewLeaseManager gen = \<lparr>lm_generator = gen, lm_preemptSubs = Map.empty\<rparr>"

definition CheckPreemption :: "FencingToken \<Rightarrow> gotime \<Rightarrow> LeaseManager \<Rightarrow> fencing_error option" where
  "CheckPreemption current now m =
     (if IsExpired now current then Some (ErrTokenExpired (ft_Token current) '''' (ft_ExpiresAt current))
      else case LatestToken (ft_Resource current) (lm_generator m) of
        None \<Rightarrow> None
      | Some latest \<Rightarrow>
          if ft_Token latest > ft_Token current
          then Some (ErrPreempted (ft_Resource current) (ft_Token latest) (ft_Token current)) else None)"

definition ExtendLease :: "FencingToken \<Rightarrow> duration \<Rightarrow> gotime \<Rightarrow> gotime \<Rightarrow> LeaseManager \<Rightarrow>
    LeaseManager \<times> FencingToken \<times> fencing_error option" where
  "ExtendLease current additionalTTL now1 now2 m =
     (case CheckPreemption current now1 m of
        Some err \<Rightarrow> (m, current, Some err)
      | None \<Rightarrow>
          (case LatestToken (ft_Resource current) (lm_generator m) of
             Some latest \<Rightarrow>
               if ft_Token latest > ft_Token current
               then (m, current, Some (ErrPreempted '''' (ft_Token current) (ft_Token latest)))
               else let updated = current\<lparr>ft_ExpiresAt := time_Add now2 (default_ttl additionalTTL)\<rparr>;
                        g = lm_generator m
                    in (m\<lparr>lm_generator := g\<lparr>tg_activeTokens := (tg_activeTokens g)(ft_Resource current \<mapsto> updated)\<rparr>\<rparr>, updated, None)
           | None \<Rightarrow>
               let updated = current\<lparr>ft_ExpiresAt := time_Add now2 (default_ttl additionalTTL)\<rparr>;
                   g = lm_generator m
               in (m\<lparr>lm_generator := g\<lparr>tg_activeTokens := (tg_activeTokens g)(ft_Resource current \<mapsto> updated)\<rparr>\<rparr>, updated, None)))"

definition NotifyPreemption :: "FencingToken \<Rightarrow> LeaseManager \<Rightarrow> (nat \<times> FencingToken) list" where
  "NotifyPreemption newToken m =
     (case lm_preemptSubs m (ft_Resource newToken) of
        None \<Rightarrow> []
      | Some callbacks \<Rightarrow> map (\<lambda>cb. (cb, newToken)) callbacks)"

definition OnPreemption :: "string \<Rightarrow> nat \<Rightarrow> LeaseManager \<Rightarrow> LeaseManager" where
  "OnPreemption resource callback m =
     m\<lparr>lm_preemptSubs := (lm_preemptSubs m)(resource \<mapsto>
         (case lm_preemptSubs m resource of None \<Rightarrow> [] | Some cbs \<Rightarrow> cbs) @ [callback])\<rparr>"

section \<open>Fenced storage\<close>

record StorageEntry =
  se_Value :: "8 word list"
  se_FencingToken :: FencingToken

record FencedStorage =
  fs_store :: "string \<rightharpoonup> StorageEntry"
  fs_highestToken :: "string \<rightharpoonup> uint64"
  fs_rejectedCnt :: uint64

definition NewFencedStorage :: FencedStorage where
  "NewFencedStorage = \<lparr>fs_store = Map.empty, fs_highestToken = Map.empty, fs_rejectedCnt = 0\<rparr>"

definition FencedStorage_Put :: "string \<Rightarrow> 8 word list \<Rightarrow> FencingToken \<Rightarrow> gotime \<Rightarrow> FencedStorage \<Rightarrow> FencedStorage \<times> fencing_error option" where
  "FencedStorage_Put key value token now s =
     (if IsExpired now token then (s, Some (ErrTokenExpired (ft_Token token) key (ft_ExpiresAt token)))
      else case fs_highestToken s key of
        Some highest \<Rightarrow>
          if ft_Token token < highest
          then (s\<lparr>fs_rejectedCnt := fs_rejectedCnt s + 1\<rparr>, Some (ErrStaleFencingToken (ft_Token token) highest key))
          else (s\<lparr>fs_highestToken := (fs_highestToken s)(key \<mapsto> ft_Token token),
                  fs_store := (fs_store s)(key \<mapsto> \<lparr>se_Value = value, se_FencingToken = token\<rparr>)\<rparr>, None)
      | None \<Rightarrow>
          (s\<lparr>fs_highestToken := (fs_highestToken s)(key \<mapsto> ft_Token token),
             fs_store := (fs_store s)(key \<mapsto> \<lparr>se_Value = value, se_FencingToken = token\<rparr>)\<rparr>, None))"

definition FencedStorage_Get :: "string \<Rightarrow> FencedStorage \<Rightarrow> 8 word list \<times> FencingToken \<times> bool" where
  "FencedStorage_Get key s =
     (case fs_store s key of
        None \<Rightarrow> ([], zero_token, False)
      | Some entry \<Rightarrow> (se_Value entry, se_FencingToken entry, True))"

definition FencedStorage_Delete :: "string \<Rightarrow> FencingToken \<Rightarrow> gotime \<Rightarrow> FencedStorage \<Rightarrow> FencedStorage \<times> fencing_error option" where
  "FencedStorage_Delete key token now s =
     (if IsExpired now token then (s, Some (ErrTokenExpired (ft_Token token) '''' (ft_ExpiresAt token)))
      else case fs_highestToken s key of
        Some highest \<Rightarrow>
          if ft_Token token < highest
          then (s\<lparr>fs_rejectedCnt := fs_rejectedCnt s + 1\<rparr>, Some (ErrStaleFencingToken (ft_Token token) highest ''''))
          else (s\<lparr>fs_highestToken := (fs_highestToken s)(key \<mapsto> ft_Token token), fs_store := (fs_store s)(key := None)\<rparr>, None)
      | None \<Rightarrow>
          (s\<lparr>fs_highestToken := (fs_highestToken s)(key \<mapsto> ft_Token token), fs_store := (fs_store s)(key := None)\<rparr>, None))"

definition HighestObservedToken :: "string \<Rightarrow> FencedStorage \<Rightarrow> uint64" where
  "HighestObservedToken key s = at0 (fs_highestToken s) key"

definition RejectedCount :: "FencedStorage \<Rightarrow> uint64" where
  "RejectedCount s = fs_rejectedCnt s"

section \<open>Contexts\<close>

text \<open>A context is its chain of values, innermost first. Only \<open>fencingKey\<close> is of this package.\<close>

datatype ctx_key = FencingKey | OtherKey string
datatype ctx_value = TokenValue FencingToken | OtherValue string
type_synonym ctx = "(ctx_key \<times> ctx_value) list"

definition WithFencingToken :: "ctx \<Rightarrow> FencingToken \<Rightarrow> ctx" where
  "WithFencingToken ctx token = (FencingKey, TokenValue token) # ctx"

definition FromContext :: "ctx \<Rightarrow> FencingToken \<times> bool" where
  "FromContext ctx =
     (case map_of ctx FencingKey of
        None \<Rightarrow> (zero_token, False)
      | Some (TokenValue tok) \<Rightarrow> (tok, True)
      | Some (OtherValue _) \<Rightarrow> (zero_token, False))"

definition RequireFencingToken :: "gotime \<Rightarrow> ctx \<Rightarrow> FencingToken \<times> fencing_error option" where
  "RequireFencingToken now ctx =
     (let (tok, ok) = FromContext ctx in
      if \<not> ok then (zero_token, Some ErrMissingContextToken)
      else if IsExpired now tok then (tok, Some (ErrTokenExpired (ft_Token tok) '''' (ft_ExpiresAt tok)))
      else (tok, None))"

definition DeriveSubStepToken :: "FencingToken \<Rightarrow> string \<Rightarrow> FencingToken" where
  "DeriveSubStepToken parent subStepID = parent\<lparr>ft_Owner := ft_Owner parent @ ''/'' @ subStepID\<rparr>"

definition WithDerivedSubStep :: "gotime \<Rightarrow> ctx \<Rightarrow> string \<Rightarrow> ctx \<times> FencingToken \<times> fencing_error option" where
  "WithDerivedSubStep now ctx subStepID =
     (case RequireFencingToken now ctx of
        (_, Some err) \<Rightarrow> (ctx, zero_token, Some err)
      | (parent, None) \<Rightarrow>
          let child = DeriveSubStepToken parent subStepID in (WithFencingToken ctx child, child, None))"

section \<open>What a token source promises\<close>

datatype gen_op = GAcquire string string duration gotime | GEpoch string

definition gen_step :: "(string \<Rightarrow> string \<Rightarrow> duration \<Rightarrow> gotime \<Rightarrow> 'g \<Rightarrow> 'g \<times> FencingToken) \<Rightarrow>
    (string \<Rightarrow> 'g \<Rightarrow> 'g \<times> uint64) \<Rightarrow> gen_op \<Rightarrow> 'g \<Rightarrow> 'g" where
  "gen_step acquire epoch op g = (case op of
      GAcquire r o1 ttl now \<Rightarrow> fst (acquire r o1 ttl now g)
    | GEpoch r \<Rightarrow> fst (epoch r g))"

definition acquisitions :: "string \<Rightarrow> gen_op list \<Rightarrow> nat" where
  "acquisitions r ops = length (filter (\<lambda>op. case op of GAcquire r' _ _ _ \<Rightarrow> r' = r | GEpoch _ \<Rightarrow> False) ops)"

locale token_source =
  fixes acquire :: "string \<Rightarrow> string \<Rightarrow> duration \<Rightarrow> gotime \<Rightarrow> 'g \<Rightarrow> 'g \<times> FencingToken"
    and epoch :: "string \<Rightarrow> 'g \<Rightarrow> 'g \<times> uint64"
    and sequence :: "string \<Rightarrow> 'g \<Rightarrow> uint64"
  assumes acquire_sequence: "sequence r (fst (acquire r' o1 ttl now g)) = (if r = r' then sequence r g + 1 else sequence r g)"
    and acquire_token: "ft_Token (snd (acquire r o1 ttl now g)) = sequence r g + 1"
    and epoch_sequence: "sequence r (fst (epoch r' g)) = sequence r g"
begin

lemma run_sequence: "sequence r (fold (gen_step acquire epoch) ops g) = sequence r g + of_nat (acquisitions r ops)"
proof (induction ops arbitrary: g)
  case (Cons op ops)
  then show ?case
    by (cases op) (simp_all add: gen_step_def acquisitions_def acquire_sequence epoch_sequence)
qed (simp add: acquisitions_def)

lemma token_number:
  assumes "sequence r g = 0"
  shows "ft_Token (snd (acquire r o1 ttl now (fold (gen_step acquire epoch) ops g))) = of_nat (Suc (acquisitions r ops))"
  using assms by (simp add: acquire_token run_sequence)

lemma later_token_greater:
  assumes "sequence r g = 0" "Suc (Suc (acquisitions r ops + acquisitions r ops')) < 2 ^ 64"
    and "g1 = fold (gen_step acquire epoch) ops g" "acquire r o1 ttl1 now1 g1 = (g2, t1)"
    and "acquire r o2 ttl2 now2 (fold (gen_step acquire epoch) ops' g2) = (g3, t2)"
  shows "ft_Token t1 < ft_Token t2"
proof -
  have "ft_Token t1 = of_nat (Suc (acquisitions r ops))"
    using token_number[OF assms(1), of o1 ttl1 now1 ops] assms(3,4) by simp
  moreover have "sequence r g2 = of_nat (Suc (acquisitions r ops))"
    using acquire_sequence[of r r o1 ttl1 now1 g1] run_sequence[of r ops g] assms(1,3,4) by simp
  then have "ft_Token t2 = of_nat (Suc (Suc (acquisitions r ops + acquisitions r ops')))"
    using acquire_token[of r o2 ttl2 now2 "fold (gen_step acquire epoch) ops' g2"] run_sequence[of r ops' g2] assms(5) by simp
  ultimately show ?thesis using assms(2) by (simp add: word_less_nat_alt unsigned_of_nat take_bit_nat_eq_self del: of_nat_Suc)
qed

end

interpretation locked: token_source AcquireToken NextEpoch CurrentTokenNumber
  by unfold_locales (simp_all add: AcquireToken_def NextEpoch_def CurrentTokenNumber_def Let_def)

lemma CurrentSeq_create: "CurrentSeq r (fst (getOrCreateCounter r' g)) = CurrentSeq r g"
  "rcn_counter (snd (getOrCreateCounter r' g)) = CurrentSeq r' g"
  by (auto simp: CurrentSeq_def getOrCreateCounter_def Let_def split: option.splits)

interpretation cas: token_source AcquireFastToken AdvanceEpoch CurrentSeq
proof
  fix r r' o1 ttl now and g :: CASTokenGenerator
  show "CurrentSeq r (fst (AcquireFastToken r' o1 ttl now g)) = (if r = r' then CurrentSeq r g + 1 else CurrentSeq r g)"
    using CurrentSeq_create(1)[of r r' g] CurrentSeq_create(2)[of r' g]
    by (simp add: AcquireFastToken_def Let_def split_beta) (simp add: CurrentSeq_def)
  show "ft_Token (snd (AcquireFastToken r o1 ttl now g)) = CurrentSeq r g + 1"
    by (simp add: AcquireFastToken_def Let_def split_beta CurrentSeq_create)
  show "CurrentSeq r (fst (AdvanceEpoch r' g)) = CurrentSeq r g"
    using CurrentSeq_create(1)[of r r' g] CurrentSeq_create(2)[of r' g]
    by (simp add: AdvanceEpoch_def Let_def split_beta) (simp add: CurrentSeq_def)
qed

section \<open>Stale writers\<close>

datatype storage_op = SPut string "8 word list" FencingToken gotime | SDelete string FencingToken gotime

definition storage_step :: "storage_op \<Rightarrow> FencedStorage \<Rightarrow> FencedStorage" where
  "storage_step op s = (case op of
      SPut k v t now \<Rightarrow> fst (FencedStorage_Put k v t now s)
    | SDelete k t now \<Rightarrow> fst (FencedStorage_Delete k t now s))"

lemma storage_step_highest:
  assumes "fs_highestToken s key = Some h"
  shows "\<exists>h'. fs_highestToken (storage_step op s) key = Some h' \<and> h \<le> h'"
  using assms
  by (cases op) (auto simp: storage_step_def FencedStorage_Put_def FencedStorage_Delete_def linorder_not_less split: option.splits)

lemma storage_run_highest:
  "fs_highestToken s key = Some h \<Longrightarrow> \<exists>h'. fs_highestToken (fold storage_step ops s) key = Some h' \<and> h \<le> h'"
proof (induction ops arbitrary: s h)
  case (Cons op ops)
  then obtain h1 where h1: "fs_highestToken (storage_step op s) key = Some h1" "h \<le> h1" using storage_step_highest by blast
  then show ?case using Cons.IH[OF h1(1)] by (metis fold_simps(2) order_trans)
qed auto

lemma Put_highest: "FencedStorage_Put key v t now s = (s', None) \<Longrightarrow> fs_highestToken s' key = Some (ft_Token t)"
  by (auto simp: FencedStorage_Put_def split: if_splits option.splits)

lemma stale_Put:
  "fs_highestToken s key = Some h \<Longrightarrow> ft_Token t < h \<Longrightarrow> FencedStorage_Put key v t now s = (s', err) \<Longrightarrow>
     err \<noteq> None \<and> fs_store s' = fs_store s \<and> fs_highestToken s' = fs_highestToken s"
  by (auto simp: FencedStorage_Put_def split: if_splits)

lemma stale_Delete:
  "fs_highestToken s key = Some h \<Longrightarrow> ft_Token t < h \<Longrightarrow> FencedStorage_Delete key t now s = (s', err) \<Longrightarrow>
     err \<noteq> None \<and> fs_store s' = fs_store s \<and> fs_highestToken s' = fs_highestToken s"
  by (auto simp: FencedStorage_Delete_def split: if_splits)

text \<open>
  (C21) Zombie writers. Let \<open>t1\<close> and later \<open>t2\<close> be tokens that a generator issued for the same resource,
  with any other calls in between. Once the storage has accepted a \<open>Put\<close> of a key under \<open>t2\<close>, then
  after any further writes and deletions a \<open>Put\<close> or \<open>Delete\<close> of that key under \<open>t1\<close> fails and changes
  no entry, as long as fewer than \<open>2\<^sup>64\<close> tokens were issued.
\<close>

theorem zombie_writer_rejected:
  assumes "Suc (Suc (acquisitions r ops + acquisitions r ops')) < 2 ^ 64"
    and "AcquireToken r owner1 ttl1 now1 (fold (gen_step AcquireToken NextEpoch) ops NewTokenGenerator) = (g2, t1)"
    and "AcquireToken r owner2 ttl2 now2 (fold (gen_step AcquireToken NextEpoch) ops' g2) = (g3, t2)"
    and "FencedStorage_Put key v2 t2 now3 s = (s1, None)"
    and "s2 = fold storage_step writes s1"
  shows "snd (FencedStorage_Put key v1 t1 now4 s2) \<noteq> None \<and> fs_store (fst (FencedStorage_Put key v1 t1 now4 s2)) = fs_store s2 \<and>
    snd (FencedStorage_Delete key t1 now4 s2) \<noteq> None \<and> fs_store (fst (FencedStorage_Delete key t1 now4 s2)) = fs_store s2"
proof -
  have "CurrentTokenNumber r NewTokenGenerator = 0" by (simp add: CurrentTokenNumber_def NewTokenGenerator_def at0_def)
  from locked.later_token_greater[OF this assms(1) refl assms(2,3)] have "ft_Token t1 < ft_Token t2" .
  moreover obtain h where h: "fs_highestToken s2 key = Some h" "ft_Token t2 \<le> h"
    using storage_run_highest[OF Put_highest[OF assms(4)]] assms(5) by blast
  ultimately have lt: "ft_Token t1 < h" by simp
  obtain s3 e3 s4 e4 where "FencedStorage_Put key v1 t1 now4 s2 = (s3, e3)" "FencedStorage_Delete key t1 now4 s2 = (s4, e4)" by fastforce
  then show ?thesis using stale_Put[OF h(1) lt] stale_Delete[OF h(1) lt] by simp
qed

theorem zombie_writer_rejected_witness:
  "\<exists>t1 t2 s1. snd (AcquireToken ''r'' ''a'' 0 0 NewTokenGenerator) = t1 \<and>
     snd (AcquireToken ''r'' ''b'' 0 1 (fst (AcquireToken ''r'' ''a'' 0 0 NewTokenGenerator))) = t2 \<and>
     FencedStorage_Put ''k'' [1] t2 2 NewFencedStorage = (s1, None) \<and> snd (FencedStorage_Put ''k'' [0] t1 3 s1) \<noteq> None"
proof -
  obtain g2 t1 where a1: "AcquireToken ''r'' ''a'' 0 0 NewTokenGenerator = (g2, t1)" by fastforce
  obtain g3 t2 where a2: "AcquireToken ''r'' ''b'' 0 1 g2 = (g3, t2)" by fastforce
  have "\<not> IsExpired 2 t2" using a2 by (auto simp: AcquireToken_def Let_def default_ttl_def IsExpired_def)
  then obtain s1 where p: "FencedStorage_Put ''k'' [1] t2 2 NewFencedStorage = (s1, None)"
    by (simp add: FencedStorage_Put_def NewFencedStorage_def)
  have "snd (FencedStorage_Put ''k'' [0] t1 3 s1) \<noteq> None"
    using zombie_writer_rejected[of "''r''" "[]" "[]" "''a''" 0 0 g2 t1 "''b''" 0 1 g3 t2 "''k''" "[1]" 2 NewFencedStorage s1 s1 "[]" "[0]" 3]
      a1 a2 p by (simp add: acquisitions_def)
  then show ?thesis using a1 a2 p by simp
qed



text \<open>
  Epochs. \<open>NextEpoch\<close> and \<open>AdvanceEpoch\<close> leave the token sequence as it is (their comments say that
  they reset it), and a \<open>NextEpoch\<close> before the first token of a resource is undone: the first
  \<open>AcquireToken\<close> stores epoch 1, so the epoch goes back from 2 to 1.
\<close>

theorem epoch_not_monotone:
  "CurrentTokenNumber r (fst (NextEpoch r' g)) = CurrentTokenNumber r g \<and> CurrentSeq r (fst (AdvanceEpoch r' h)) = CurrentSeq r h \<and>
   (let g2 = fst (NextEpoch ''r'' (fst (NextEpoch ''r'' NewTokenGenerator)))
    in at0 (tg_epochs g2) ''r'' = 2 \<and> ft_Epoch (snd (AcquireToken ''r'' ''o'' 0 0 g2)) = 1)"
  using locked.epoch_sequence cas.epoch_sequence
  by (simp add: NextEpoch_def AcquireToken_def NewTokenGenerator_def Let_def at0_def)

end
