(* ===== verification/Leader.thy ===== *)
theory Leader
  imports Tempest_Prelude
begin

text \<open>
  \<open>internal/leader\<close>: leader election by leases. \<open>Coordinator\<close> is an interface of the source, so the
  operations of a candidate take the coordinator's operations as arguments; \<open>InMemCoordinator\<close> is the
  implementation of the repository. Callbacks are numbered and their calls logged; the two signal
  channels of capacity one are flags.
\<close>

datatype leader_error = ErrNotLeader | ErrElectionClosed | ErrElectionAborted

datatype LeaderState = StateFollower | StateCandidate | StateLeader | StateUnknown int

fun LeaderState_String :: "LeaderState \<Rightarrow> string" where
  "LeaderState_String StateFollower = ''FOLLOWER''"
| "LeaderState_String StateCandidate = ''CANDIDATE''"
| "LeaderState_String StateLeader = ''LEADER''"
| "LeaderState_String (StateUnknown _) = ''UNKNOWN''"

record LeaderConfig =
  lc_LeaseDuration :: duration
  lc_RenewInterval :: duration
  lc_RetryInterval :: duration

definition DefaultConfig :: LeaderConfig where
  "DefaultConfig = \<lparr>lc_LeaseDuration = 500 * Millisecond, lc_RenewInterval = 150 * Millisecond, lc_RetryInterval = 100 * Millisecond\<rparr>"

record LeaderRecord =
  lr_LeaderID :: string
  lr_Term :: uint64
  lr_ExpiresAt :: gotime

type_synonym 'co try_acquire = "string \<Rightarrow> uint64 \<Rightarrow> duration \<Rightarrow> gotime \<Rightarrow> 'co \<Rightarrow> 'co \<times> LeaderRecord \<times> bool \<times> leader_error option"
type_synonym 'co release_lease = "string \<Rightarrow> uint64 \<Rightarrow> 'co \<Rightarrow> 'co"

section \<open>Candidates\<close>

record Candidate =
  cd_id :: string
  cd_cfg :: LeaderConfig
  cd_state :: LeaderState
  cd_term :: uint64
  cd_isLeader :: bool
  cd_stopped :: bool
  cd_electedCh :: bool
  cd_revokedCh :: bool
  cd_onElected :: "nat list"
  cd_onRevoked :: "nat list"
  cd_called :: "nat list"

definition NewCandidate :: "string \<Rightarrow> LeaderConfig \<Rightarrow> Candidate" where
  "NewCandidate ident cfg =
     (let c1 = (if lc_LeaseDuration cfg \<le> 0 then cfg\<lparr>lc_LeaseDuration := 500 * Millisecond\<rparr> else cfg);
          c2 = (if lc_RenewInterval c1 \<le> 0 then c1\<lparr>lc_RenewInterval := 150 * Millisecond\<rparr> else c1);
          c3 = (if lc_RetryInterval c2 \<le> 0 then c2\<lparr>lc_RetryInterval := 100 * Millisecond\<rparr> else c2)
      in \<lparr>cd_id = ident, cd_cfg = c3, cd_state = StateFollower, cd_term = 0, cd_isLeader = False, cd_stopped = False,
          cd_electedCh = False, cd_revokedCh = False, cd_onElected = [], cd_onRevoked = [], cd_called = []\<rparr>)"

definition OnElected :: "nat \<Rightarrow> Candidate \<Rightarrow> Candidate" where
  "OnElected fn c = c\<lparr>cd_onElected := cd_onElected c @ [fn]\<rparr>"

definition OnRevoked :: "nat \<Rightarrow> Candidate \<Rightarrow> Candidate" where
  "OnRevoked fn c = c\<lparr>cd_onRevoked := cd_onRevoked c @ [fn]\<rparr>"

definition IsLeader :: "Candidate \<Rightarrow> bool" where
  "IsLeader c \<longleftrightarrow> cd_isLeader c"

definition Candidate_Term :: "Candidate \<Rightarrow> uint64" where
  "Candidate_Term c = cd_term c"

definition Campaign :: "'co try_acquire \<Rightarrow> gotime \<Rightarrow> Candidate \<Rightarrow> 'co \<Rightarrow> Candidate \<times> 'co \<times> bool \<times> leader_error option" where
  "Campaign try_acq now c co =
     (let c1 = c\<lparr>cd_state := StateCandidate\<rparr>;
          (co1, rec, acquired, err) = try_acq (cd_id c1) (cd_term c1) (lc_LeaseDuration (cd_cfg c1)) now co
      in if err \<noteq> None then (c1\<lparr>cd_state := StateFollower\<rparr>, co1, False, err)
         else if acquired
           then (c1\<lparr>cd_state := StateLeader, cd_term := lr_Term rec, cd_isLeader := True\<rparr>, co1, True, None)
         else (c1\<lparr>cd_state := StateFollower, cd_isLeader := False\<rparr>, co1, False, None))"

definition triggerElected :: "Candidate \<Rightarrow> Candidate" where
  "triggerElected c = c\<lparr>cd_electedCh := True, cd_called := cd_called c @ cd_onElected c\<rparr>"

definition triggerRevoked :: "Candidate \<Rightarrow> Candidate" where
  "triggerRevoked c = c\<lparr>cd_revokedCh := True, cd_called := cd_called c @ cd_onRevoked c\<rparr>"

definition stepDown :: "'co release_lease \<Rightarrow> Candidate \<Rightarrow> 'co \<Rightarrow> Candidate \<times> 'co" where
  "stepDown release c co =
     (let wasLeader = (cd_state c = StateLeader);
          c1 = c\<lparr>cd_state := StateFollower, cd_isLeader := False\<rparr>
      in if wasLeader then (triggerRevoked c1, release (cd_id c) (cd_term c) co) else (c1, co))"

text \<open>
  One event of \<open>runLoop\<close>: stop and cancellation end it, a tick renews the lease or campaigns. The last
  component is the interval the ticker is reset to, \<open>None\<close> when the loop ends.
\<close>

datatype loop_event = LoopStop | LoopDone | LoopTick gotime

definition runLoop_step :: "'co try_acquire \<Rightarrow> 'co release_lease \<Rightarrow> loop_event \<Rightarrow> Candidate \<Rightarrow> 'co \<Rightarrow> Candidate \<times> 'co \<times> duration option" where
  "runLoop_step try_acq release ev c co = (case ev of
      LoopStop \<Rightarrow> (let (c1, co1) = stepDown release c co in (c1, co1, None))
    | LoopDone \<Rightarrow> (let (c1, co1) = stepDown release c co in (c1, co1, None))
    | LoopTick now \<Rightarrow>
        if cd_state c = StateLeader then
          (let (co1, rec, renewed, err) = try_acq (cd_id c) (Candidate_Term c) (lc_LeaseDuration (cd_cfg c)) now co
           in if err \<noteq> None \<or> \<not> renewed
              then (let (c2, co2) = stepDown release c co1 in (c2, co2, Some (lc_RetryInterval (cd_cfg c2))))
              else (c\<lparr>cd_term := lr_Term rec\<rparr>, co1, Some (lc_RenewInterval (cd_cfg c))))
        else
          (let (c1, co1, won, err) = Campaign try_acq now c co
           in if won then (triggerElected c1, co1, Some (lc_RenewInterval (cd_cfg c1)))
              else (c1, co1, Some (lc_RetryInterval (cd_cfg c1)))))"

definition Candidate_Stop :: "Candidate \<Rightarrow> Candidate" where
  "Candidate_Stop c = c\<lparr>cd_stopped := True\<rparr>"

section \<open>In-memory coordinator\<close>

type_synonym InMemCoordinator = LeaderRecord

definition NewInMemCoordinator :: InMemCoordinator where
  "NewInMemCoordinator = \<lparr>lr_LeaderID = '''', lr_Term = 0, lr_ExpiresAt = 0\<rparr>"

definition TryAcquireOrRenew :: "InMemCoordinator try_acquire" where
  "TryAcquireOrRenew candidateID term ttl now c =
     (if lr_LeaderID c \<noteq> '''' \<and> lr_LeaderID c \<noteq> candidateID \<and> time_Before now (lr_ExpiresAt c) then (c, c, False, None)
      else let c1 = (if lr_LeaderID c \<noteq> candidateID \<or> time_After now (lr_ExpiresAt c)
                     then c\<lparr>lr_Term := lr_Term c + 1\<rparr> else c);
               c2 = c1\<lparr>lr_LeaderID := candidateID, lr_ExpiresAt := time_Add now ttl\<rparr>
           in (c2, c2, True, None))"

definition GetLeader :: "gotime \<Rightarrow> InMemCoordinator \<Rightarrow> leader_error + LeaderRecord" where
  "GetLeader now c = (if time_After now (lr_ExpiresAt c) then Inl ErrNotLeader else Inr c)"

definition Coordinator_Release :: "InMemCoordinator release_lease" where
  "Coordinator_Release candidateID term c =
     (if lr_LeaderID c = candidateID then c\<lparr>lr_LeaderID := '''', lr_ExpiresAt := 0\<rparr> else c)"

section \<open>A cluster of candidates\<close>

text \<open>
  Candidates that share a coordinator, with the events that reach them: a direct call of \<open>Campaign\<close>, or
  an event of the loop of one of them.
\<close>

datatype cluster_event = CampaignAt string gotime | LoopAt string loop_event

record 'co cluster =
  cl_coord :: 'co
  cl_cand :: "string \<Rightarrow> Candidate"

definition cluster_step :: "'co try_acquire \<Rightarrow> 'co release_lease \<Rightarrow> cluster_event \<Rightarrow> 'co cluster \<Rightarrow> 'co cluster" where
  "cluster_step try_acq release ev s = (case ev of
      CampaignAt i now \<Rightarrow>
        (let (c, co, _) = Campaign try_acq now (cl_cand s i) (cl_coord s)
         in s\<lparr>cl_coord := co, cl_cand := (cl_cand s)(i := c)\<rparr>)
    | LoopAt i le \<Rightarrow>
        (let (c, co, _) = runLoop_step try_acq release le (cl_cand s i) (cl_coord s)
         in s\<lparr>cl_coord := co, cl_cand := (cl_cand s)(i := c)\<rparr>))"

locale coordinator =
  fixes try_acq :: "'co try_acquire"
    and release :: "'co release_lease"
    and term_of :: "'co \<Rightarrow> uint64"
    and owner_of :: "'co \<Rightarrow> string"
  assumes no_error: "try_acq i t ttl now co = (co', rec, ok, err) \<Longrightarrow> err = None"
    and granted: "try_acq i t ttl now co = (co', rec, True, err) \<Longrightarrow>
      owner_of co' = i \<and> lr_Term rec = term_of co' \<and> (owner_of co = i \<and> term_of co' = term_of co \<or> term_of co' = term_of co + 1)"
    and refused: "try_acq i t ttl now co = (co', rec, False, err) \<Longrightarrow> co' = co"
    and released: "term_of (release i t co) = term_of co \<and> owner_of (release i t co) \<in> {owner_of co, ''''} \<and>
      (owner_of co \<noteq> i \<longrightarrow> owner_of (release i t co) = owner_of co)"
begin

definition terms_ok :: "nat \<Rightarrow> 'co cluster \<Rightarrow> bool" where
  "terms_ok n s \<longleftrightarrow> unat (term_of (cl_coord s)) \<le> n \<and>
     (\<forall>i. cd_id (cl_cand s i) = i) \<and>
     (\<forall>i. cd_isLeader (cl_cand s i) \<longleftrightarrow> cd_state (cl_cand s i) = StateLeader) \<and>
     (\<forall>i. cd_isLeader (cl_cand s i) \<longrightarrow> cd_term (cl_cand s i) \<le> term_of (cl_coord s) \<and>
        (cd_term (cl_cand s i) = term_of (cl_coord s) \<longrightarrow> owner_of (cl_coord s) = i)) \<and>
     (\<forall>i j. i \<noteq> j \<longrightarrow> cd_isLeader (cl_cand s i) \<longrightarrow> cd_isLeader (cl_cand s j) \<longrightarrow> cd_term (cl_cand s i) \<noteq> cd_term (cl_cand s j))"

lemma terms_okD:
  assumes "terms_ok n s"
  shows "unat (term_of (cl_coord s)) \<le> n" "cd_id (cl_cand s i) = i"
    "cd_isLeader (cl_cand s i) \<longleftrightarrow> cd_state (cl_cand s i) = StateLeader"
    "cd_isLeader (cl_cand s i) \<Longrightarrow> cd_term (cl_cand s i) \<le> term_of (cl_coord s)"
    "cd_isLeader (cl_cand s i) \<Longrightarrow> cd_term (cl_cand s i) = term_of (cl_coord s) \<Longrightarrow> owner_of (cl_coord s) = i"
    "i \<noteq> j \<Longrightarrow> cd_isLeader (cl_cand s i) \<Longrightarrow> cd_isLeader (cl_cand s j) \<Longrightarrow> cd_term (cl_cand s i) \<noteq> cd_term (cl_cand s j)"
  using assms unfolding terms_ok_def by blast+

lemma terms_ok_mono: "terms_ok n s \<Longrightarrow> terms_ok (Suc n) s"
  by (auto simp: terms_ok_def)

lemma lead:
  assumes ok: "terms_ok n s" and n: "Suc n < 2 ^ 64" and t: "try_acq i x ttl now (cl_coord s) = (co', rec, True, err)"
    and c: "cd_id c = i" "cd_isLeader c" "cd_state c = StateLeader" "cd_term c = lr_Term rec"
  shows "terms_ok (Suc n) (s\<lparr>cl_coord := co', cl_cand := (cl_cand s)(i := c)\<rparr>)"
proof -
  note G = granted[OF t] and D = terms_okD[OF ok]
  have "unat (term_of (cl_coord s) + 1) = Suc (unat (term_of (cl_coord s)))"
    using D(1) n by (subst unat_plus_if') simp
  then have "term_of co' = term_of (cl_coord s) \<or> unat (term_of co') = Suc (unat (term_of (cl_coord s)))" using G by metis
  then consider (same) "term_of co' = term_of (cl_coord s)" "owner_of (cl_coord s) = i"
    | (next_term) "unat (term_of co') = Suc (unat (term_of (cl_coord s)))"
    using G \<open>unat (term_of (cl_coord s) + 1) = _\<close> by metis
  then have other: "cd_term (cl_cand s j) < term_of co'" if "j \<noteq> i" "cd_isLeader (cl_cand s j)" for j
  proof cases
    case same
    then show ?thesis using that D(4,5)[of j] by (metis order_le_less)
  next
    case next_term
    then show ?thesis using D(4)[OF that(2)] by (simp add: word_less_nat_alt word_le_nat_alt)
  qed
  have "unat (term_of co') \<le> Suc n"
    using D(1) \<open>term_of co' = _ \<or> _\<close> by (metis Suc_le_mono le_SucI)
  moreover have "cd_term (cl_cand s j) \<noteq> term_of co'" "term_of co' \<noteq> cd_term (cl_cand s j)" "cd_term (cl_cand s j) \<le> term_of co'"
    if "j \<noteq> i" "cd_isLeader (cl_cand s j)" for j using other[OF that] by auto
  moreover have "owner_of co' = i" "cd_term c = term_of co'" using G c(4) by simp_all
  ultimately show ?thesis
    using c(1-3) D(2,3) D(6) unfolding terms_ok_def by auto
qed

lemma follow:
  assumes ok: "terms_ok n s" and co: "term_of co' = term_of (cl_coord s)" "owner_of (cl_coord s) \<noteq> i \<Longrightarrow> owner_of co' = owner_of (cl_coord s)"
    and c: "cd_id c = i" "\<not> cd_isLeader c" "cd_state c \<noteq> StateLeader"
  shows "terms_ok n (s\<lparr>cl_coord := co', cl_cand := (cl_cand s)(i := c)\<rparr>)"
  using c terms_okD[OF ok] co unfolding terms_ok_def by auto

lemma campaign_ok:
  assumes ok: "terms_ok n s" and n: "Suc n < 2 ^ 64"
  shows "terms_ok (Suc n) (cluster_step try_acq release (CampaignAt i now) s)"
proof -
  let ?c = "cl_cand s i"
  obtain co' rec got err where t: "try_acq (cd_id ?c) (cd_term ?c) (lc_LeaseDuration (cd_cfg ?c)) now (cl_coord s) = (co', rec, got, err)"
    using prod_cases4 by blast
  have e: "err = None" by (rule no_error[OF t])
  have ident: "cd_id ?c = i" by (rule terms_okD(2)[OF ok])
  show ?thesis
  proof (cases got)
    case True
    then show ?thesis
      using lead[OF ok n t[unfolded ident eqTrueI[OF True]]] ident t e by (simp add: cluster_step_def Campaign_def Let_def)
  next
    case False
    then have "co' = cl_coord s" using refused[OF t[simplified False]] by blast
    then show ?thesis
      using terms_ok_mono[OF follow[OF ok, of "cl_coord s" i "?c\<lparr>cd_state := StateFollower, cd_isLeader := False\<rparr>"]] ident t e False by (simp add: cluster_step_def Campaign_def Let_def)
  qed
qed

lemma stepDown_ok:
  assumes ok: "terms_ok n s" and c: "cd_id c = i" and co: "co = cl_coord s"
  shows "terms_ok n (s\<lparr>cl_coord := snd (stepDown release c co), cl_cand := (cl_cand s)(i := fst (stepDown release c co))\<rparr>)"
  using follow[OF ok, of "snd (stepDown release c co)" i "fst (stepDown release c co)"] released[of i "cd_term c" co] c co
  by (auto simp: stepDown_def triggerRevoked_def Let_def)

lemma loop_ok:
  assumes ok: "terms_ok n s" and n: "Suc n < 2 ^ 64"
  shows "terms_ok (Suc n) (cluster_step try_acq release (LoopAt i ev) s)"
proof -
  let ?c = "cl_cand s i"
  have ident: "cd_id ?c = i" by (rule terms_okD(2)[OF ok])
  note down = terms_ok_mono[OF stepDown_ok[OF ok ident refl]]
  show ?thesis
  proof (cases "\<exists>now. ev = LoopTick now")
    case False
    then show ?thesis using down by (cases ev) (simp_all add: cluster_step_def runLoop_step_def split_beta)
  next
    case True
    then obtain now where ev: "ev = LoopTick now" by blast
    obtain co' rec got err where t: "try_acq (cd_id ?c) (cd_term ?c) (lc_LeaseDuration (cd_cfg ?c)) now (cl_coord s) = (co', rec, got, err)"
      using prod_cases4 by blast
    have e: "err = None" by (rule no_error[OF t])
    have ref: "co' = cl_coord s" if ng: "\<not> got" using refused[OF t[simplified ng]] by blast
    show ?thesis
    proof (cases "cd_state ?c = StateLeader")
      case True
      show ?thesis
      proof (cases got)
        case g: True
        show ?thesis
          using lead[OF ok n t[unfolded ident eqTrueI[OF g]], of "?c\<lparr>cd_term := lr_Term rec\<rparr>"] terms_okD(3)[OF ok, of i] True ident t e g ev
          by (simp add: cluster_step_def runLoop_step_def Candidate_Term_def Let_def)
      next
        case False
        then show ?thesis using down True t e ev ref
          by (simp add: cluster_step_def runLoop_step_def Candidate_Term_def Let_def split_beta)
      qed
    next
      case False
      show ?thesis
      proof (cases got)
        case g: True
        show ?thesis using lead[OF ok n t[unfolded ident eqTrueI[OF g]]] False ident t e g ev
          by (simp add: cluster_step_def runLoop_step_def Campaign_def triggerElected_def Let_def)
      next
        case g: False
        show ?thesis using terms_ok_mono[OF follow[OF ok, of "cl_coord s" i "?c\<lparr>cd_state := StateFollower, cd_isLeader := False\<rparr>"]] ref[OF g] False ident t e g ev
          by (simp add: cluster_step_def runLoop_step_def Campaign_def Let_def)
      qed
    qed
  qed
qed

lemma run_terms_ok:
  "terms_ok n s \<Longrightarrow> n + length evs < 2 ^ 64 \<Longrightarrow> terms_ok (n + length evs) (fold (cluster_step try_acq release) evs s)"
proof (induction evs arbitrary: n s)
  case (Cons ev evs)
  have "terms_ok (Suc n) (cluster_step try_acq release ev s)"
    using Cons.prems by (cases ev) (simp_all add: campaign_ok loop_ok)
  then show ?case using Cons.IH[of "Suc n" "cluster_step try_acq release ev s"] Cons.prems(2) by simp
qed simp

end

interpretation inmem: coordinator TryAcquireOrRenew Coordinator_Release lr_Term lr_LeaderID
  by unfold_locales (auto simp: TryAcquireOrRenew_def Coordinator_Release_def Let_def split: if_splits)

definition new_cluster :: "LeaderConfig \<Rightarrow> InMemCoordinator cluster" where
  "new_cluster cfg = \<lparr>cl_coord = NewInMemCoordinator, cl_cand = (\<lambda>i. NewCandidate i cfg)\<rparr>"

lemma new_cluster_ok: "inmem.terms_ok 0 (new_cluster cfg)"
  by (simp add: inmem.terms_ok_def new_cluster_def NewInMemCoordinator_def NewCandidate_def Let_def)

text \<open>
  (C22) Fencing terms. Candidates that share an in-memory coordinator never lead in the same term: after
  any fewer than \<open>2\<^sup>64\<close> campaigns, renewals, refusals and resignations, at any times, two different
  candidates whose \<open>IsLeader\<close> is true have different terms, and neither term exceeds the coordinator's.
\<close>

theorem one_leader_per_term:
  assumes "length evs < 2 ^ 64" "s = fold (cluster_step TryAcquireOrRenew Coordinator_Release) evs (new_cluster cfg)"
    and "i \<noteq> j" "IsLeader (cl_cand s i)" "IsLeader (cl_cand s j)"
  shows "Candidate_Term (cl_cand s i) \<noteq> Candidate_Term (cl_cand s j) \<and>
    Candidate_Term (cl_cand s i) \<le> lr_Term (cl_coord s)"
proof -
  have "inmem.terms_ok (length evs) s"
    using inmem.run_terms_ok[OF new_cluster_ok, of evs] assms(1,2) by simp
  then show ?thesis using inmem.terms_okD(4,6) assms(3-5) unfolding IsLeader_def Candidate_Term_def by blast
qed

definition split_events :: "cluster_event list" where
  "split_events = [CampaignAt ''a'' 0, CampaignAt ''b'' (600 * Millisecond)]"

text \<open>
  \<open>IsLeader\<close> is not bounded by the lease: a candidate whose lease of 500 milliseconds has run out
  and was taken over by another still answers true, so two candidates report leadership at once (with
  different terms), although the comment of \<open>IsLeader\<close> promises that the candidate holds active
  leadership.
\<close>

theorem expired_leader_reports_leadership:
  "let s = fold (cluster_step TryAcquireOrRenew Coordinator_Release) split_events (new_cluster DefaultConfig)
   in IsLeader (cl_cand s ''a'') \<and> IsLeader (cl_cand s ''b'') \<and> lr_LeaderID (cl_coord s) = ''b'' \<and>
      Candidate_Term (cl_cand s ''a'') = 1 \<and> Candidate_Term (cl_cand s ''b'') = 2"
  by code_simp

theorem one_leader_per_term_witness:
  "Candidate_Term (cl_cand (fold (cluster_step TryAcquireOrRenew Coordinator_Release) split_events (new_cluster DefaultConfig)) ''a'') \<noteq>
   Candidate_Term (cl_cand (fold (cluster_step TryAcquireOrRenew Coordinator_Release) split_events (new_cluster DefaultConfig)) ''b'')"
proof -
  let ?s = "fold (cluster_step TryAcquireOrRenew Coordinator_Release) split_events (new_cluster DefaultConfig)"
  have "IsLeader (cl_cand ?s ''a'')" "IsLeader (cl_cand ?s ''b'')" by code_simp+
  moreover have "length split_events < 2 ^ 64" "''a'' \<noteq> ''b''" by (simp_all add: split_events_def)
  ultimately show ?thesis using one_leader_per_term[OF _ refl, of split_events "''a''" "''b''" DefaultConfig] by blast
qed

end
