(* ===== verification/Circuit_Breaker.thy ===== *)
theory Circuit_Breaker
  imports Refinement
begin

text \<open>\<open>internal/circuitbreaker\<close>. Every reading of the clock is an argument.\<close>

datatype CBState = CBClosed | CBOpen | CBHalfOpen | CBOther int

fun CBState_String :: "CBState \<Rightarrow> string" where
  "CBState_String CBClosed = ''closed''"
| "CBState_String CBOpen = ''open''"
| "CBState_String CBHalfOpen = ''half-open''"
| "CBState_String (CBOther _) = ''unknown''"

record Breaker =
  cb_state :: CBState
  cb_failureCount :: int
  cb_successCount :: int
  cb_failureThreshold :: int
  cb_successThreshold :: int
  cb_timeout :: duration
  cb_lastFailure :: gotime
  cb_halfOpenMax :: int
  cb_halfOpenCount :: int

definition Breaker_New :: "int \<Rightarrow> int \<Rightarrow> duration \<Rightarrow> Breaker" where
  "Breaker_New failureThreshold successThreshold timeout =
     \<lparr>cb_state = CBClosed, cb_failureCount = 0, cb_successCount = 0, cb_failureThreshold = failureThreshold,
      cb_successThreshold = successThreshold, cb_timeout = timeout, cb_lastFailure = 0, cb_halfOpenMax = 1, cb_halfOpenCount = 0\<rparr>"

definition Allow :: "gotime \<Rightarrow> Breaker \<Rightarrow> Breaker \<times> bool" where
  "Allow now b = (case cb_state b of
      CBClosed \<Rightarrow> (b, True)
    | CBOpen \<Rightarrow>
        if time_Sub now (cb_lastFailure b) > cb_timeout b
        then (b\<lparr>cb_state := CBHalfOpen, cb_halfOpenCount := 0, cb_successCount := 0\<rparr>, True)
        else (b, False)
    | CBHalfOpen \<Rightarrow> (b, cb_halfOpenCount b < cb_halfOpenMax b)
    | CBOther _ \<Rightarrow> (b, False))"

definition RecordSuccess :: "Breaker \<Rightarrow> Breaker" where
  "RecordSuccess b = (case cb_state b of
      CBClosed \<Rightarrow> b\<lparr>cb_failureCount := 0\<rparr>
    | CBHalfOpen \<Rightarrow>
        (let b1 = b\<lparr>cb_successCount := cb_successCount b + 1\<rparr>
         in if cb_successCount b1 \<ge> cb_successThreshold b1
            then b1\<lparr>cb_state := CBClosed, cb_failureCount := 0, cb_successCount := 0\<rparr> else b1)
    | _ \<Rightarrow> b)"

definition RecordFailure :: "gotime \<Rightarrow> Breaker \<Rightarrow> Breaker" where
  "RecordFailure now b = (case cb_state b of
      CBClosed \<Rightarrow>
        (let b1 = b\<lparr>cb_failureCount := cb_failureCount b + 1\<rparr>
         in if cb_failureCount b1 \<ge> cb_failureThreshold b1
            then b1\<lparr>cb_state := CBOpen, cb_lastFailure := now\<rparr> else b1)
    | CBHalfOpen \<Rightarrow> b\<lparr>cb_state := CBOpen, cb_lastFailure := now, cb_halfOpenCount := 0, cb_successCount := 0\<rparr>
    | _ \<Rightarrow> b)"

definition Breaker_State :: "gotime \<Rightarrow> Breaker \<Rightarrow> CBState" where
  "Breaker_State now b =
     (if cb_state b = CBOpen \<and> time_Sub now (cb_lastFailure b) > cb_timeout b then CBHalfOpen else cb_state b)"

definition FailureCount :: "Breaker \<Rightarrow> int" where
  "FailureCount b = cb_failureCount b"

definition Breaker_Reset :: "Breaker \<Rightarrow> Breaker" where
  "Breaker_Reset b = b\<lparr>cb_state := CBClosed, cb_failureCount := 0, cb_successCount := 0, cb_halfOpenCount := 0\<rparr>"

section \<open>Sequences of calls\<close>

datatype cb_op = CAllow gotime | CSuccess | CFailure gotime | CReset

definition cb_step :: "cb_op \<Rightarrow> Breaker \<Rightarrow> Breaker \<times> bool option" where
  "cb_step op b = (case op of
      CAllow now \<Rightarrow> (fst (Allow now b), Some (snd (Allow now b)))
    | CSuccess \<Rightarrow> (RecordSuccess b, None)
    | CFailure now \<Rightarrow> (RecordFailure now b, None)
    | CReset \<Rightarrow> (Breaker_Reset b, None))"

fun op_within :: "gotime \<Rightarrow> cb_op \<Rightarrow> bool" where
  "op_within deadline (CAllow now) = (now \<le> deadline)"
| "op_within deadline CReset = False"
| "op_within deadline _ = True"

lemma open_step:
  assumes "cb_state b = CBOpen" "op_within (cb_lastFailure b + cb_timeout b) op"
    and "0 \<le> cb_timeout b" "cb_timeout b < 2 ^ 63 - 1"
  shows "fst (cb_step op b) = b \<and> snd (cb_step op b) \<noteq> Some True"
  using assms time_Sub_less[of "cb_timeout b"]
  by (cases op) (auto simp: cb_step_def Allow_def RecordSuccess_def RecordFailure_def)

lemma open_run:
  assumes "cb_state b = CBOpen" "0 \<le> cb_timeout b" "cb_timeout b < 2 ^ 63 - 1"
    and "list_all (op_within (cb_lastFailure b + cb_timeout b)) ops"
  shows "fst (run_ops cb_step ops b) = b \<and> Some True \<notin> set (snd (run_ops cb_step ops b))"
  using assms(4)
proof (induction ops)
  case (Cons op ops)
  then have "fst (cb_step op b) = b" "snd (cb_step op b) \<noteq> Some True" using open_step[OF assms(1) _ assms(2,3), of op] by simp_all
  then show ?case using Cons by (auto simp: Let_def)
qed simp

lemma failures_count:
  assumes "cb_state b = CBClosed" "cb_failureCount b + int (length ts) < cb_failureThreshold b"
  shows "fold RecordFailure ts b = b\<lparr>cb_failureCount := cb_failureCount b + int (length ts)\<rparr>"
  using assms
proof (induction ts arbitrary: b)
  case (Cons t ts)
  then show ?case by (simp add: RecordFailure_def Let_def)
qed simp

text \<open>
  (C34) Tripping. A new breaker stays closed through fewer than \<open>failureThreshold\<close> failures and is open
  from the failure that reaches the threshold on; then, until the timeout has passed since that
  failure, no sequence of \<open>Allow\<close>, \<open>RecordSuccess\<close> and \<open>RecordFailure\<close> calls changes it, and every
  \<open>Allow\<close> is refused.
\<close>

theorem Breaker_trips:
  assumes "int (length ts) + 1 = threshold" "0 \<le> timeout" "timeout < 2 ^ 63 - 1"
    and "b = fold RecordFailure ts (Breaker_New threshold successes timeout)" "b' = RecordFailure t b"
    and "list_all (op_within (t + timeout)) ops"
  shows "snd (Allow now b) \<and> cb_state b' = CBOpen \<and> fst (run_ops cb_step ops b') = b' \<and>
    Some True \<notin> set (snd (run_ops cb_step ops b'))"
proof -
  have b: "b = (Breaker_New threshold successes timeout)\<lparr>cb_failureCount := int (length ts)\<rparr>"
    using failures_count[of "Breaker_New threshold successes timeout" ts] assms(1,4) by (simp add: Breaker_New_def)
  then have "cb_state b' = CBOpen" "cb_lastFailure b' = t" "cb_timeout b' = timeout"
    using assms(1) by (simp_all add: assms(5) RecordFailure_def Breaker_New_def)
  moreover have "snd (Allow now b)" by (simp add: b Allow_def Breaker_New_def)
  ultimately show ?thesis using open_run[of b' ops] assms(2,3,6) by simp
qed

theorem Breaker_trips_witness:
  "cb_state (RecordFailure 7 (RecordFailure 5 (Breaker_New 2 1 100))) = CBOpen \<and>
   Some True \<notin> set (snd (run_ops cb_step [CAllow 107, CSuccess, CAllow 50] (RecordFailure 7 (RecordFailure 5 (Breaker_New 2 1 100)))))"
  using Breaker_trips[of "[5]" 2 100 "RecordFailure 5 (Breaker_New 2 1 100)" 1 _ 7 "[CAllow 107, CSuccess, CAllow 50]"] by simp

lemma half_open_count:
  "cb_halfOpenCount b = 0 \<Longrightarrow> cb_halfOpenCount (fst (cb_step op b)) = 0 \<and> cb_halfOpenMax (fst (cb_step op b)) = cb_halfOpenMax b"
  by (cases op) (auto simp: cb_step_def Allow_def RecordSuccess_def RecordFailure_def Breaker_Reset_def Let_def split: CBState.splits)

lemma half_open_count_run:
  "cb_halfOpenCount b = 0 \<Longrightarrow> cb_halfOpenCount (fst (run_ops cb_step ops b)) = 0 \<and>
     cb_halfOpenMax (fst (run_ops cb_step ops b)) = cb_halfOpenMax b"
  by (induction ops arbitrary: b) (simp_all add: Let_def half_open_count)

text \<open>
  The limit on half-open probes does not hold. No operation ever increments \<open>halfOpenCount\<close>, so a
  breaker that is half-open, however it got there, allows every request, although \<open>halfOpenMax\<close> is 1.
\<close>

theorem half_open_unlimited:
  assumes "b = fst (run_ops cb_step ops (Breaker_New failures successes timeout))" "cb_state b = CBHalfOpen"
  shows "cb_halfOpenMax b = 1 \<and> run_ops cb_step (map CAllow nows) b = (b, replicate (length nows) (Some True))"
proof -
  have "cb_halfOpenCount b = 0" "cb_halfOpenMax b = 1"
    using half_open_count_run[of "Breaker_New failures successes timeout" ops] assms(1) by (simp_all add: Breaker_New_def)
  then have "cb_step (CAllow now) b = (b, Some True)" for now using assms(2) by (simp add: cb_step_def Allow_def)
  then show ?thesis using \<open>cb_halfOpenMax b = 1\<close> by (induction nows) (simp_all add: Let_def)
qed

theorem half_open_unlimited_witness:
  "snd (run_ops cb_step [CAllow 200, CAllow 200, CAllow 200] (fst (run_ops cb_step [CFailure 5, CAllow 150] (Breaker_New 1 1 100)))) =
     [Some True, Some True, Some True]"
proof -
  have "cb_state (fst (run_ops cb_step [CFailure 5, CAllow 150] (Breaker_New 1 1 100))) = CBHalfOpen" by code_simp
  from half_open_unlimited[OF refl this, of "[200, 200, 200]"] show ?thesis by (simp add: numeral_3_eq_3)
qed

end
