(* ===== verification/Saga.thy ===== *)
theory Saga
  imports Tempest_Prelude
begin

text \<open>
  \<open>internal/saga\<close>: steps with compensations. The outside world that the steps act on is a value of type
  \<open>'w\<close>; \<open>Execute\<close> and \<open>Compensate\<close> of a step are functions on it that return Go's error (\<open>None\<close> for nil).
\<close>

type_synonym 'w action = "'w \<Rightarrow> 'w \<times> string option"

record 'w SagaStep =
  ss_Name :: string
  ss_Execute :: "'w action"
  ss_Compensate :: "'w action option"

record 'w Saga =
  sg_steps :: "'w SagaStep list"
  sg_executed :: "'w SagaStep list"
  sg_completed :: bool
  sg_failed :: bool
  sg_err :: "string option"

definition Saga_New :: "'w Saga" where
  "Saga_New = \<lparr>sg_steps = [], sg_executed = [], sg_completed = False, sg_failed = False, sg_err = None\<rparr>"

definition AddStep :: "'w SagaStep \<Rightarrow> 'w Saga \<Rightarrow> 'w Saga" where
  "AddStep step s = s\<lparr>sg_steps := sg_steps s @ [step]\<rparr>"

definition compensate_step :: "'w SagaStep \<Rightarrow> 'w \<Rightarrow> 'w" where
  "compensate_step step w = (case ss_Compensate step of None \<Rightarrow> w | Some f \<Rightarrow> fst (f w))"

definition Saga_compensate :: "'w Saga \<Rightarrow> 'w \<Rightarrow> 'w" where
  "Saga_compensate s w = fold compensate_step (rev (sg_executed s)) w"

fun execute_steps :: "'w SagaStep list \<Rightarrow> 'w Saga \<Rightarrow> 'w \<Rightarrow> 'w Saga \<times> 'w \<times> string option" where
  "execute_steps [] s w = (s\<lparr>sg_completed := True\<rparr>, w, None)"
| "execute_steps (step # steps) s w =
     (case ss_Execute step w of
        (w1, Some err) \<Rightarrow>
          (let s1 = s\<lparr>sg_failed := True, sg_err := Some err\<rparr> in (s1, Saga_compensate s1 w1, Some err))
      | (w1, None) \<Rightarrow> execute_steps steps (s\<lparr>sg_executed := sg_executed s @ [step]\<rparr>) w1)"

definition Saga_Execute :: "'w Saga \<Rightarrow> 'w \<Rightarrow> 'w Saga \<times> 'w \<times> string option" where
  "Saga_Execute s w =
     (if sg_completed s \<or> sg_failed s then (s, w, Some ''saga already finished'')
      else execute_steps (sg_steps s) s w)"

definition IsCompleted :: "'w Saga \<Rightarrow> bool" where
  "IsCompleted s \<longleftrightarrow> sg_completed s"

definition IsFailed :: "'w Saga \<Rightarrow> bool" where
  "IsFailed s \<longleftrightarrow> sg_failed s"

definition Saga_Error :: "'w Saga \<Rightarrow> string option" where
  "Saga_Error s = sg_err s"

definition StepsExecuted :: "'w Saga \<Rightarrow> nat" where
  "StepsExecuted s = length (sg_executed s)"

definition StepsTotal :: "'w Saga \<Rightarrow> nat" where
  "StepsTotal s = length (sg_steps s)"

section \<open>Orchestrator\<close>

text \<open>\<open>Create\<close> hands out a pointer that the map shares, so sagas live in a heap of addresses.\<close>

record 'w Orchestrator =
  or_sagas :: "string \<rightharpoonup> nat"
  or_heap :: "'w Saga list"

definition NewOrchestrator :: "'w Orchestrator" where
  "NewOrchestrator = \<lparr>or_sagas = Map.empty, or_heap = []\<rparr>"

definition Orchestrator_Create :: "string \<Rightarrow> 'w Orchestrator \<Rightarrow> 'w Orchestrator \<times> nat" where
  "Orchestrator_Create ident o1 =
     (let p = length (or_heap o1)
      in (o1\<lparr>or_sagas := (or_sagas o1)(ident \<mapsto> p), or_heap := or_heap o1 @ [Saga_New]\<rparr>, p))"

definition Orchestrator_Get :: "string \<Rightarrow> 'w Orchestrator \<Rightarrow> nat option" where
  "Orchestrator_Get ident o1 = or_sagas o1 ident"

definition Orchestrator_Delete :: "string \<Rightarrow> 'w Orchestrator \<Rightarrow> 'w Orchestrator" where
  "Orchestrator_Delete ident o1 = o1\<lparr>or_sagas := (or_sagas o1)(ident := None)\<rparr>"

definition Orchestrator_List :: "string list \<Rightarrow> 'w Orchestrator \<Rightarrow> string list" where
  "Orchestrator_List ks o1 = filter (\<lambda>k. or_sagas o1 k \<noteq> None) ks"

section \<open>All or nothing\<close>

definition exec_world :: "'w SagaStep \<Rightarrow> 'w \<Rightarrow> 'w" where
  "exec_world step w = fst (ss_Execute step w)"

text \<open>The longest prefix of steps that succeed one after the other.\<close>

fun successes :: "'w SagaStep list \<Rightarrow> 'w \<Rightarrow> 'w SagaStep list" where
  "successes [] w = []"
| "successes (step # steps) w =
     (if snd (ss_Execute step w) = None then step # successes steps (exec_world step w) else [])"

lemma execute_steps_eq:
  "execute_steps steps s w =
     (let pre = successes steps w; w1 = fold exec_world pre w; s1 = s\<lparr>sg_executed := sg_executed s @ pre\<rparr> in
      if pre = steps then (s1\<lparr>sg_completed := True\<rparr>, w1, None)
      else let bad = steps ! length pre; err = snd (ss_Execute bad w1) in
        (s1\<lparr>sg_failed := True, sg_err := err\<rparr>, fold compensate_step (rev (sg_executed s @ pre)) (exec_world bad w1), err))"
proof (induction steps arbitrary: s w)
  case (Cons step steps)
  show ?case
  proof (cases "ss_Execute step w")
    case (Pair w1 e)
    then show ?thesis using Cons.IH[of "s\<lparr>sg_executed := sg_executed s @ [step]\<rparr>" w1]
      by (cases e) (simp_all add: exec_world_def Saga_compensate_def Let_def)
  qed
qed simp

text \<open>Every step is undone by its compensation, and a failing step has no effect.\<close>

definition reversible :: "'w SagaStep \<Rightarrow> bool" where
  "reversible step \<longleftrightarrow> (\<forall>w. if snd (ss_Execute step w) = None then compensate_step step (exec_world step w) = w
     else exec_world step w = w)"

lemma successes_prefix: "\<exists>post. steps = successes steps w @ post"
  by (induction steps w rule: successes.induct) auto

lemma successes_undone:
  "list_all reversible steps \<Longrightarrow> fold compensate_step (rev (successes steps w)) (fold exec_world (successes steps w) w) = w"
proof (induction steps w rule: successes.induct)
  case (2 step steps w)
  then show ?case by (auto simp: reversible_def)
qed simp

lemma successes_fail:
  "successes steps w \<noteq> steps \<Longrightarrow> length (successes steps w) < length steps \<and>
     snd (ss_Execute (steps ! length (successes steps w)) (fold exec_world (successes steps w) w)) \<noteq> None"
  by (induction steps w rule: successes.induct) auto

text \<open>
  (C33) All or nothing. If the compensation of each step undoes it and a failing step has no effect, then
  \<open>Execute\<close> of a fresh saga either runs all steps in order, or returns the error of the first step
  that fails and leaves the world as it was, with exactly the steps before that one executed. A second
  \<open>Execute\<close> does nothing in either case.
\<close>

theorem Saga_atomic:
  assumes "list_all reversible (sg_steps s)" "\<not> sg_completed s" "\<not> sg_failed s" "sg_executed s = []"
    and "Saga_Execute s w = (s', w', err)"
  shows "(if err = None then IsCompleted s' \<and> w' = fold exec_world (sg_steps s) w \<and> sg_executed s' = sg_steps s
      else IsFailed s' \<and> w' = w \<and> (\<exists>bad post. sg_steps s = sg_executed s' @ bad # post \<and>
        snd (ss_Execute bad (fold exec_world (sg_executed s') w)) = err)) \<and>
    Saga_Execute s' w'' = (s', w'', Some ''saga already finished'')"
proof -
  let ?pre = "successes (sg_steps s) w"
  obtain post where post: "sg_steps s = ?pre @ post" using successes_prefix[of "sg_steps s" w] by (elim exE)
  have ex: "execute_steps (sg_steps s) s w = (s', w', err)" using assms by (simp add: Saga_Execute_def)
  show ?thesis
  proof (cases "?pre = sg_steps s")
    case True
    then have "s' = s\<lparr>sg_executed := sg_steps s, sg_completed := True\<rparr>" "w' = fold exec_world (sg_steps s) w" "err = None"
      using ex assms(4) by (simp_all add: execute_steps_eq Let_def)
    then show ?thesis by (simp add: IsCompleted_def Saga_Execute_def)
  next
    case False
    let ?bad = "sg_steps s ! length ?pre" and ?w1 = "fold exec_world ?pre w"
    have bad: "length ?pre < length (sg_steps s)" "snd (ss_Execute ?bad ?w1) \<noteq> None" using successes_fail[OF False] by auto
    then have "reversible ?bad" using assms(1) by (simp add: list_all_length)
    then have "exec_world ?bad ?w1 = ?w1" using bad(2) by (simp add: reversible_def)
    then have r: "s' = s\<lparr>sg_executed := ?pre, sg_failed := True, sg_err := err\<rparr>" "w' = w" "err = snd (ss_Execute ?bad ?w1)"
      using ex False assms(4) successes_undone[OF assms(1), of w] by (auto simp: execute_steps_eq Let_def)
    have "sg_steps s = ?pre @ ?bad # drop (Suc (length ?pre)) (sg_steps s)"
    proof -
      have "take (length ?pre) (sg_steps s) = ?pre" by (subst post) simp
      then show ?thesis using id_take_nth_drop[OF bad(1)] by simp
    qed
    then have "\<exists>bad post. sg_steps s = sg_executed s' @ bad # post \<and> snd (ss_Execute bad (fold exec_world (sg_executed s') w)) = err"
      unfolding r(1) by (intro exI[of _ ?bad] exI) (simp add: r(3))
    moreover have "err \<noteq> None" "IsFailed s'" "sg_failed s'" using bad(2) r(1,3) by (simp_all add: IsFailed_def)
    ultimately show ?thesis using r(2) by (auto simp: Saga_Execute_def)
  qed
qed

definition saga_inc :: "int SagaStep" where
  "saga_inc = \<lparr>ss_Name = ''inc'', ss_Execute = (\<lambda>w. (w + 1, None)), ss_Compensate = Some (\<lambda>w. (w - 1, None))\<rparr>"

definition saga_fail :: "int SagaStep" where
  "saga_fail = \<lparr>ss_Name = ''fail'', ss_Execute = (\<lambda>w. (w, Some ''boom'')), ss_Compensate = None\<rparr>"

theorem Saga_atomic_witness:
  "snd (Saga_Execute (fold AddStep [saga_inc, saga_inc, saga_fail] Saga_New) 40) = (40, Some ''boom'')"
proof -
  let ?s = "fold AddStep [saga_inc, saga_inc, saga_fail] Saga_New"
  obtain s' w' err where e: "Saga_Execute ?s 40 = (s', w', err)" using prod_cases3 by blast
  then have err: "err = Some ''boom''"
    by (auto simp: Saga_Execute_def AddStep_def Saga_New_def saga_inc_def saga_fail_def Let_def)
  have "list_all reversible (sg_steps ?s)"
    by (simp add: AddStep_def Saga_New_def saga_inc_def saga_fail_def reversible_def exec_world_def compensate_step_def)
  from Saga_atomic[OF this _ _ _ e] err have "w' = 40" by (simp add: AddStep_def Saga_New_def)
  then show ?thesis using e err by simp
qed

end
