(* ===== verification/Mmap_Ring.thy ===== *)
theory Mmap_Ring
  imports Tempest_Prelude
begin

text \<open>
  \<open>internal/mmapring\<close>: a circular byte buffer of framed records with checksums, and the cursors that
  read it. Bytes are 8-bit words. The loops of the source that copy in chunks, and the reading loop
  of \<open>Snapshot\<close>, are partial functions whose value is \<open>None\<close> where the loop does not end.
\<close>

unbundle bit_operations_syntax

type_synonym byte = "8 word"

section \<open>Big-endian integers and CRC-32\<close>

text \<open>\<open>binary.BigEndian\<close>: the most significant byte first.\<close>

definition be_put :: "nat \<Rightarrow> 'a::len word \<Rightarrow> byte list" where
  "be_put n w = map (\<lambda>i. ucast (drop_bit (8 * (n - 1 - i)) w)) [0..<n]"

definition be_get :: "byte list \<Rightarrow> 'a::len word" where
  "be_get bs = foldl (\<lambda>acc b. push_bit 8 acc OR ucast b) 0 bs"

text \<open>\<open>crc32.ChecksumIEEE\<close>, bit by bit with the reflected polynomial.\<close>

definition crc_bit :: "32 word \<Rightarrow> 32 word" where
  "crc_bit c = (if c AND 1 = 1 then drop_bit 1 c XOR 0xEDB88320 else drop_bit 1 c)"

definition crc_byte :: "byte \<Rightarrow> 32 word \<Rightarrow> 32 word" where
  "crc_byte b c = (crc_bit ^^ 8) (c XOR ucast b)"

definition ComputeChecksum :: "byte list \<Rightarrow> 32 word" where
  "ComputeChecksum data = NOT (fold crc_byte data 0xFFFFFFFF)"

section \<open>Frames\<close>

datatype mmap_error = ErrInvalidMagic | ErrCorruptHeader | ErrChecksumFailed | ErrBufferFull | ErrBufferEmpty | ErrCursorExpired

definition FrameMagic :: "32 word" where "FrameMagic = 0x544D5052"
definition HeaderSize :: nat where "HeaderSize = 22"

record Header =
  hd_Magic :: "32 word"
  hd_Seq :: uint64
  hd_Length :: "32 word"
  hd_Checksum :: "32 word"
  hd_Flags :: "16 word"

definition Header_Encode :: "Header \<Rightarrow> byte list" where
  "Header_Encode h = be_put 4 (hd_Magic h) @ be_put 8 (hd_Seq h) @ be_put 4 (hd_Length h) @ be_put 4 (hd_Checksum h) @ be_put 2 (hd_Flags h)"

definition slice :: "nat \<Rightarrow> nat \<Rightarrow> 'a list \<Rightarrow> 'a list" where
  "slice lo hi xs = take (hi - lo) (drop lo xs)"

definition DecodeHeader :: "byte list \<Rightarrow> mmap_error + Header" where
  "DecodeHeader src =
     (if length src < HeaderSize then Inl ErrCorruptHeader
      else let magic = be_get (slice 0 4 src) in
        if magic \<noteq> FrameMagic then Inl ErrInvalidMagic
        else Inr \<lparr>hd_Magic = magic, hd_Seq = be_get (slice 4 12 src), hd_Length = be_get (slice 12 16 src),
                  hd_Checksum = be_get (slice 16 20 src), hd_Flags = be_get (slice 20 22 src)\<rparr>)"

record Frame =
  fr_Header :: Header
  fr_Payload :: "byte list"

section \<open>Ring\<close>

record MmapRing =
  mr_capacity :: nat
  mr_data :: "byte list"
  mr_writePos :: nat
  mr_oldestSeq :: uint64
  mr_nextSeq :: uint64
  mr_totalBytes :: uint64

definition MmapRing_New :: "int \<Rightarrow> MmapRing" where
  "MmapRing_New capacity =
     (let c = (if capacity \<le> int HeaderSize * 2 then 64 * 1024 else nat capacity)
      in \<lparr>mr_capacity = c, mr_data = replicate c 0, mr_writePos = 0, mr_oldestSeq = 1, mr_nextSeq = 1, mr_totalBytes = 0\<rparr>)"

definition overwrite :: "nat \<Rightarrow> 'a list \<Rightarrow> 'a list \<Rightarrow> 'a list" where
  "overwrite pos chunk xs = take pos xs @ chunk @ drop (pos + length chunk) xs"

partial_function (option) writeBytesLocked :: "byte list \<Rightarrow> MmapRing \<Rightarrow> MmapRing option" where
  "writeBytesLocked p r =
     (if p = [] then Some r
      else let avail = mr_capacity r - mr_writePos r;
               chunk = (if length p > avail then avail else length p)
           in writeBytesLocked (drop chunk p)
                (r\<lparr>mr_data := overwrite (mr_writePos r) (take chunk p) (mr_data r),
                   mr_writePos := (mr_writePos r + chunk) mod mr_capacity r\<rparr>))"

definition MmapRing_Append :: "byte list \<Rightarrow> MmapRing \<Rightarrow> (MmapRing \<times> (mmap_error + uint64)) option" where
  "MmapRing_Append payload r =
     (let frameLen = HeaderSize + length payload in
      if frameLen > mr_capacity r then Some (r, Inl ErrBufferFull)
      else let s = mr_nextSeq r;
               hdr = \<lparr>hd_Magic = FrameMagic, hd_Seq = s, hd_Length = of_nat (length payload),
                      hd_Checksum = ComputeChecksum payload, hd_Flags = 0\<rparr>
           in case writeBytesLocked (Header_Encode hdr) (r\<lparr>mr_nextSeq := s + 1\<rparr>) of
                None \<Rightarrow> None
              | Some r1 \<Rightarrow>
                  (case writeBytesLocked payload r1 of
                     None \<Rightarrow> None
                   | Some r2 \<Rightarrow> Some (r2\<lparr>mr_totalBytes := mr_totalBytes r2 + of_nat frameLen\<rparr>, Inr s)))"

text \<open>\<open>readBytesLocked\<close> fills \<open>n\<close> bytes of its destination; the bytes read so far are \<open>acc\<close>.\<close>

partial_function (option) read_loop :: "MmapRing \<Rightarrow> nat \<Rightarrow> nat \<Rightarrow> byte list \<Rightarrow> byte list option" where
  "read_loop r pos n acc =
     (if n = 0 then Some acc
      else let avail = mr_capacity r - pos;
               chunk = (if n > avail then avail else n)
           in read_loop r ((pos + chunk) mod mr_capacity r) (n - chunk) (acc @ slice pos (pos + chunk) (mr_data r)))"

definition readBytesLocked :: "nat \<Rightarrow> nat \<Rightarrow> MmapRing \<Rightarrow> byte list option" where
  "readBytesLocked offset n r = read_loop r (offset mod mr_capacity r) n []"

definition ReadFrameAt :: "nat \<Rightarrow> MmapRing \<Rightarrow> (mmap_error + Frame \<times> nat) option" where
  "ReadFrameAt offset r =
     (case readBytesLocked offset HeaderSize r of None \<Rightarrow> None | Some hdrBuf \<Rightarrow>
        (case DecodeHeader hdrBuf of Inl err \<Rightarrow> Some (Inl err) | Inr hdr \<Rightarrow>
           (case readBytesLocked (offset + HeaderSize) (unat (hd_Length hdr)) r of None \<Rightarrow> None | Some payload \<Rightarrow>
              if ComputeChecksum payload \<noteq> hd_Checksum hdr then Some (Inl ErrChecksumFailed)
              else Some (Inr (\<lparr>fr_Header = hdr, fr_Payload = payload\<rparr>,
                              (offset + HeaderSize + unat (hd_Length hdr)) mod mr_capacity r)))))"

section \<open>Cursors\<close>

record Cursor =
  cu_offset :: nat
  cu_lastSeq :: uint64

definition NewCursor :: "nat \<Rightarrow> MmapRing \<Rightarrow> Cursor" where
  "NewCursor startOffset r = \<lparr>cu_offset = startOffset mod mr_capacity r, cu_lastSeq = 0\<rparr>"

definition Cursor_Next :: "MmapRing \<Rightarrow> Cursor \<Rightarrow> (Cursor \<times> (mmap_error + Frame option)) option" where
  "Cursor_Next r c =
     (if cu_offset c = mr_writePos r then Some (c, Inr None)
      else case ReadFrameAt (cu_offset c) r of
        None \<Rightarrow> None
      | Some (Inl err) \<Rightarrow> Some (c, Inl err)
      | Some (Inr (frame, nextOffset)) \<Rightarrow>
          if cu_lastSeq c > 0 \<and> hd_Seq (fr_Header frame) \<le> cu_lastSeq c then Some (c, Inl ErrCursorExpired)
          else Some (c\<lparr>cu_offset := nextOffset, cu_lastSeq := hd_Seq (fr_Header frame)\<rparr>, Inr (Some frame)))"

partial_function (option) snapshot_loop :: "MmapRing \<Rightarrow> Cursor \<Rightarrow> Frame list \<Rightarrow> Frame list option" where
  "snapshot_loop r c frames =
     (case Cursor_Next r c of
        None \<Rightarrow> None
      | Some (c', Inr (Some f)) \<Rightarrow> snapshot_loop r c' (frames @ [f])
      | Some (c', _) \<Rightarrow> Some frames)"

definition Snapshot :: "MmapRing \<Rightarrow> Frame list option" where
  "Snapshot r = snapshot_loop r (NewCursor 0 r) []"

definition MmapRing_Stats :: "MmapRing \<Rightarrow> nat \<times> nat \<times> uint64 \<times> uint64" where
  "MmapRing_Stats r = (mr_capacity r, mr_writePos r, mr_nextSeq r, mr_totalBytes r)"

section \<open>Header round trip\<close>

lemma length_be_put [simp]: "length (be_put n w) = n"
  by (simp add: be_put_def)

lemma be_put_Suc: "be_put (Suc n) w = be_put n (drop_bit 8 w) @ [ucast w]"
  by (simp add: be_put_def drop_bit_drop_bit) (auto simp: drop_bit_drop_bit algebra_simps Suc_diff_le)

lemma be_get_snoc: "be_get (bs @ [b]) = push_bit 8 (be_get bs) OR ucast b"
  by (simp add: be_get_def)

lemma be_get_put: "be_get (be_put n w) = take_bit (8 * n) (w :: 'a::len word)"
proof (induction n arbitrary: w)
  case (Suc n)
  have "push_bit 8 (take_bit (8 * n) (drop_bit 8 w)) OR ucast (ucast w :: byte) = take_bit (8 * Suc n) w"
    by (rule bit_word_eqI) (auto simp: bit_simps)
  then show ?case using Suc by (simp add: be_put_Suc be_get_snoc)
qed (simp add: be_put_def be_get_def)

lemma be_get_put_full [simp]: "LENGTH('a) \<le> 8 * n \<Longrightarrow> be_get (be_put n w) = (w :: 'a::len word)"
  by (simp add: be_get_put take_bit_word_eq_self)

lemma length_Header_Encode [simp]: "length (Header_Encode h) = HeaderSize"
  by (simp add: Header_Encode_def HeaderSize_def)

lemma DecodeHeader_Encode: "hd_Magic h = FrameMagic \<Longrightarrow> DecodeHeader (Header_Encode h) = Inr h"
  by (simp add: DecodeHeader_def Header_Encode_def HeaderSize_def slice_def)

section \<open>The copying loops\<close>

definition ring_inv :: "MmapRing \<Rightarrow> bool" where
  "ring_inv r \<longleftrightarrow> 0 < mr_capacity r \<and> length (mr_data r) = mr_capacity r \<and> mr_writePos r < mr_capacity r"

text \<open>The \<open>n\<close> bytes from position \<open>off\<close> on, around the end of the array.\<close>

definition bytes_at :: "MmapRing \<Rightarrow> nat \<Rightarrow> nat \<Rightarrow> byte list" where
  "bytes_at r off n = map (\<lambda>i. mr_data r ! ((off + i) mod mr_capacity r)) [0..<n]"

lemma length_bytes_at [simp]: "length (bytes_at r off n) = n"
  by (simp add: bytes_at_def)

lemma bytes_at_add: "bytes_at r off (m + n) = bytes_at r off m @ bytes_at r (off + m) n"
proof -
  have "map (\<lambda>i. mr_data r ! ((off + i) mod mr_capacity r)) [m..<m + n] = bytes_at r (off + m) n"
    unfolding bytes_at_def by (rule nth_equalityI) (simp_all add: add.assoc)
  moreover have "[0..<m + n] = [0..<m] @ [m..<m + n]" using upt_add_eq_append[of 0 m n] by simp
  ultimately show ?thesis by (simp add: bytes_at_def)
qed

lemma bytes_at_mod: "bytes_at r (off mod mr_capacity r) n = bytes_at r off n"
  by (simp add: bytes_at_def mod_add_left_eq)

lemma slice_bytes_at:
  assumes "pos + n \<le> mr_capacity r" "length (mr_data r) = mr_capacity r"
  shows "slice pos (pos + n) (mr_data r) = bytes_at r pos n"
  using assms by (intro nth_equalityI) (auto simp: slice_def bytes_at_def)

lemma read_loop_eq:
  assumes "0 < mr_capacity r" "length (mr_data r) = mr_capacity r" "pos < mr_capacity r"
  shows "read_loop r pos n acc = Some (acc @ bytes_at r pos n)"
  using assms(3)
proof (induction n arbitrary: pos acc rule: less_induct)
  case (less n)
  show ?case
  proof (cases "n = 0")
    case True
    then show ?thesis by (simp add: read_loop.simps bytes_at_def)
  next
    case False
    define chunk where "chunk = (if n > mr_capacity r - pos then mr_capacity r - pos else n)"
    have c: "0 < chunk" "chunk \<le> n" "pos + chunk \<le> mr_capacity r" using False less.prems by (auto simp: chunk_def)
    have "read_loop r pos n acc = read_loop r ((pos + chunk) mod mr_capacity r) (n - chunk) (acc @ bytes_at r pos chunk)"
      using False slice_bytes_at[OF c(3) assms(2)] by (subst read_loop.simps) (simp add: chunk_def Let_def)
    also have "\<dots> = Some (acc @ bytes_at r pos chunk @ bytes_at r (pos + chunk) (n - chunk))"
      using less.IH[of "n - chunk"] c False assms(1) by (simp add: bytes_at_mod)
    also have "bytes_at r pos chunk @ bytes_at r (pos + chunk) (n - chunk) = bytes_at r pos n"
      using bytes_at_add[of r pos chunk "n - chunk"] c(2) by simp
    finally show ?thesis .
  qed
qed

lemma readBytesLocked_eq: "ring_inv r \<Longrightarrow> readBytesLocked offset n r = Some (bytes_at r offset n)"
  using read_loop_eq[of r "offset mod mr_capacity r" n "[]"] by (simp add: readBytesLocked_def ring_inv_def bytes_at_mod)

lemma nth_overwrite:
  assumes "pos + length chunk \<le> length xs" "i < length xs"
  shows "overwrite pos chunk xs ! i = (if pos \<le> i \<and> i < pos + length chunk then chunk ! (i - pos) else xs ! i)"
  using assms by (auto simp: overwrite_def nth_append)

lemma length_overwrite: "pos + length chunk \<le> length xs \<Longrightarrow> length (overwrite pos chunk xs) = length xs"
  by (simp add: overwrite_def)

lemma mod_shift_back:
  assumes "i < (chunk :: nat)" "chunk \<le> cap" "0 < cap"
  shows "((wp + chunk) mod cap + (i + cap - chunk)) mod cap = (wp + i) mod cap"
proof -
  have "((wp + chunk) mod cap + (i + cap - chunk)) mod cap = (wp + chunk + (i + cap - chunk)) mod cap" by (rule mod_add_left_eq)
  also have "wp + chunk + (i + cap - chunk) = (wp + i) + cap" using assms(2) by simp
  finally show ?thesis by simp
qed

lemma mod_shift:
  assumes "(chunk :: nat) \<le> i"
  shows "((wp + chunk) mod cap + (i - chunk)) mod cap = (wp + i) mod cap"
proof -
  have "((wp + chunk) mod cap + (i - chunk)) mod cap = (wp + chunk + (i - chunk)) mod cap" by (rule mod_add_left_eq)
  then show ?thesis using assms by simp
qed

lemma writeBytesLocked_spec:
  assumes "ring_inv r" "length p \<le> mr_capacity r"
  shows "\<exists>d. writeBytesLocked p r = Some (r\<lparr>mr_data := d, mr_writePos := (mr_writePos r + length p) mod mr_capacity r\<rparr>) \<and>
    length d = mr_capacity r \<and>
    (\<forall>i < mr_capacity r. d ! ((mr_writePos r + i) mod mr_capacity r) =
       (if i < length p then p ! i else mr_data r ! ((mr_writePos r + i) mod mr_capacity r)))"
  using assms
proof (induction "length p" arbitrary: p r rule: less_induct)
  case less
  let ?cap = "mr_capacity r" and ?wp = "mr_writePos r"
  have inv: "0 < ?cap" "length (mr_data r) = ?cap" "?wp < ?cap" using less.prems(1) by (auto simp: ring_inv_def)
  show ?case
  proof (cases "p = []")
    case True
    then show ?thesis using inv by (intro exI[of _ "mr_data r"]) (simp add: writeBytesLocked.simps)
  next
    case False
    define chunk where "chunk = (if length p > ?cap - ?wp then ?cap - ?wp else length p)"
    define d1 where "d1 = overwrite ?wp (take chunk p) (mr_data r)"
    define r1 where "r1 = r\<lparr>mr_data := d1, mr_writePos := (?wp + chunk) mod ?cap\<rparr>"
    have c: "0 < chunk" "chunk \<le> length p" "?wp + chunk \<le> ?cap" using False inv by (auto simp: chunk_def)
    have step: "writeBytesLocked p r = writeBytesLocked (drop chunk p) r1"
      using False by (subst writeBytesLocked.simps) (simp add: chunk_def r1_def d1_def Let_def)
    have d1: "length d1 = ?cap" "\<And>i. i < ?cap \<Longrightarrow> d1 ! i = (if ?wp \<le> i \<and> i < ?wp + chunk then p ! (i - ?wp) else mr_data r ! i)"
      using c inv by (auto simp: d1_def length_overwrite nth_overwrite)
    have inv1: "ring_inv r1" using inv d1(1) by (simp add: ring_inv_def r1_def)
    have small: "length (drop chunk p) < length p" "length (drop chunk p) \<le> mr_capacity r1" using c False less.prems(2) by (simp_all add: r1_def)
    obtain d where d: "writeBytesLocked (drop chunk p) r1 = Some (r1\<lparr>mr_data := d, mr_writePos := (mr_writePos r1 + length (drop chunk p)) mod ?cap\<rparr>)"
      "length d = ?cap"
      "\<And>i. i < ?cap \<Longrightarrow> d ! ((mr_writePos r1 + i) mod ?cap) =
         (if i < length (drop chunk p) then drop chunk p ! i else d1 ! ((mr_writePos r1 + i) mod ?cap))"
      using less.hyps[OF small(1) inv1 small(2)] by (auto simp: r1_def)
    have "d ! ((?wp + i) mod ?cap) = (if i < length p then p ! i else mr_data r ! ((?wp + i) mod ?cap))" if i: "i < ?cap" for i
    proof (cases "i < chunk")
      case True
      define j where "j = i + ?cap - chunk"
      have j: "j < ?cap" "\<not> j < length (drop chunk p)" using True c less.prems(2) by (auto simp: j_def)
      have e: "(mr_writePos r1 + j) mod ?cap = (?wp + i) mod ?cap"
        using mod_shift_back[OF True, of ?cap ?wp] c(3) inv(1) by (simp add: r1_def j_def)
      have "(?wp + i) mod ?cap = ?wp + i" using True c(3) by simp
      then show ?thesis using d(3)[OF j(1), unfolded e] j(2) d1(2)[of "?wp + i"] True c by simp
    next
      case False
      have e: "(mr_writePos r1 + (i - chunk)) mod ?cap = (?wp + i) mod ?cap"
        using mod_shift[of chunk i ?wp ?cap] False by (simp add: r1_def)
      have "d1 ! ((?wp + i) mod ?cap) = mr_data r ! ((?wp + i) mod ?cap)"
      proof (cases "?wp + i < ?cap")
        case True
        then show ?thesis using d1(2)[of "?wp + i"] False by simp
      next
        case big: False
        then have "(?wp + i) mod ?cap = ?wp + i - ?cap" using i inv(3) by (simp add: mod_if)
        moreover have "?wp + i - ?cap < ?wp" "?wp + i - ?cap < ?cap" using i inv(3) big by auto
        ultimately show ?thesis using d1(2)[of "?wp + i - ?cap"] by simp
      qed
      then show ?thesis using d(3)[of "i - chunk"] e False i c(2) by (auto simp: less_diff_conv2)
    qed
    moreover have "(mr_writePos r1 + length (drop chunk p)) mod ?cap = (?wp + length p) mod ?cap"
      using mod_shift[OF c(2), of ?wp ?cap] by (simp add: r1_def)
    then have "writeBytesLocked p r = Some (r\<lparr>mr_data := d, mr_writePos := (?wp + length p) mod ?cap\<rparr>)"
      using step d(1) by (simp add: r1_def)
    ultimately show ?thesis using d(2) by blast
  qed
qed

section \<open>Frames that were appended are read back\<close>

definition mk_frame :: "uint64 \<Rightarrow> byte list \<Rightarrow> Frame" where
  "mk_frame s payload =
     \<lparr>fr_Header = \<lparr>hd_Magic = FrameMagic, hd_Seq = s, hd_Length = of_nat (length payload),
                    hd_Checksum = ComputeChecksum payload, hd_Flags = 0\<rparr>, fr_Payload = payload\<rparr>"

definition frame_bytes :: "Frame \<Rightarrow> byte list" where
  "frame_bytes f = Header_Encode (fr_Header f) @ fr_Payload f"

lemma length_frame_bytes [simp]: "length (frame_bytes (mk_frame s p)) = HeaderSize + length p"
  by (simp add: frame_bytes_def mk_frame_def)

lemma ReadFrameAt_frame:
  assumes inv: "ring_inv r" and len: "length p < 2 ^ 32"
    and bytes: "bytes_at r off (HeaderSize + length p) = frame_bytes (mk_frame s p)"
  shows "ReadFrameAt off r = Some (Inr (mk_frame s p, (off + HeaderSize + length p) mod mr_capacity r))"
proof -
  let ?f = "mk_frame s p"
  have "bytes_at r off HeaderSize = Header_Encode (fr_Header ?f)" "bytes_at r (off + HeaderSize) (length p) = p"
    using bytes unfolding bytes_at_add frame_bytes_def by (simp_all add: mk_frame_def)
  moreover have "DecodeHeader (Header_Encode (fr_Header ?f)) = Inr (fr_Header ?f)"
    by (rule DecodeHeader_Encode) (simp add: mk_frame_def)
  moreover have "unat (hd_Length (fr_Header ?f)) = length p"
    using len by (simp add: mk_frame_def unsigned_of_nat take_bit_nat_eq_self)
  ultimately show ?thesis using inv
    by (simp add: ReadFrameAt_def readBytesLocked_eq) (simp add: mk_frame_def)
qed

lemma Append_spec:
  assumes inv: "ring_inv r" and fit: "HeaderSize + length p \<le> mr_capacity r"
  obtains r' where "MmapRing_Append p r = Some (r', Inr (mr_nextSeq r))" "ring_inv r'" "mr_capacity r' = mr_capacity r"
    "mr_nextSeq r' = mr_nextSeq r + 1" "mr_writePos r' = (mr_writePos r + HeaderSize + length p) mod mr_capacity r"
    "bytes_at r' (mr_writePos r) (HeaderSize + length p) = frame_bytes (mk_frame (mr_nextSeq r) p)"
    "\<forall>i. HeaderSize + length p \<le> i \<and> i < mr_capacity r \<longrightarrow>
      mr_data r' ! ((mr_writePos r + i) mod mr_capacity r) = mr_data r ! ((mr_writePos r + i) mod mr_capacity r)"
proof -
  let ?cap = "mr_capacity r" and ?wp = "mr_writePos r" and ?f = "mk_frame (mr_nextSeq r) p"
  let ?h = "Header_Encode (fr_Header ?f)" and ?r0 = "r\<lparr>mr_nextSeq := mr_nextSeq r + 1\<rparr>"
  have inv0: "ring_inv ?r0" using inv by (simp add: ring_inv_def)
  obtain d1 where w1: "writeBytesLocked ?h ?r0 = Some (?r0\<lparr>mr_data := d1, mr_writePos := (?wp + HeaderSize) mod ?cap\<rparr>)" "length d1 = ?cap"
    "\<And>i. i < ?cap \<Longrightarrow> d1 ! ((?wp + i) mod ?cap) = (if i < HeaderSize then ?h ! i else mr_data r ! ((?wp + i) mod ?cap))"
    using writeBytesLocked_spec[OF inv0, of ?h] fit by auto
  let ?r1 = "?r0\<lparr>mr_data := d1, mr_writePos := (?wp + HeaderSize) mod ?cap\<rparr>"
  have inv1: "ring_inv ?r1" using inv w1(2) by (simp add: ring_inv_def)
  obtain d2 where w2: "writeBytesLocked p ?r1 = Some (?r1\<lparr>mr_data := d2, mr_writePos := ((?wp + HeaderSize) mod ?cap + length p) mod ?cap\<rparr>)"
    "length d2 = ?cap"
    "\<And>i. i < ?cap \<Longrightarrow> d2 ! (((?wp + HeaderSize) mod ?cap + i) mod ?cap) =
       (if i < length p then p ! i else d1 ! (((?wp + HeaderSize) mod ?cap + i) mod ?cap))"
    using writeBytesLocked_spec[OF inv1, of p] fit by auto
  have pos: "d2 ! ((?wp + i) mod ?cap) = (if i < HeaderSize then ?h ! i else if i < HeaderSize + length p then p ! (i - HeaderSize)
      else mr_data r ! ((?wp + i) mod ?cap))" if i: "i < ?cap" for i
  proof (cases "i < HeaderSize")
    case True
    define j where "j = i + ?cap - HeaderSize"
    have j: "j < ?cap" "\<not> j < length p" using True fit by (auto simp: j_def)
    have e: "((?wp + HeaderSize) mod ?cap + j) mod ?cap = (?wp + i) mod ?cap"
      using mod_shift_back[OF True, of ?cap ?wp] fit i by (simp add: j_def)
    show ?thesis using w2(3)[OF j(1), unfolded e] j(2) w1(3)[OF i] True by simp
  next
    case False
    then have "((?wp + HeaderSize) mod ?cap + (i - HeaderSize)) mod ?cap = (?wp + i) mod ?cap" using mod_shift by simp
    then show ?thesis using w2(3)[of "i - HeaderSize"] w1(3)[OF i] False i by (auto simp: less_diff_conv2)
  qed
  let ?r2 = "?r1\<lparr>mr_data := d2, mr_writePos := ((?wp + HeaderSize) mod ?cap + length p) mod ?cap\<rparr>"
  let ?r' = "?r2\<lparr>mr_totalBytes := mr_totalBytes ?r2 + of_nat (HeaderSize + length p)\<rparr>"
  have "MmapRing_Append p r = Some (?r', Inr (mr_nextSeq r))"
    using fit w1(1) w2(1) by (simp add: MmapRing_Append_def Let_def mk_frame_def)
  moreover have "bytes_at ?r' ?wp (HeaderSize + length p) = frame_bytes ?f"
    using pos fit by (intro nth_equalityI) (auto simp: bytes_at_def frame_bytes_def nth_append mk_frame_def)
  moreover have "ring_inv ?r'" using inv w2(2) by (simp add: ring_inv_def)
  ultimately show thesis using pos fit by (intro that[of ?r']) (simp_all add: mod_add_left_eq)
qed

text \<open>Appending a list of payloads, and the frames that hold them.\<close>

primrec append_all :: "byte list list \<Rightarrow> MmapRing \<Rightarrow> MmapRing option" where
  "append_all [] r = Some r"
| "append_all (p # ps) r = (case MmapRing_Append p r of None \<Rightarrow> None | Some (r', _) \<Rightarrow> append_all ps r')"

primrec frames_from :: "uint64 \<Rightarrow> byte list list \<Rightarrow> Frame list" where
  "frames_from s [] = []"
| "frames_from s (p # ps) = mk_frame s p # frames_from (s + 1) ps"

definition frames_size :: "byte list list \<Rightarrow> nat" where
  "frames_size ps = sum_list (map (\<lambda>p. HeaderSize + length p) ps)"

definition frames_bytes :: "Frame list \<Rightarrow> byte list" where
  "frames_bytes fs = concat (map frame_bytes fs)"

lemma length_frames_bytes: "length (frames_bytes (frames_from s ps)) = frames_size ps"
  by (induction ps arbitrary: s) (simp_all add: frames_bytes_def frames_size_def)

lemma append_all_spec:
  assumes "ring_inv r" "mr_writePos r + frames_size ps \<le> mr_capacity r"
  shows "\<exists>r'. append_all ps r = Some r' \<and> ring_inv r' \<and> mr_capacity r' = mr_capacity r \<and>
    mr_writePos r' = (mr_writePos r + frames_size ps) mod mr_capacity r \<and>
    bytes_at r' (mr_writePos r) (frames_size ps) = frames_bytes (frames_from (mr_nextSeq r) ps) \<and>
    (\<forall>i < mr_writePos r. mr_data r' ! i = mr_data r ! i)"
  using assms
proof (induction ps arbitrary: r)
  case Nil
  then show ?case by (simp add: frames_size_def frames_bytes_def bytes_at_def ring_inv_def)
next
  case (Cons p ps)
  let ?n = "HeaderSize + length p" and ?wp = "mr_writePos r" and ?cap = "mr_capacity r"
  have size: "frames_size (p # ps) = ?n + frames_size ps" by (simp add: frames_size_def)
  then have fit: "?n \<le> ?cap" "?wp + ?n + frames_size ps \<le> ?cap" using Cons.prems(2) by simp_all
  obtain r1 where r1: "MmapRing_Append p r = Some (r1, Inr (mr_nextSeq r))" "ring_inv r1" "mr_capacity r1 = ?cap"
    "mr_nextSeq r1 = mr_nextSeq r + 1" "mr_writePos r1 = (?wp + HeaderSize + length p) mod ?cap"
    "bytes_at r1 ?wp ?n = frame_bytes (mk_frame (mr_nextSeq r) p)"
    "\<forall>i. ?n \<le> i \<and> i < ?cap \<longrightarrow> mr_data r1 ! ((?wp + i) mod ?cap) = mr_data r ! ((?wp + i) mod ?cap)"
    by (rule Append_spec[OF Cons.prems(1) fit(1)])
  have old: "mr_data r1 ! i = mr_data r ! i" if "i < ?wp" for i
    using r1(7)[THEN spec, of "i + ?cap - ?wp"] that fit(2) Cons.prems(1) by (auto simp: ring_inv_def)
  show ?case
  proof (cases "ps = []")
    case True
    then show ?thesis using r1 old size by (simp add: frames_size_def frames_bytes_def add.assoc)
  next
    case False
    then have "frames_size ps > 0" by (cases ps) (simp_all add: frames_size_def HeaderSize_def)
    then have wp1: "mr_writePos r1 = ?wp + ?n" using r1(5) fit(2) by (simp add: add.assoc)
    obtain r2 where r2: "append_all ps r1 = Some r2" "ring_inv r2" "mr_capacity r2 = ?cap"
      "mr_writePos r2 = (?wp + ?n + frames_size ps) mod ?cap"
      "bytes_at r2 (?wp + ?n) (frames_size ps) = frames_bytes (frames_from (mr_nextSeq r + 1) ps)"
      "\<forall>i < ?wp + ?n. mr_data r2 ! i = mr_data r1 ! i"
      using Cons.IH[OF r1(2)] fit(2) wp1 r1(3,4) by auto
    have "bytes_at r2 ?wp ?n = bytes_at r1 ?wp ?n"
      using r2(3,6) r1(3) fit(2) by (intro nth_equalityI) (simp_all add: bytes_at_def)
    then have "bytes_at r2 ?wp (?n + frames_size ps) = frames_bytes (frames_from (mr_nextSeq r) (p # ps))"
      using r2(5) r1(6) unfolding bytes_at_add by (simp add: frames_bytes_def)
    then show ?thesis using r1(1) r2 old size by (simp add: add.assoc)
  qed
qed

lemma snapshot_loop_frames:
  assumes inv: "ring_inv r"
  shows "\<forall>p \<in> set ps. length p < 2 ^ 32 \<Longrightarrow> bytes_at r off (frames_size ps) = frames_bytes (frames_from s ps) \<Longrightarrow>
    off + frames_size ps = mr_writePos r \<Longrightarrow> lst < s \<or> ps = [] \<Longrightarrow> unat s + length ps < 2 ^ 64 \<Longrightarrow>
    snapshot_loop r \<lparr>cu_offset = off, cu_lastSeq = lst\<rparr> acc = Some (acc @ frames_from s ps)"
proof (induction ps arbitrary: off s lst acc)
  case Nil
  then show ?case by (subst snapshot_loop.simps) (simp add: Cursor_Next_def frames_size_def)
next
  case (Cons p ps)
  let ?n = "HeaderSize + length p"
  have size: "frames_size (p # ps) = ?n + frames_size ps" by (simp add: frames_size_def)
  have b: "bytes_at r off ?n = frame_bytes (mk_frame s p)" "bytes_at r (off + ?n) (frames_size ps) = frames_bytes (frames_from (s + 1) ps)"
    using Cons.prems(2) bytes_at_add[of r off ?n "frames_size ps"] unfolding size by (simp_all add: frames_bytes_def)
  have off: "off \<noteq> mr_writePos r" "off + ?n \<le> mr_writePos r" "mr_writePos r < mr_capacity r"
    using Cons.prems(3) inv size by (auto simp: ring_inv_def HeaderSize_def)
  have "ReadFrameAt off r = Some (Inr (mk_frame s p, (off + HeaderSize + length p) mod mr_capacity r))"
    using ReadFrameAt_frame[OF inv _ b(1)] Cons.prems(1) by simp
  then have "Cursor_Next r \<lparr>cu_offset = off, cu_lastSeq = lst\<rparr> = Some (\<lparr>cu_offset = off + ?n, cu_lastSeq = s\<rparr>, Inr (Some (mk_frame s p)))"
    using off Cons.prems(4) by (auto simp: Cursor_Next_def mk_frame_def add.assoc)
  moreover have "unat (s + 1) = unat s + 1" using Cons.prems(5) by (subst unat_plus_if') simp
  then have "s < s + 1" "unat (s + 1) + length ps < 2 ^ 64" using Cons.prems(5) by (simp_all add: word_less_nat_alt)
  ultimately show ?case
    using Cons.IH[of "off + ?n" "s + 1" s "acc @ [mk_frame s p]"] Cons.prems(1,3) b(2) size
    by (subst snapshot_loop.simps) (simp add: add.assoc)
qed

lemma New_ring:
  assumes "2 * HeaderSize < capacity"
  shows "ring_inv (MmapRing_New (int capacity))" "mr_writePos (MmapRing_New (int capacity)) = 0"
    "mr_capacity (MmapRing_New (int capacity)) = capacity" "mr_nextSeq (MmapRing_New (int capacity)) = 1"
  using assms by (simp_all add: MmapRing_New_def ring_inv_def HeaderSize_def)

text \<open>
  (C28) Round trip. Payloads appended to a new ring are all read back by \<open>Snapshot\<close>, in order, with their
  sequence numbers and checksums, as long as their frames together take fewer bytes than the capacity.
  In particular the loops of \<open>Append\<close>, of the reads and of \<open>Snapshot\<close> all end.
\<close>

theorem Snapshot_returns_appended:
  assumes "2 * HeaderSize < capacity" "capacity < 2 ^ 63" "frames_size ps < capacity" "\<forall>p \<in> set ps. length p < 2 ^ 32"
  shows "\<exists>r. append_all ps (MmapRing_New (int capacity)) = Some r \<and> Snapshot r = Some (frames_from 1 ps)"
proof -
  note N = New_ring[OF assms(1)]
  obtain r where r: "append_all ps (MmapRing_New (int capacity)) = Some r" "ring_inv r" "mr_capacity r = capacity"
    "mr_writePos r = frames_size ps" "bytes_at r 0 (frames_size ps) = frames_bytes (frames_from 1 ps)"
    using append_all_spec[OF N(1), of ps] assms(3) by (auto simp: N)
  have "length ps \<le> frames_size ps" by (induction ps) (simp_all add: frames_size_def HeaderSize_def)
  then have "unat (1 :: uint64) + length ps < 2 ^ 64" using assms(2,3) by simp
  then show ?thesis
    using snapshot_loop_frames[OF r(2) assms(4) r(5), of 0 "[]"] r by (simp add: Snapshot_def NewCursor_def)
qed

theorem Snapshot_returns_appended_witness:
  "\<exists>r. append_all [[1, 2], [3]] (MmapRing_New 100) = Some r \<and> map_option (map fr_Payload) (Snapshot r) = Some [[1, 2], [3]]"
proof -
  have "\<exists>r. append_all [[1, 2], [3]] (MmapRing_New (int 100)) = Some r \<and> Snapshot r = Some (frames_from 1 [[1, 2], [3]])"
    by (rule Snapshot_returns_appended) (simp_all add: HeaderSize_def frames_size_def)
  then obtain r where r: "append_all [[1, 2], [3]] (MmapRing_New 100) = Some r" "Snapshot r = Some (frames_from 1 [[1, 2], [3]])"
    unfolding of_nat_numeral by blast
  moreover have "map fr_Payload (frames_from 1 [[1, 2], [3]]) = [[1, 2], [3]]" by (simp add: mk_frame_def)
  ultimately show ?thesis by (intro exI[of _ r] conjI) (simp_all only: option.map)
qed

text \<open>
  When the frames fill the ring exactly, the write position is again 0 and equal to the position
  where \<open>Snapshot\<close> starts, which it takes for an empty ring: all frames are present and none is
  returned.
\<close>

theorem Snapshot_of_full_ring_is_empty:
  assumes "2 * HeaderSize < capacity" "frames_size ps = capacity"
  shows "\<exists>r. append_all ps (MmapRing_New (int capacity)) = Some r \<and>
    bytes_at r 0 capacity = frames_bytes (frames_from 1 ps) \<and> Snapshot r = Some []"
proof -
  note N = New_ring[OF assms(1)]
  obtain r where r: "append_all ps (MmapRing_New (int capacity)) = Some r" "mr_writePos r = 0" "bytes_at r 0 capacity = frames_bytes (frames_from 1 ps)"
    using append_all_spec[OF N(1), of ps] assms(2) by (auto simp: N)
  have "Snapshot r = Some []" unfolding Snapshot_def by (subst snapshot_loop.simps) (simp add: NewCursor_def Cursor_Next_def r(2))
  then show ?thesis using r(1,3) by blast
qed

theorem Snapshot_of_full_ring_is_empty_witness:
  "\<exists>r. append_all [[1, 2, 3], [4, 5, 6]] (MmapRing_New 50) = Some r \<and> Snapshot r = Some []"
proof -
  have "2 * HeaderSize < 50" "frames_size [[1, 2, 3], [4, 5, 6]] = 50" by (simp_all add: HeaderSize_def frames_size_def)
  from Snapshot_of_full_ring_is_empty[OF this] show ?thesis unfolding of_nat_numeral by blast
qed

end
