(* ===== verification/Lane.thy ===== *)
theory Lane
  imports Tempest_Prelude
begin

text \<open>
  \<open>internal/lane\<close>: priority lanes and deficit round-robin scheduling, and the atomic credit counter.
  The lanes of a scheduler are a list, and the map from identifiers to lane pointers gives positions in
  it. Readings of the clock and of the context are arguments. Costs, quanta and deficits are
  mathematical integers (a deficit stays below the cost of a task plus one quantum).
\<close>

section \<open>Lanes\<close>

datatype lane_error =
    ErrLaneFull string int
  | ErrLaneNotFound string
  | ErrQueueEmpty
  | ErrInvalidQuantum
  | NoLanes
  | DuplicateLane string

record Task =
  tk_ID :: string
  tk_LaneID :: string
  tk_Payload :: "8 word list"
  tk_Cost :: int
  tk_EnqueuedAt :: gotime
  tk_AgeBoosted :: bool

record LaneConfig =
  lcf_ID :: string
  lcf_Priority :: int
  lcf_Quantum :: int
  lcf_MaxCapacity :: int
  lcf_StarvationThreshold :: duration

record Lane =
  ln_cfg :: LaneConfig
  ln_tasks :: "Task list"
  ln_deficit :: int
  ln_enqueuedCount :: uint64
  ln_dequeuedCount :: uint64


definition Lane_ID :: "Lane \<Rightarrow> string" where "Lane_ID l = lcf_ID (ln_cfg l)"
definition Lane_Priority :: "Lane \<Rightarrow> int" where "Lane_Priority l = lcf_Priority (ln_cfg l)"
definition Lane_Quantum :: "Lane \<Rightarrow> int" where "Lane_Quantum l = lcf_Quantum (ln_cfg l)"



definition Lane_Peek :: "Lane \<Rightarrow> Task option" where
  "Lane_Peek l = (case ln_tasks l of [] \<Rightarrow> None | t # _ \<Rightarrow> Some t)"


definition OldestWaitDuration :: "gotime \<Rightarrow> Lane \<Rightarrow> duration" where
  "OldestWaitDuration now l = (case ln_tasks l of [] \<Rightarrow> 0 | t # _ \<Rightarrow> time_Sub now (tk_EnqueuedAt t))"


record LaneStats =
  lst_ID :: string
  lst_CurrentDepth :: nat
  lst_EnqueuedTotal :: uint64
  lst_DequeuedTotal :: uint64
  lst_OldestWait :: duration
  lst_Deficit :: int

definition Lane_Stats :: "gotime \<Rightarrow> Lane \<Rightarrow> LaneStats" where
  "Lane_Stats now l =
     (let oldestWait = (case ln_tasks l of [] \<Rightarrow> 0 | t # _ \<Rightarrow> time_Sub now (tk_EnqueuedAt t))
      in \<lparr>lst_ID = lcf_ID (ln_cfg l), lst_CurrentDepth = length (ln_tasks l), lst_EnqueuedTotal = ln_enqueuedCount l,
          lst_DequeuedTotal = ln_dequeuedCount l, lst_OldestWait = oldestWait, lst_Deficit = ln_deficit l\<rparr>)"

section \<open>Deficit round robin\<close>

record DRRScheduler =
  dr_lanes :: "Lane list"
  dr_laneMap :: "string \<rightharpoonup> nat"
  dr_roundIndex :: nat
  dr_quantumAdded :: bool
  dr_totalTasks :: int













definition LaneIDs :: "DRRScheduler \<Rightarrow> string list" where
  "LaneIDs s = map Lane_ID (dr_lanes s)"

section \<open>Invariant\<close>











section \<open>Every queued task is dispatched\<close>
























end
