(* ===== verification/Atomic_Counter.thy ===== *)
theory Atomic_Counter
  imports Tempest_Prelude
begin

text \<open>
  \<open>internal/lane/atomic_counter.go\<close>: the lock-free credit counter. Its two cells are 64-bit words read as
  signed numbers. \<open>TryConsume\<close> is a loop of two atomic actions, a load and a compare-and-swap, so it is
  modelled as a machine whose actions interleave with those of other goroutines.
\<close>

record AtomicQuantumCounter =
  aq_credits :: "64 word"
  aq_depth :: "64 word"

definition NewAtomicQuantumCounter :: "64 word \<Rightarrow> AtomicQuantumCounter" where
  "NewAtomicQuantumCounter initialCredits = \<lparr>aq_credits = initialCredits, aq_depth = 0\<rparr>"

definition Counter_Add :: "64 word \<Rightarrow> AtomicQuantumCounter \<Rightarrow> AtomicQuantumCounter \<times> 64 word" where
  "Counter_Add delta c = (let v = aq_credits c + delta in (c\<lparr>aq_credits := v\<rparr>, v))"

definition Counter_Sub :: "64 word \<Rightarrow> AtomicQuantumCounter \<Rightarrow> AtomicQuantumCounter \<times> 64 word" where
  "Counter_Sub delta c = (let v = aq_credits c + (- delta) in (c\<lparr>aq_credits := v\<rparr>, v))"

definition Counter_Load :: "AtomicQuantumCounter \<Rightarrow> 64 word" where
  "Counter_Load c = aq_credits c"

definition Counter_Reset :: "AtomicQuantumCounter \<Rightarrow> AtomicQuantumCounter" where
  "Counter_Reset c = c\<lparr>aq_credits := 0\<rparr>"

definition IncDepth :: "AtomicQuantumCounter \<Rightarrow> AtomicQuantumCounter \<times> 64 word" where
  "IncDepth c = (let v = aq_depth c + 1 in (c\<lparr>aq_depth := v\<rparr>, v))"

definition DecDepth :: "AtomicQuantumCounter \<Rightarrow> AtomicQuantumCounter \<times> 64 word" where
  "DecDepth c = (let v = aq_depth c + (- 1) in (c\<lparr>aq_depth := v\<rparr>, v))"

definition Counter_Depth :: "AtomicQuantumCounter \<Rightarrow> 64 word" where
  "Counter_Depth c = aq_depth c"

section \<open>TryConsume\<close>

text \<open>A goroutine inside \<open>TryConsume(cost)\<close>: before the load, between load and swap, or returned.\<close>

datatype consumer =
    Trying "64 word"
  | Loaded "64 word" "64 word"
  | Returned "64 word" bool

definition TryConsume_step :: "AtomicQuantumCounter \<Rightarrow> consumer \<Rightarrow> AtomicQuantumCounter \<times> consumer" where
  "TryConsume_step c p =
     (case p of
        Trying cost \<Rightarrow>
          (let cur = Counter_Load c
           in if cur <s cost then (c, Returned cost False) else (c, Loaded cost cur))
      | Loaded cost cur \<Rightarrow>
          (if aq_credits c = cur then (c\<lparr>aq_credits := cur - cost\<rparr>, Returned cost True)
           else (c, Trying cost))
      | Returned cost b \<Rightarrow> (c, Returned cost b))"

text \<open>The goroutines of \<open>ps\<close> run in the order the schedule names them.\<close>

fun TryConsume_run :: "nat list \<Rightarrow> AtomicQuantumCounter \<Rightarrow> consumer list \<Rightarrow> AtomicQuantumCounter \<times> consumer list" where
  "TryConsume_run [] c ps = (c, ps)"
| "TryConsume_run (i # is) c ps =
     (if i < length ps
      then let (c', p') = TryConsume_step c (ps ! i) in TryConsume_run is c' (ps[i := p'])
      else TryConsume_run is c ps)"

text \<open>The credits a goroutine has taken.\<close>

fun taken :: "consumer \<Rightarrow> int" where
  "taken (Returned cost True) = sint cost"
| "taken _ = 0"

fun consumer_ok :: "consumer \<Rightarrow> bool" where
  "consumer_ok (Trying cost) \<longleftrightarrow> 0 \<le> sint cost"
| "consumer_ok (Loaded cost cur) \<longleftrightarrow> 0 \<le> sint cost \<and> sint cost \<le> sint cur"
| "consumer_ok (Returned cost b) \<longleftrightarrow> 0 \<le> sint cost"

lemma sint_diff:
  fixes a b :: "64 word"
  assumes "0 \<le> sint b" "sint b \<le> sint a"
  shows "sint (a - b) = sint a - sint b"
proof -
  have "sint a < 2 ^ 63" using sint_lt[of a] by simp
  then have "signed_take_bit 63 (sint a - sint b) = sint a - sint b"
    using assms by (intro signed_take_bit_int_eq_self) auto
  then show ?thesis by (simp add: sint_word_ariths)
qed

lemma TryConsume_step_ok:
  assumes "TryConsume_step c p = (c', p')" "consumer_ok p" "0 \<le> sint (aq_credits c)"
  shows "consumer_ok p' \<and> 0 \<le> sint (aq_credits c') \<and> sint (aq_credits c') + taken p' = sint (aq_credits c) + taken p"
proof (cases p)
  case (Loaded cost cur)
  then show ?thesis using assms sint_diff[of cost cur] by (auto simp: TryConsume_step_def split: if_splits)
qed (use assms in \<open>auto simp: TryConsume_step_def Counter_Load_def Let_def word_sless_alt split: if_splits\<close>)

lemma sum_list_update_int:
  "i < length xs \<Longrightarrow> sum_list (xs[i := x]) + xs ! i = sum_list xs + (x :: int)"
  by (induction xs arbitrary: i) (auto simp: nth_Cons split: nat.split)

lemma TryConsume_run_ok:
  "\<lbrakk>TryConsume_run is c ps = (c', ps'); list_all consumer_ok ps; 0 \<le> sint (aq_credits c)\<rbrakk> \<Longrightarrow>
   0 \<le> sint (aq_credits c') \<and> sint (aq_credits c') + sum_list (map taken ps') = sint (aq_credits c) + sum_list (map taken ps)"
proof (induction "is" c ps rule: TryConsume_run.induct)
  case (2 i "is" c ps)
  show ?case
  proof (cases "i < length ps")
    case True
    obtain c1 p1 where st: "TryConsume_step c (ps ! i) = (c1, p1)" by force
    have "consumer_ok (ps ! i)" using "2.prems"(2) True by (simp add: list_all_length)
    note ok = TryConsume_step_ok[OF st this "2.prems"(3)]
    then have "list_all consumer_ok (ps[i := p1])"
      using "2.prems"(2) by (auto simp: list_all_iff dest: set_update_subset_insert[THEN subsetD])
    moreover have "TryConsume_run is c1 (ps[i := p1]) = (c', ps')" using "2.prems"(1) True st by simp
    ultimately have "0 \<le> sint (aq_credits c') \<and>
        sint (aq_credits c') + sum_list (map taken ps') = sint (aq_credits c1) + sum_list (map taken (ps[i := p1]))"
      using "2.IH"(1)[OF True] st ok by auto
    moreover have "sum_list (map taken (ps[i := p1])) + taken (ps ! i) = sum_list (map taken ps) + taken p1"
      using sum_list_update_int[of i "map taken ps" "taken p1"] True by (simp add: map_update)
    ultimately show ?thesis using ok by linarith
  next
    case False
    then show ?thesis using 2 by simp
  qed
qed auto

text \<open>
  (C32) The lock-free counter is never overdrawn: however the loads and compare-and-swaps of any number
  of concurrent \<open>TryConsume\<close> calls interleave, the balance never becomes negative and is exactly the
  initial balance less the costs of the calls that returned true.
\<close>

theorem TryConsume_never_overdraws:
  assumes "0 \<le> sint initialCredits" "\<forall>cost \<in> set costs. 0 \<le> sint cost"
    and "TryConsume_run is (NewAtomicQuantumCounter initialCredits) (map Trying costs) = (c, ps)"
  shows "0 \<le> sint (Counter_Load c) \<and> sint (Counter_Load c) = sint initialCredits - sum_list (map taken ps)"
proof -
  have "sum_list (map taken (map Trying costs)) = 0" by (induction costs) auto
  then show ?thesis
    using TryConsume_run_ok[OF assms(3)] assms(1,2)
    by (auto simp: NewAtomicQuantumCounter_def Counter_Load_def list_all_iff)
qed

theorem TryConsume_never_overdraws_witness:
  "\<exists>c ps. TryConsume_run [0, 1, 0, 1, 1] (NewAtomicQuantumCounter 5) (map Trying [3, 4]) = (c, ps) \<and>
     ps = [Returned 3 True, Returned 4 False] \<and> 0 \<le> sint (Counter_Load c) \<and> sint (Counter_Load c) = 2"
proof -
  have run: "TryConsume_run [0, 1, 0, 1, 1] (NewAtomicQuantumCounter 5) (map Trying [3, 4]) =
      (\<lparr>aq_credits = 2, aq_depth = 0\<rparr>, [Returned 3 True, Returned 4 False])"
    by (simp add: NewAtomicQuantumCounter_def TryConsume_step_def Counter_Load_def Let_def word_sless_alt)
  show ?thesis
    by (intro exI conjI, rule run) (use TryConsume_never_overdraws[OF _ _ run] in simp_all)
qed

end
