(* ===== verification/Deadlock.thy ===== *)
theory Deadlock
  imports Tempest_Prelude
begin

text \<open>
  \<open>internal/deadlock\<close>: the detector of circular waits on locks. The set of locks that a task holds
  is a list without repetitions, tasks are kept by value, and the depth-first search carries its
  captured variables as a state. \<open>srt\<close> stands for \<open>sort.Slice\<close>, which need not be stable. The
  sweeper goroutine only calls \<open>ResolveDeadlocks\<close>, again and again.
\<close>

section \<open>The detector\<close>

datatype deadlock_error = ErrTaskNotFound | ErrNoVictim

datatype VictimPolicy = VictimLowestPriority | VictimYoungest | VictimFewestLocks | VictimOther int

record TaskInfo =
  ti_ID :: string
  ti_WorkflowID :: string
  ti_Priority :: int
  ti_StartedAt :: gotime
  ti_HeldLocks :: "string list"
  ti_WaitingLock :: string

record Detector =
  dt_tasks :: "string \<rightharpoonup> TaskInfo"
  dt_lockHolders :: "string \<rightharpoonup> string"
  dt_lockWaiters :: "string \<rightharpoonup> string list"
  dt_stopCh_closed :: bool
  dt_running :: bool

definition Detector_New :: Detector where
  "Detector_New = \<lparr>dt_tasks = Map.empty, dt_lockHolders = Map.empty, dt_lockWaiters = Map.empty,
     dt_stopCh_closed = False, dt_running = False\<rparr>"

definition RegisterTask :: "string \<Rightarrow> string \<Rightarrow> int \<Rightarrow> gotime \<Rightarrow> Detector \<Rightarrow> Detector" where
  "RegisterTask ident workflowID priority startedAt d =
     d\<lparr>dt_tasks := (dt_tasks d)(ident \<mapsto> \<lparr>ti_ID = ident, ti_WorkflowID = workflowID, ti_Priority = priority,
        ti_StartedAt = startedAt, ti_HeldLocks = [], ti_WaitingLock = ''''\<rparr>)\<rparr>"

definition waiters_of :: "string \<Rightarrow> Detector \<Rightarrow> string list" where
  "waiters_of l d = (case dt_lockWaiters d l of None \<Rightarrow> [] | Some ws \<Rightarrow> ws)"

definition UnregisterTask :: "string \<Rightarrow> Detector \<Rightarrow> Detector" where
  "UnregisterTask ident d =
     (case dt_tasks d ident of
        None \<Rightarrow> d
      | Some t \<Rightarrow>
          (let d1 = d\<lparr>dt_lockHolders := (\<lambda>l. if l \<in> set (ti_HeldLocks t) \<and> dt_lockHolders d l = Some ident then None else dt_lockHolders d l)\<rparr>;
               d2 = (if ti_WaitingLock t \<noteq> ''''
                     then d1\<lparr>dt_lockWaiters := (dt_lockWaiters d1)(ti_WaitingLock t \<mapsto> filter (\<lambda>w. w \<noteq> ident) (waiters_of (ti_WaitingLock t) d1))\<rparr>
                     else d1)
           in d2\<lparr>dt_tasks := (dt_tasks d2)(ident := None)\<rparr>))"

definition AcquireLock :: "string \<Rightarrow> string \<Rightarrow> Detector \<Rightarrow> Detector \<times> (deadlock_error + bool)" where
  "AcquireLock taskID lockID d =
     (case dt_tasks d taskID of
        None \<Rightarrow> (d, Inl ErrTaskNotFound)
      | Some t \<Rightarrow>
          (if dt_lockHolders d lockID \<noteq> None \<and> dt_lockHolders d lockID \<noteq> Some taskID
           then (d\<lparr>dt_tasks := (dt_tasks d)(taskID \<mapsto> t\<lparr>ti_WaitingLock := lockID\<rparr>),
                   dt_lockWaiters := (dt_lockWaiters d)(lockID \<mapsto> waiters_of lockID d @ [taskID])\<rparr>, Inr False)
           else (d\<lparr>dt_lockHolders := (dt_lockHolders d)(lockID \<mapsto> taskID),
                   dt_tasks := (dt_tasks d)(taskID \<mapsto> t\<lparr>ti_HeldLocks := List.insert lockID (ti_HeldLocks t), ti_WaitingLock := ''''\<rparr>)\<rparr>, Inr True)))"

definition ReleaseLock :: "string \<Rightarrow> string \<Rightarrow> Detector \<Rightarrow> Detector \<times> deadlock_error option" where
  "ReleaseLock taskID lockID d =
     (case dt_tasks d taskID of
        None \<Rightarrow> (d, Some ErrTaskNotFound)
      | Some t \<Rightarrow>
          (let d1 = d\<lparr>dt_tasks := (dt_tasks d)(taskID \<mapsto> t\<lparr>ti_HeldLocks := removeAll lockID (ti_HeldLocks t)\<rparr>)\<rparr>
           in (if dt_lockHolders d1 lockID = Some taskID then d1\<lparr>dt_lockHolders := (dt_lockHolders d1)(lockID := None)\<rparr> else d1, None)))"

text \<open>Every task appends at most one edge, to its own entry, so the order of the iteration is immaterial.\<close>

definition BuildWaitForGraph :: "Detector \<Rightarrow> (string \<rightharpoonup> string list)" where
  "BuildWaitForGraph d =
     (\<lambda>taskID. case dt_tasks d taskID of
        None \<Rightarrow> None
      | Some task \<Rightarrow>
          (if ti_WaitingLock task \<noteq> ''''
           then (case dt_lockHolders d (ti_WaitingLock task) of
                   Some holder \<Rightarrow> if holder \<noteq> taskID then Some [holder] else None
                 | None \<Rightarrow> None)
           else None))"

section \<open>Detection\<close>

record dfs_state =
  fs_visited :: "string set"
  fs_recStack :: "string set"
  fs_path :: "string list"
  fs_cycles :: "string list list"

primrec for_each :: "('a \<Rightarrow> 's \<Rightarrow> 's option) \<Rightarrow> 'a list \<Rightarrow> 's \<Rightarrow> 's option" where
  "for_each f [] st = Some st"
| "for_each f (x # xs) st = (case f x st of None \<Rightarrow> None | Some st' \<Rightarrow> for_each f xs st')"

definition children :: "(string \<rightharpoonup> string list) \<Rightarrow> string \<Rightarrow> string list" where
  "children wfg u = (case wfg u of None \<Rightarrow> [] | Some vs \<Rightarrow> vs)"

text \<open>The slice of the path from the first occurrence of \<open>v\<close>, when there is one.\<close>

definition add_cycle :: "string \<Rightarrow> dfs_state \<Rightarrow> dfs_state" where
  "add_cycle v st =
     (if v \<in> set (fs_path st) then st\<lparr>fs_cycles := fs_cycles st @ [dropWhile (\<lambda>node. node \<noteq> v) (fs_path st)]\<rparr> else st)"

definition enter :: "string \<Rightarrow> dfs_state \<Rightarrow> dfs_state" where
  "enter u st = st\<lparr>fs_visited := insert u (fs_visited st), fs_recStack := insert u (fs_recStack st), fs_path := fs_path st @ [u]\<rparr>"

definition leave :: "string \<Rightarrow> dfs_state \<Rightarrow> dfs_state" where
  "leave u st = st\<lparr>fs_path := butlast (fs_path st), fs_recStack := fs_recStack st - {u}\<rparr>"

text \<open>The first argument bounds the depth of the recursion; \<open>None\<close> means that it is exceeded.\<close>

primrec dfs :: "nat \<Rightarrow> (string \<rightharpoonup> string list) \<Rightarrow> string \<Rightarrow> dfs_state \<Rightarrow> dfs_state option" where
  "dfs 0 wfg u st = None"
| "dfs (Suc n) wfg u st =
     (case for_each
             (\<lambda>v st. if v \<notin> fs_visited st then dfs n wfg v st
                     else if v \<in> fs_recStack st then Some (add_cycle v st)
                     else Some st)
             (children wfg u) (enter u st) of
        None \<Rightarrow> None
      | Some st' \<Rightarrow> Some (leave u st'))"

definition DetectDeadlocks :: "string list \<Rightarrow> Detector \<Rightarrow> string list list option" where
  "DetectDeadlocks ks d =
     (let wfg = BuildWaitForGraph d
      in map_option fs_cycles
           (for_each (\<lambda>u st. if u \<notin> fs_visited st then dfs (Suc (length ks)) wfg u st else Some st) ks
              \<lparr>fs_visited = {}, fs_recStack = {}, fs_path = [], fs_cycles = []\<rparr>))"

section \<open>Resolution\<close>

type_synonym sort_Slice = "(TaskInfo \<Rightarrow> TaskInfo \<Rightarrow> bool) \<Rightarrow> TaskInfo list \<Rightarrow> TaskInfo list"

definition victim_less :: "VictimPolicy \<Rightarrow> (TaskInfo \<Rightarrow> TaskInfo \<Rightarrow> bool) option" where
  "victim_less policy =
     (case policy of
        VictimLowestPriority \<Rightarrow> Some (\<lambda>a b. if ti_Priority a \<noteq> ti_Priority b then ti_Priority a < ti_Priority b
                                        else time_After (ti_StartedAt a) (ti_StartedAt b))
      | VictimYoungest \<Rightarrow> Some (\<lambda>a b. time_After (ti_StartedAt a) (ti_StartedAt b))
      | VictimFewestLocks \<Rightarrow> Some (\<lambda>a b. length (ti_HeldLocks a) < length (ti_HeldLocks b))
      | VictimOther _ \<Rightarrow> None)"

definition SelectVictim :: "sort_Slice \<Rightarrow> string list \<Rightarrow> VictimPolicy \<Rightarrow> Detector \<Rightarrow> deadlock_error + string" where
  "SelectVictim srt cyc policy d =
     (if cyc = [] then Inl ErrNoVictim
      else let candidates = List.map_filter (dt_tasks d) cyc in
        if candidates = [] then Inl ErrNoVictim
        else Inr (ti_ID (hd (case victim_less policy of None \<Rightarrow> candidates | Some lt \<Rightarrow> srt lt candidates))))"

text \<open>The victims so far are \<open>aborted\<close>, in the order in which they are handed to \<open>abortCallback\<close>.\<close>

fun resolve_loop :: "sort_Slice \<Rightarrow> VictimPolicy \<Rightarrow> string list list \<Rightarrow> string list \<Rightarrow> Detector \<Rightarrow> Detector \<times> string list" where
  "resolve_loop srt policy [] aborted d = (d, aborted)"
| "resolve_loop srt policy (cyc # cycles) aborted d =
     (if \<exists>node \<in> set cyc. node \<in> set aborted then resolve_loop srt policy cycles aborted d
      else case SelectVictim srt cyc policy d of
        Inl err \<Rightarrow> resolve_loop srt policy cycles aborted d
      | Inr victim \<Rightarrow>
          (if victim \<noteq> '''' then resolve_loop srt policy cycles (aborted @ [victim]) (UnregisterTask victim d)
           else resolve_loop srt policy cycles aborted d))"

definition ResolveDeadlocks :: "sort_Slice \<Rightarrow> string list \<Rightarrow> VictimPolicy \<Rightarrow> Detector \<Rightarrow> (Detector \<times> string list \<times> nat) option" where
  "ResolveDeadlocks srt ks policy d =
     (case DetectDeadlocks ks d of
        None \<Rightarrow> None
      | Some cycles \<Rightarrow> (let (d', aborted) = resolve_loop srt policy cycles [] d in Some (d', aborted, length aborted)))"

text \<open>
  The sweeper. \<open>StartSweeper\<close> tells whether it launches a goroutine; one tick of that goroutine resolves
  deadlocks unless a stop is pending (\<open>None\<close>: the goroutine ends). \<open>Stop\<close> closes the stop channel, which
  panics when it is closed already.
\<close>

definition StartSweeper :: "Detector \<Rightarrow> Detector \<times> bool" where
  "StartSweeper d = (if dt_running d then (d, False) else (d\<lparr>dt_running := True\<rparr>, True))"

definition sweeper_tick :: "sort_Slice \<Rightarrow> string list \<Rightarrow> VictimPolicy \<Rightarrow> bool \<Rightarrow> Detector \<Rightarrow> (Detector \<times> string list \<times> nat) option" where
  "sweeper_tick srt ks policy ctx_done d =
     (if dt_stopCh_closed d \<or> ctx_done then None else ResolveDeadlocks srt ks policy d)"

datatype stop_result = StopPanics | StopReturns Detector

definition Detector_Stop :: "Detector \<Rightarrow> stop_result" where
  "Detector_Stop d =
     (if \<not> dt_running d then StopReturns d
      else if dt_stopCh_closed d then StopPanics
      else StopReturns (d\<lparr>dt_running := False, dt_stopCh_closed := True\<rparr>))"

lemma restarted_sweeper_unusable:
  assumes "\<not> dt_stopCh_closed d" "\<not> dt_running d"
  shows "\<exists>d1 d2. Detector_Stop (fst (StartSweeper d)) = StopReturns d1 \<and> StartSweeper d1 = (d2, True) \<and>
    sweeper_tick srt ks policy False d2 = None \<and> Detector_Stop d2 = StopPanics"
  using assms by (simp add: Detector_Stop_def StartSweeper_def sweeper_tick_def)

section \<open>Circular waits\<close>

definition waits_for :: "Detector \<Rightarrow> string \<Rightarrow> string \<Rightarrow> bool" where
  "waits_for d a b \<longleftrightarrow> (\<exists>t. dt_tasks d a = Some t \<and> ti_WaitingLock t \<noteq> '''' \<and> dt_lockHolders d (ti_WaitingLock t) = Some b \<and> b \<noteq> a)"

text \<open>Every task of the list waits for the next one, and the last one for the first.\<close>

definition deadlock_cycle :: "Detector \<Rightarrow> string list \<Rightarrow> bool" where
  "deadlock_cycle d c \<longleftrightarrow> c \<noteq> [] \<and> distinct c \<and> (\<forall>i < length c. waits_for d (c ! i) (c ! (Suc i mod length c)))"

text \<open>A task waits for one lock, so the graph is a partial function.\<close>

definition waits_next :: "Detector \<Rightarrow> (string \<rightharpoonup> string)" where
  "waits_next d = (\<lambda>a. case BuildWaitForGraph d a of None \<Rightarrow> None | Some vs \<Rightarrow> Some (hd vs))"

definition wait_cycle :: "(string \<rightharpoonup> string) \<Rightarrow> string list \<Rightarrow> bool" where
  "wait_cycle nxt c \<longleftrightarrow> c \<noteq> [] \<and> distinct c \<and> (\<forall>i < length c. nxt (c ! i) = Some (c ! (Suc i mod length c)))"

lemma waits_next_iff: "waits_next d a = Some b \<longleftrightarrow> waits_for d a b"
  by (auto simp: waits_next_def waits_for_def BuildWaitForGraph_def split: option.splits)

lemma deadlock_cycle_iff: "deadlock_cycle d c \<longleftrightarrow> wait_cycle (waits_next d) c"
  by (simp add: deadlock_cycle_def wait_cycle_def waits_next_iff)

lemma children_waits_next: "children (BuildWaitForGraph d) u = (case waits_next d u of None \<Rightarrow> [] | Some v \<Rightarrow> [v])"
  by (auto simp: children_def waits_next_def BuildWaitForGraph_def split: option.splits)

lemma dom_waits_next: "dom (waits_next d) = dom (BuildWaitForGraph d)"
  by (auto simp: waits_next_def dom_def split: option.splits)

lemma wait_cycle_next: "wait_cycle nxt c \<Longrightarrow> v \<in> set c \<Longrightarrow> \<exists>w \<in> set c. nxt v = Some w"
  by (auto simp: wait_cycle_def in_set_conv_nth intro!: exI[of _ "Suc _ mod length c"])

lemma wait_cycle_reaches:
  assumes "wait_cycle nxt c" "x \<in> set c" "x \<in> S" "\<And>a b. a \<in> S \<Longrightarrow> nxt a = Some b \<Longrightarrow> b \<in> S"
  shows "set c \<subseteq> S"
proof -
  define n where "n = length c"
  from assms(2) obtain i where i: "i < n" "c ! i = x" by (auto simp: in_set_conv_nth n_def)
  have step: "c ! ((i + k) mod n) \<in> S" for k
  proof (induction k)
    case (Suc k)
    have "nxt (c ! ((i + k) mod n)) = Some (c ! (Suc ((i + k) mod n) mod n))"
      using assms(1) i(1) by (simp add: wait_cycle_def n_def)
    then show ?case using Suc assms(4) by (simp add: mod_Suc_eq)
  qed (use i assms(3) in simp)
  show ?thesis
  proof
    fix y assume "y \<in> set c"
    then obtain j where j: "j < n" "c ! j = y" by (auto simp: in_set_conv_nth n_def)
    then show "y \<in> S" using step[of "n + j - i"] i(1) by simp
  qed
qed

lemma wait_cycles_meet:
  assumes "wait_cycle nxt c" "wait_cycle nxt c'" "x \<in> set c" "x \<in> set c'"
  shows "set c = set c'"
proof
  show "set c \<subseteq> set c'" by (rule wait_cycle_reaches[OF assms(1,3,4)]) (use wait_cycle_next[OF assms(2)] in fastforce)
  show "set c' \<subseteq> set c" by (rule wait_cycle_reaches[OF assms(2,4,3)]) (use wait_cycle_next[OF assms(1)] in fastforce)
qed

lemma wait_cycle_pred:
  "\<lbrakk>wait_cycle nxt c; u \<in> set c; nxt u = Some w; wait_cycle nxt c'; w \<in> set c'\<rbrakk> \<Longrightarrow> u \<in> set c'"
  using wait_cycle_next wait_cycles_meet by fastforce

lemma closed_walk_cycle:
  assumes "(\<lambda>a b. nxt a = Some b)\<^sup>+\<^sup>+ t t"
  shows "\<exists>c. wait_cycle nxt c \<and> t \<in> set c"
proof -
  define f where "f = (\<lambda>x. the (nxt x))"
  have walk: "(\<lambda>a b. nxt a = Some b)\<^sup>+\<^sup>+ a b \<Longrightarrow> \<exists>n > 0. (f ^^ n) a = b \<and> (\<forall>k < n. nxt ((f ^^ k) a) = Some ((f ^^ Suc k) a))" for a b
  proof (induction rule: tranclp_induct)
    case (base y)
    then show ?case by (intro exI[of _ 1]) (simp add: f_def)
  next
    case (step y z)
    then obtain n where n: "n > 0" "(f ^^ n) a = y" "\<forall>k < n. nxt ((f ^^ k) a) = Some ((f ^^ Suc k) a)" by blast
    then show ?case using step(2) by (intro exI[of _ "Suc n"]) (auto simp: less_Suc_eq f_def)
  qed
  define P where "P = (\<lambda>n. n > 0 \<and> (f ^^ n) t = t \<and> (\<forall>k < n. nxt ((f ^^ k) t) = Some ((f ^^ Suc k) t)))"
  define n where "n = (LEAST n. P n)"
  have "\<exists>n. P n" using walk[OF assms] by (auto simp: P_def)
  then have n: "P n" unfolding n_def by (rule LeastI_ex)
  have least: "\<not> P m" if "m < n" for m using that unfolding n_def by (rule not_less_Least)
  define c where "c = map (\<lambda>k. (f ^^ k) t) [0 ..< n]"
  have "distinct c"
  proof (rule ccontr)
    assume "\<not> distinct c"
    then obtain i j where ij: "i < j" "j < n" "(f ^^ i) t = (f ^^ j) t"
      by (auto simp: c_def distinct_conv_nth) (metis nat_neq_iff)
    have "(f ^^ (n - j + i)) t = (f ^^ (n - j)) ((f ^^ j) t)" by (simp only: funpow_add comp_apply ij)
    also have "\<dots> = (f ^^ (n - j + j)) t" by (simp only: funpow_add comp_apply)
    also have "\<dots> = (f ^^ n) t" using ij by simp
    finally have "P (n - j + i)" using n ij by (auto simp: P_def)
    moreover have "n - j + i < n" using ij by linarith
    ultimately show False using least by blast
  qed
  moreover have "nxt (c ! i) = Some (c ! (Suc i mod length c))" if "i < length c" for i
    using n that by (cases "Suc i = n") (auto simp: c_def P_def mod_less)
  moreover have "c \<noteq> []" "t \<in> set c" using n by (auto simp: c_def P_def intro!: image_eqI[of _ _ 0])
  ultimately show ?thesis by (auto simp: wait_cycle_def)
qed

lemma wait_cycle_closed:
  assumes "wait_cycle nxt c" "t \<in> set c"
  shows "(\<lambda>a b. nxt a = Some b)\<^sup>+\<^sup>+ t t"
proof -
  let ?R = "\<lambda>a b. nxt a = Some b"
  obtain w where w: "w \<in> set c" "nxt t = Some w" using wait_cycle_next[OF assms] by blast
  have "set c \<subseteq> {x. ?R\<^sup>+\<^sup>+ t x}"
    by (rule wait_cycle_reaches[OF assms(1) w(1)]) (use w(2) in \<open>auto intro: tranclp.trancl_into_trancl\<close>)
  then show ?thesis using assms(2) by auto
qed

lemma circular_wait_iff: "(waits_for d)\<^sup>+\<^sup>+ t t \<longleftrightarrow> (\<exists>c. wait_cycle (waits_next d) c \<and> t \<in> set c)"
proof -
  have eq: "(\<lambda>a b. waits_next d a = Some b) = waits_for d" by (intro ext) (simp add: waits_next_iff)
  show ?thesis using closed_walk_cycle[of "waits_next d" t] wait_cycle_closed[of "waits_next d" _ t] unfolding eq by blast
qed

section \<open>The search is exact\<close>

definition path_ok :: "(string \<rightharpoonup> string) \<Rightarrow> dfs_state \<Rightarrow> bool" where
  "path_ok nxt st \<longleftrightarrow> distinct (fs_path st) \<and> set (fs_path st) \<subseteq> fs_visited st \<and> fs_recStack st = set (fs_path st) \<and>
     (\<forall>i. Suc i < length (fs_path st) \<longrightarrow> nxt (fs_path st ! i) = Some (fs_path st ! Suc i))"

text \<open>
  The nodes that were left have visited successors, the reported cycles are genuine and pairwise disjoint,
  and every node that was left and lies on a cycle is reported.
\<close>

definition left_ok :: "(string \<rightharpoonup> string) \<Rightarrow> string set \<Rightarrow> string list set \<Rightarrow> string \<Rightarrow> bool" where
  "left_ok nxt vis cycles v \<longleftrightarrow> (\<forall>w. nxt v = Some w \<longrightarrow> w \<in> vis) \<and>
     (\<forall>c. wait_cycle nxt c \<and> v \<in> set c \<longrightarrow> (\<exists>c' \<in> cycles. v \<in> set c'))"

definition found_ok :: "(string \<rightharpoonup> string) \<Rightarrow> dfs_state \<Rightarrow> bool" where
  "found_ok nxt st \<longleftrightarrow>
     (\<forall>c \<in> set (fs_cycles st). wait_cycle nxt c \<and> set c \<subseteq> fs_visited st) \<and>
     sorted_wrt (\<lambda>c c'. set c \<inter> set c' = {}) (fs_cycles st) \<and>
     (\<forall>v \<in> fs_visited st - set (fs_path st). left_ok nxt (fs_visited st) (set (fs_cycles st)) v)"

lemma left_ok_mono: "left_ok nxt vis cycles v \<Longrightarrow> vis \<subseteq> vis' \<Longrightarrow> cycles \<subseteq> cycles' \<Longrightarrow> left_ok nxt vis' cycles' v"
  unfolding left_ok_def by blast

definition off_path :: "dfs_state \<Rightarrow> bool" where
  "off_path st \<longleftrightarrow> (\<forall>c \<in> set (fs_cycles st). set c \<inter> set (fs_path st) = {})"

lemma path_ok_enter:
  assumes "path_ok nxt st" "u \<notin> fs_visited st" "fs_path st = [] \<or> nxt (last (fs_path st)) = Some u"
  shows "path_ok nxt (enter u st)"
proof -
  have "nxt ((fs_path st @ [u]) ! i) = Some ((fs_path st @ [u]) ! Suc i)" if "Suc i < Suc (length (fs_path st))" for i
  proof (cases "Suc i < length (fs_path st)")
    case True
    then show ?thesis using assms(1) by (simp add: path_ok_def nth_append)
  next
    case False
    then have "Suc i = length (fs_path st)" "fs_path st \<noteq> []" using that by auto
    then show ?thesis using assms(3) by (auto simp: nth_append last_conv_nth simp flip: \<open>Suc i = length (fs_path st)\<close>)
  qed
  then show ?thesis using assms(1,2) by (auto simp: path_ok_def enter_def)
qed

lemma found_ok_enter: "\<lbrakk>found_ok nxt st; u \<notin> fs_visited st; path_ok nxt st\<rbrakk> \<Longrightarrow> found_ok nxt (enter u st)"
  unfolding found_ok_def enter_def path_ok_def by (auto intro: left_ok_mono)

lemma off_path_enter: "\<lbrakk>off_path st; found_ok nxt st; u \<notin> fs_visited st\<rbrakk> \<Longrightarrow> off_path (enter u st)"
  unfolding found_ok_def enter_def off_path_def by auto

text \<open>\<open>u\<close> is left once its successor has been visited and, if \<open>u\<close> lies on a cycle, a reported cycle contains it.\<close>

lemma found_ok_leave:
  assumes "found_ok nxt st" "fs_path st = p @ [u]" "\<And>w. nxt u = Some w \<Longrightarrow> w \<in> fs_visited st"
    "\<And>c. wait_cycle nxt c \<Longrightarrow> u \<in> set c \<Longrightarrow> \<exists>c' \<in> set (fs_cycles st). u \<in> set c'"
  shows "found_ok nxt (leave u st)"
proof -
  have "left_ok nxt (fs_visited st) (set (fs_cycles st)) u" unfolding left_ok_def using assms(3,4) by blast
  then show ?thesis using assms(1,2) by (auto simp: found_ok_def leave_def)
qed

lemma path_ok_leave:
  assumes "path_ok nxt st" "fs_path st = p @ [u]"
  shows "path_ok nxt (leave u st)"
proof -
  have "nxt (p ! i) = Some (p ! Suc i)" if "Suc i < length p" for i
    using assms that by (auto simp: path_ok_def nth_append elim!: allE[of _ i])
  then show ?thesis using assms by (auto simp: path_ok_def leave_def)
qed

lemma add_cycle_genuine:
  assumes "path_ok nxt st" "fs_path st = p @ [u]" "nxt u = Some w" "w \<in> set (fs_path st)"
  shows "wait_cycle nxt (dropWhile (\<lambda>node. node \<noteq> w) (fs_path st)) \<and> u \<in> set (dropWhile (\<lambda>node. node \<noteq> w) (fs_path st))"
proof -
  obtain a b where ab: "fs_path st = a @ w # b" "w \<notin> set a" using assms(4) by (meson split_list_first)
  then have dw: "dropWhile (\<lambda>node. node \<noteq> w) (fs_path st) = w # b" by (auto simp: dropWhile_append)
  have lst: "last (w # b) = u" using assms(2) ab(1) by (metis last_appendR last_snoc list.distinct(1))
  have "nxt ((w # b) ! i) = Some ((w # b) ! (Suc i mod length (w # b)))" if i: "i < length (w # b)" for i
  proof (cases "Suc i < length (w # b)")
    case True
    then have "nxt (fs_path st ! (length a + i)) = Some (fs_path st ! Suc (length a + i))"
      using assms(1) ab(1) unfolding path_ok_def by (elim conjE allE[of _ "length a + i"]) simp
    then show ?thesis using True ab(1) by (simp add: nth_append)
  next
    case False
    then have e: "Suc i = length (w # b)" using i by simp
    then have "(w # b) ! i = u" using lst by (metis diff_Suc_1 last_conv_nth list.distinct(1))
    then show ?thesis using e assms(3) by (simp only: mod_self nth_Cons_0)
  qed
  moreover have "distinct (w # b)" using assms(1) ab(1) by (simp add: path_ok_def)
  moreover have "u \<in> set (w # b)" using lst by (metis last_in_set list.distinct(1))
  ultimately show ?thesis by (simp add: dw wait_cycle_def)
qed

lemma found_ok_add_cycle:
  assumes "found_ok nxt st" "path_ok nxt st" "off_path st" "fs_path st = p @ [u]" "nxt u = Some w" "w \<in> set (fs_path st)"
  shows "found_ok nxt (add_cycle w st)"
proof -
  let ?c = "dropWhile (\<lambda>node. node \<noteq> w) (fs_path st)"
  have sub: "set ?c \<subseteq> set (fs_path st)" by (simp add: set_dropWhileD subsetI)
  have "wait_cycle nxt ?c" using add_cycle_genuine[OF assms(2,4,5,6)] by blast
  moreover have "\<forall>c \<in> set (fs_cycles st). set c \<inter> set ?c = {}" using assms(3) sub unfolding off_path_def by blast
  moreover have "set ?c \<subseteq> fs_visited st" using sub assms(2) unfolding path_ok_def by blast
  ultimately show ?thesis
    using assms(1) unfolding found_ok_def add_cycle_def
    by (auto simp: assms(6) sorted_wrt_append intro: left_ok_mono)
qed

lemma path_ok_add_cycle: "path_ok nxt (add_cycle w st) \<longleftrightarrow> path_ok nxt st"
  by (simp add: path_ok_def add_cycle_def)

lemma path_length:
  assumes "path_ok nxt st" "fs_path st = [] \<or> nxt (last (fs_path st)) = Some u" "finite (dom nxt)"
  shows "length (fs_path st) \<le> card (dom nxt)"
proof -
  have "x \<in> dom nxt" if x: "x \<in> set (fs_path st)" for x
  proof -
    obtain i where i: "i < length (fs_path st)" "x = fs_path st ! i" using x by (auto simp: in_set_conv_nth)
    show ?thesis
    proof (cases "Suc i < length (fs_path st)")
      case True
      then show ?thesis using assms(1) i by (auto simp: path_ok_def)
    next
      case False
      then have "x = last (fs_path st)" using i by (metis Suc_lessI diff_Suc_1 last_conv_nth list.size(3) not_less_zero)
      then show ?thesis using assms(2) i by auto
    qed
  qed
  then show ?thesis using assms(1,3) by (metis card_mono distinct_card path_ok_def subsetI)
qed

lemma dfs_exact:
  assumes "\<forall>u. children wfg u = (case nxt u of None \<Rightarrow> [] | Some v \<Rightarrow> [v])" "finite (dom nxt)"
    and "path_ok nxt st" "found_ok nxt st" "off_path st" "u \<notin> fs_visited st"
    and "fs_path st = [] \<or> nxt (last (fs_path st)) = Some u" "Suc (card (dom nxt)) \<le> n + length (fs_path st)"
  shows "\<exists>st'. dfs n wfg u st = Some st' \<and> path_ok nxt st' \<and> found_ok nxt st' \<and> fs_path st' = fs_path st \<and>
    insert u (fs_visited st) \<subseteq> fs_visited st'"
  using assms(3-)
proof (induction n arbitrary: u st)
  case 0
  then show ?case using path_length[OF 0(1,5) assms(2)] by simp
next
  case (Suc n)
  define st1 where "st1 = enter u st"
  have p1: "path_ok nxt st1" and f1: "found_ok nxt st1" and o1: "off_path st1"
    using path_ok_enter[OF Suc.prems(1,4,5)] found_ok_enter[OF Suc.prems(2,4,1)] off_path_enter[OF Suc.prems(3,2,4)] by (simp_all add: st1_def)
  have path1: "fs_path st1 = fs_path st @ [u]" and vis1: "fs_visited st1 = insert u (fs_visited st)" by (simp_all add: st1_def enter_def)
  have leave: "\<exists>st'. Some (leave u st2) = Some st' \<and> path_ok nxt st' \<and> found_ok nxt st' \<and> fs_path st' = fs_path st \<and>
      insert u (fs_visited st) \<subseteq> fs_visited st'"
    if "path_ok nxt st2" "found_ok nxt st2" "fs_path st2 = fs_path st @ [u]" "fs_visited st1 \<subseteq> fs_visited st2"
      "\<And>w. nxt u = Some w \<Longrightarrow> w \<in> fs_visited st2"
      "\<And>c. wait_cycle nxt c \<Longrightarrow> u \<in> set c \<Longrightarrow> \<exists>c' \<in> set (fs_cycles st2). u \<in> set c'" for st2
    using path_ok_leave[OF that(1,3)] found_ok_leave[OF that(2,3,5,6)] that(3,4) vis1 by (simp add: leave_def)
  show ?case
  proof (cases "nxt u")
    case None
    have "\<exists>c' \<in> set (fs_cycles st1). u \<in> set c'" if "wait_cycle nxt c" "u \<in> set c" for c
      using wait_cycle_next[OF that] None by simp
    then show ?thesis using leave[OF p1 f1 path1] None by (simp add: assms(1) st1_def)
  next
    case (Some w)
    consider "w \<notin> fs_visited st1" | "w \<in> set (fs_path st1)" | "w \<in> fs_visited st1" "w \<notin> set (fs_path st1)" by blast
    then show ?thesis
    proof cases
      case 1
      then obtain st2 where st2: "dfs n wfg w st1 = Some st2" "path_ok nxt st2" "found_ok nxt st2" "fs_path st2 = fs_path st1"
          "insert w (fs_visited st1) \<subseteq> fs_visited st2"
        using Suc.IH[OF p1 f1 o1 1] Some Suc.prems(6) path1 by auto
      have "w \<notin> set (fs_path st2)" using 1 p1 st2(4) by (auto simp: path_ok_def)
      then have w: "wait_cycle nxt c \<Longrightarrow> w \<in> set c \<Longrightarrow> \<exists>c' \<in> set (fs_cycles st2). w \<in> set c'" for c
        using st2(3,5) by (auto simp: found_ok_def left_ok_def)
      have "\<exists>c' \<in> set (fs_cycles st2). u \<in> set c'" if c: "wait_cycle nxt c" "u \<in> set c" for c
      proof -
        have "w \<in> set c" using wait_cycle_next[OF c] Some by simp
        then obtain c' where c': "c' \<in> set (fs_cycles st2)" "w \<in> set c'" using w c(1) by blast
        moreover have "wait_cycle nxt c'" using c'(1) st2(3) by (auto simp: found_ok_def)
        ultimately show ?thesis using wait_cycle_pred[OF c Some] by blast
      qed
      then show ?thesis using leave[OF st2(2,3)] st2 path1 Some 1 by (simp add: assms(1) st1_def)
    next
      case 2
      let ?st2 = "add_cycle w st1"
      have r: "w \<in> fs_visited st1" "w \<in> fs_recStack st1" using 2 p1 by (auto simp: path_ok_def)
      have g: "\<exists>c' \<in> set (fs_cycles ?st2). u \<in> set c'"
        using add_cycle_genuine[OF p1 path1 Some 2] 2 by (simp add: add_cycle_def)
      have "path_ok nxt ?st2" "found_ok nxt ?st2" "fs_path ?st2 = fs_path st @ [u]" "fs_visited ?st2 = fs_visited st1"
        using p1 found_ok_add_cycle[OF f1 p1 o1 path1 Some 2] path1 by (simp_all add: path_ok_add_cycle) (simp_all add: add_cycle_def)
      then show ?thesis using leave[of ?st2] g r Some by (simp add: assms(1) st1_def)
    next
      case 3
      have r: "w \<notin> fs_recStack st1" using 3 p1 by (auto simp: path_ok_def)
      have "\<exists>c' \<in> set (fs_cycles st1). u \<in> set c'" if c: "wait_cycle nxt c" "u \<in> set c" for c
      proof -
        have "w \<in> set c" using wait_cycle_next[OF c] Some by simp
        then obtain c' where c': "c' \<in> set (fs_cycles st1)" "w \<in> set c'" using c(1) 3 f1 by (auto simp: found_ok_def left_ok_def)
        moreover have "wait_cycle nxt c'" using c'(1) f1 by (auto simp: found_ok_def)
        ultimately show ?thesis using wait_cycle_pred[OF c Some] by blast
      qed
      then show ?thesis using leave[OF p1 f1 path1] r 3 Some by (simp add: assms(1) st1_def)
    qed
  qed
qed

lemma for_each_dfs:
  assumes "\<forall>u. children wfg u = (case nxt u of None \<Rightarrow> [] | Some v \<Rightarrow> [v])" "finite (dom nxt)" "card (dom nxt) \<le> n"
    and "path_ok nxt st" "found_ok nxt st" "fs_path st = []"
  shows "\<exists>st'. for_each (\<lambda>u st. if u \<notin> fs_visited st then dfs (Suc n) wfg u st else Some st) us st = Some st' \<and>
    path_ok nxt st' \<and> found_ok nxt st' \<and> fs_path st' = [] \<and> set us \<union> fs_visited st \<subseteq> fs_visited st'"
  using assms(4-)
proof (induction us arbitrary: st)
  case (Cons u us)
  show ?case
  proof (cases "u \<in> fs_visited st")
    case True
    then show ?thesis using Cons.IH[OF Cons.prems] by auto
  next
    case False
    have "off_path st" using Cons.prems(3) by (simp add: off_path_def)
    then obtain st1 where st1: "dfs (Suc n) wfg u st = Some st1" "path_ok nxt st1" "found_ok nxt st1" "fs_path st1 = []"
        "insert u (fs_visited st) \<subseteq> fs_visited st1"
      using dfs_exact[OF assms(1,2) Cons.prems(1,2) _ False, of "Suc n"] Cons.prems(3) assms(3) by (auto simp del: dfs.simps)
    then show ?thesis using Cons.IH[OF st1(2,3,4)] False by (auto simp del: dfs.simps)
  qed
qed simp

lemma DetectDeadlocks_cycles:
  assumes "enumerates ks (BuildWaitForGraph d)"
  shows "\<exists>cycles. DetectDeadlocks ks d = Some cycles \<and> (\<forall>c \<in> set cycles. wait_cycle (waits_next d) c) \<and>
    sorted_wrt (\<lambda>c c'. set c \<inter> set c' = {}) cycles \<and>
    (\<forall>c. wait_cycle (waits_next d) c \<longrightarrow> (\<forall>v \<in> set c. \<exists>c' \<in> set cycles. v \<in> set c'))"
proof -
  let ?nxt = "waits_next d" and ?st = "\<lparr>fs_visited = {}, fs_recStack = {}, fs_path = [], fs_cycles = []\<rparr> :: dfs_state"
  have dom: "dom ?nxt = set ks" "distinct ks" using assms by (auto simp: dom_waits_next enumerates_def)
  then have fin: "finite (dom ?nxt)" and card: "card (dom ?nxt) \<le> length ks" by (simp_all add: card_length)
  have ch: "\<forall>u. children (BuildWaitForGraph d) u = (case ?nxt u of None \<Rightarrow> [] | Some v \<Rightarrow> [v])" by (simp add: children_waits_next)
  have init: "path_ok ?nxt ?st" "found_ok ?nxt ?st" "fs_path ?st = []" by (simp_all add: path_ok_def found_ok_def)
  obtain st where st: "for_each (\<lambda>u st. if u \<notin> fs_visited st then dfs (Suc (length ks)) (BuildWaitForGraph d) u st else Some st) ks ?st = Some st"
    "found_ok ?nxt st" "fs_path st = []" "set ks \<subseteq> fs_visited st"
    using for_each_dfs[OF ch fin card init, of ks] by auto
  have "\<exists>c' \<in> set (fs_cycles st). v \<in> set c'" if "wait_cycle ?nxt c" "v \<in> set c" for c v
  proof -
    have "v \<in> set ks" using wait_cycle_next[OF that] dom by auto
    then show ?thesis using st(2,3,4) that by (auto simp: found_ok_def left_ok_def)
  qed
  then show ?thesis using st(1,2) by (auto simp: DetectDeadlocks_def Let_def found_ok_def)
qed

section \<open>Resolution breaks every circular wait\<close>

text \<open>What \<open>sort.Slice\<close> promises: a permutation, in order when the comparison is a strict weak order.\<close>

definition strict_weak :: "('a \<Rightarrow> 'a \<Rightarrow> bool) \<Rightarrow> bool" where
  "strict_weak lt \<longleftrightarrow> (\<forall>a b. lt a b \<longrightarrow> \<not> lt b a) \<and> (\<forall>a b c. \<not> lt a b \<longrightarrow> \<not> lt b c \<longrightarrow> \<not> lt a c)"

definition sorts :: "sort_Slice \<Rightarrow> bool" where
  "sorts srt \<longleftrightarrow> (\<forall>lt xs. mset (srt lt xs) = mset xs \<and> (strict_weak lt \<longrightarrow> sorted_wrt (\<lambda>a b. \<not> lt b a) (srt lt xs)))"

lemma sorts_min:
  assumes "sorts srt" "strict_weak lt" "xs \<noteq> []" "x \<in> set xs"
  shows "\<not> lt x (hd (srt lt xs))"
proof -
  have m: "mset (srt lt xs) = mset xs" and s: "sorted_wrt (\<lambda>a b. \<not> lt b a) (srt lt xs)"
    using assms(1,2) by (auto simp: sorts_def)
  then obtain y ys where ys: "srt lt xs = y # ys" using assms(3) by (cases "srt lt xs") auto
  have "x \<in> set (y # ys)" using mset_eq_setD[OF m] assms(4) by (simp add: ys)
  moreover have "\<not> lt y y" using assms(2) unfolding strict_weak_def by blast
  moreover have "\<forall>b \<in> set ys. \<not> lt b y" using s by (simp add: ys)
  ultimately show ?thesis by (auto simp: ys)
qed

lemma sorts_hd:
  assumes "sorts srt" "xs \<noteq> []"
  shows "hd (srt lt xs) \<in> set xs"
proof -
  have "set (srt lt xs) = set xs" by (rule mset_eq_setD) (use assms(1) in \<open>simp add: sorts_def\<close>)
  then show ?thesis using hd_in_set[of "srt lt xs"] assms(2) by (cases "srt lt xs") auto
qed

lemma victim_less_weak: "victim_less policy = Some lt \<Longrightarrow> strict_weak lt"
  by (cases policy) (auto simp: victim_less_def strict_weak_def split: if_splits)

text \<open>A victim belongs to its cycle, and the policy prefers no other task of the cycle.\<close>

definition chosen_victim :: "VictimPolicy \<Rightarrow> Detector \<Rightarrow> string \<Rightarrow> string list \<Rightarrow> bool" where
  "chosen_victim policy d v c \<longleftrightarrow> v \<in> set c \<and>
     (case victim_less policy of None \<Rightarrow> True | Some lt \<Rightarrow> \<forall>w \<in> set c. \<not> lt (the (dt_tasks d w)) (the (dt_tasks d v)))"

definition det_ok :: "Detector \<Rightarrow> bool" where
  "det_ok d \<longleftrightarrow> (\<forall>k t. dt_tasks d k = Some t \<longrightarrow> ti_ID t = k \<and> k \<noteq> '''')"

lemma SelectVictim_chosen:
  assumes "sorts srt" "det_ok d" "c \<noteq> []" "set c \<subseteq> dom (dt_tasks d)"
  shows "\<exists>v. SelectVictim srt c policy d = Inr v \<and> v \<noteq> '''' \<and> chosen_victim policy d v c"
proof -
  define cs where "cs = List.map_filter (dt_tasks d) c"
  define t where "t = hd (case victim_less policy of None \<Rightarrow> cs | Some lt \<Rightarrow> srt lt cs)"
  have cs: "set cs = {t. \<exists>k \<in> set c. dt_tasks d k = Some t}" by (auto simp: cs_def map_filter_def) force
  have ne: "cs \<noteq> []"
  proof
    assume "cs = []"
    then show False using cs assms(3,4) by (cases c) (auto simp: dom_def)
  qed
  have "t \<in> set cs" using ne sorts_hd[OF assms(1) ne] by (auto simp: t_def split: option.split)
  then obtain k where k: "k \<in> set c" "dt_tasks d k = Some t" using cs by blast
  then have "ti_ID t = k" "k \<noteq> ''''" using assms(2) by (auto simp: det_ok_def)
  moreover have "\<not> lt (the (dt_tasks d w)) t" if lt: "victim_less policy = Some lt" and w: "w \<in> set c" for lt w
  proof -
    have "the (dt_tasks d w) \<in> set cs" using w assms(4) cs by force
    then show ?thesis using sorts_min[OF assms(1) victim_less_weak[OF lt] ne] lt by (simp add: t_def)
  qed
  ultimately show ?thesis
    using k assms(3) ne by (intro exI[of _ k]) (auto simp: SelectVictim_def chosen_victim_def cs_def[symmetric] t_def[symmetric] split: option.split)
qed

lemma UnregisterTask_parts:
  "dt_tasks (UnregisterTask v d) = (dt_tasks d)(v := None) \<and> dt_lockHolders (UnregisterTask v d) \<subseteq>\<^sub>m dt_lockHolders d"
  by (auto simp: UnregisterTask_def Let_def map_le_def split: option.splits if_splits)

lemma chosen_victim_restrict:
  assumes "dt_tasks d = (dt_tasks d0) |` (- S)" "set c \<inter> S = {}" "chosen_victim policy d v c"
  shows "chosen_victim policy d0 v c"
proof -
  have "dt_tasks d w = dt_tasks d0 w" if "w \<in> set c" for w using assms(1,2) that by (auto simp: restrict_map_def)
  then show ?thesis using assms(3) by (auto simp: chosen_victim_def split: option.splits)
qed

lemma resolve_loop_victims:
  assumes "sorts srt" "det_ok d0"
    and "sorted_wrt (\<lambda>c c'. set c \<inter> set c' = {}) cycles" "\<forall>c \<in> set cycles. c \<noteq> [] \<and> set c \<subseteq> dom (dt_tasks d0) \<and> set c \<inter> set aborted = {}"
    and "dt_tasks d = (dt_tasks d0) |` (- set aborted)" "dt_lockHolders d \<subseteq>\<^sub>m dt_lockHolders d0"
  shows "\<exists>d' victims. resolve_loop srt policy cycles aborted d = (d', aborted @ victims) \<and>
    list_all2 (chosen_victim policy d0) victims cycles \<and>
    dt_tasks d' = (dt_tasks d0) |` (- set (aborted @ victims)) \<and> dt_lockHolders d' \<subseteq>\<^sub>m dt_lockHolders d0"
  using assms(3-)
proof (induction cycles arbitrary: aborted d)
  case (Cons c cycles)
  have ok: "det_ok d" using assms(2) Cons.prems(3) by (auto simp: det_ok_def restrict_map_def split: if_splits)
  have c: "c \<noteq> []" "set c \<subseteq> dom (dt_tasks d)" "set c \<inter> set aborted = {}" using Cons.prems(2,3) by (auto simp: restrict_map_def)
  obtain v where v: "SelectVictim srt c policy d = Inr v" "v \<noteq> ''''" "chosen_victim policy d v c"
    using SelectVictim_chosen[OF assms(1) ok c(1,2)] by blast
  have vc: "v \<in> set c" using v(3) by (simp add: chosen_victim_def)
  let ?d = "UnregisterTask v d"
  have "dt_tasks ?d = (dt_tasks d0) |` (- set (aborted @ [v]))"
    using UnregisterTask_parts[of v d] Cons.prems(3) by (auto simp: restrict_map_def)
  moreover have "dt_lockHolders ?d \<subseteq>\<^sub>m dt_lockHolders d0"
    using UnregisterTask_parts[of v d] Cons.prems(4) map_le_trans by blast
  moreover have "\<forall>c' \<in> set cycles. c' \<noteq> [] \<and> set c' \<subseteq> dom (dt_tasks d0) \<and> set c' \<inter> set (aborted @ [v]) = {}"
    using Cons.prems(1,2) vc by auto
  ultimately obtain d' vs where r: "resolve_loop srt policy cycles (aborted @ [v]) ?d = (d', (aborted @ [v]) @ vs)"
      "list_all2 (chosen_victim policy d0) vs cycles" "dt_tasks d' = (dt_tasks d0) |` (- set ((aborted @ [v]) @ vs))"
      "dt_lockHolders d' \<subseteq>\<^sub>m dt_lockHolders d0"
    using Cons.IH[of "aborted @ [v]" ?d] Cons.prems(1) by auto
  have "resolve_loop srt policy (c # cycles) aborted d = (d', aborted @ v # vs)" using r(1) v c(3) by auto
  moreover have "list_all2 (chosen_victim policy d0) (v # vs) (c # cycles)"
    using r(2) chosen_victim_restrict[OF Cons.prems(3) c(3) v(3)] by simp
  ultimately show ?case using r(3,4) by (intro exI[of _ d'] exI[of _ "v # vs"]) simp
qed simp

text \<open>The detectors whose tasks were registered under non-empty identifiers.\<close>

inductive det_built :: "Detector \<Rightarrow> bool" where
  "det_built Detector_New"
| "det_built d \<Longrightarrow> ident \<noteq> '''' \<Longrightarrow> det_built (RegisterTask ident workflowID priority startedAt d)"
| "det_built d \<Longrightarrow> det_built (UnregisterTask ident d)"
| "det_built d \<Longrightarrow> det_built (fst (AcquireLock taskID lockID d))"
| "det_built d \<Longrightarrow> det_built (fst (ReleaseLock taskID lockID d))"
| "det_built d \<Longrightarrow> ResolveDeadlocks srt ks policy d = Some (d', r) \<Longrightarrow> det_built d'"

lemma resolve_loop_tasks: "resolve_loop srt policy cycles aborted d = (d', r) \<Longrightarrow> dt_tasks d' \<subseteq>\<^sub>m dt_tasks d"
proof (induction srt policy cycles aborted d rule: resolve_loop.induct)
  case (2 srt policy cyc cycles aborted d)
  have "dt_tasks (UnregisterTask v d) \<subseteq>\<^sub>m dt_tasks d" for v
    using UnregisterTask_parts[of v d] by (auto simp: map_le_def split: if_splits)
  then show ?case using 2 by (auto split: if_splits sum.splits intro: map_le_trans)
qed simp

lemma det_built_ok: "det_built d \<Longrightarrow> det_ok d"
proof (induction rule: det_built.induct)
  case (6 d srt ks policy d' r)
  then have "dt_tasks d' \<subseteq>\<^sub>m dt_tasks d"
    by (auto simp: ResolveDeadlocks_def split: option.splits prod.splits dest: resolve_loop_tasks)
  then show ?case using 6 by (auto simp: det_ok_def map_le_def dom_def)
qed (auto simp: det_ok_def Detector_New_def RegisterTask_def UnregisterTask_parts AcquireLock_def ReleaseLock_def Let_def split: option.splits if_splits)

text \<open>
  (C36) \<open>DetectDeadlocks\<close> is exact. In whatever order the map of tasks is visited, the search ends and
  reports precisely the circular waits: every list it returns is a cycle of tasks each of which waits
  for a lock that the next one holds, no task is reported twice, and a task is reported exactly when it
  waits, directly or through others, for itself.
\<close>

theorem DetectDeadlocks_exact:
  assumes "enumerates ks (BuildWaitForGraph d)"
  shows "\<exists>cycles. DetectDeadlocks ks d = Some cycles \<and> list_all (deadlock_cycle d) cycles \<and>
    sorted_wrt (\<lambda>c c'. set c \<inter> set c' = {}) cycles \<and> \<Union> (set ` set cycles) = {t. (waits_for d)\<^sup>+\<^sup>+ t t}"
proof -
  obtain cycles where cs: "DetectDeadlocks ks d = Some cycles" "\<forall>c \<in> set cycles. wait_cycle (waits_next d) c"
      "sorted_wrt (\<lambda>c c'. set c \<inter> set c' = {}) cycles"
      "\<forall>c. wait_cycle (waits_next d) c \<longrightarrow> (\<forall>v \<in> set c. \<exists>c' \<in> set cycles. v \<in> set c')"
    using DetectDeadlocks_cycles[OF assms] by (elim exE conjE)
  have "\<Union> (set ` set cycles) = {t. (waits_for d)\<^sup>+\<^sup>+ t t}"
    using cs(2,4) by (auto simp: circular_wait_iff)
  then show ?thesis using cs(1,2,3) by (auto simp: list_all_iff deadlock_cycle_iff)
qed

text \<open>
  (C37) \<open>ResolveDeadlocks\<close> breaks every deadlock at the cost of one task each: afterwards no task waits
  for itself, exactly the victims are unregistered, there is one victim for each circular wait, and the
  victim of a circular wait is one that the policy ranks lowest in it.
\<close>

theorem ResolveDeadlocks_breaks_all:
  assumes "sorts srt" "det_built d" "enumerates ks (BuildWaitForGraph d)"
  shows "\<exists>d' victims cycles. ResolveDeadlocks srt ks policy d = Some (d', victims, length cycles) \<and>
    DetectDeadlocks ks d = Some cycles \<and> list_all2 (chosen_victim policy d) victims cycles \<and>
    dt_tasks d' = (dt_tasks d) |` (- set victims) \<and> (\<forall>t. \<not> (waits_for d')\<^sup>+\<^sup>+ t t)"
proof -
  obtain cycles where cs: "DetectDeadlocks ks d = Some cycles" "\<forall>c \<in> set cycles. wait_cycle (waits_next d) c"
      "sorted_wrt (\<lambda>c c'. set c \<inter> set c' = {}) cycles"
      "\<forall>c. wait_cycle (waits_next d) c \<longrightarrow> (\<forall>v \<in> set c. \<exists>c' \<in> set cycles. v \<in> set c')"
    using DetectDeadlocks_cycles[OF assms(3)] by (elim exE conjE)
  have "c \<noteq> [] \<and> set c \<subseteq> dom (dt_tasks d) \<and> set c \<inter> set [] = {}" if "c \<in> set cycles" for c
    using cs(2) that wait_cycle_next[of "waits_next d" c] by (fastforce simp: wait_cycle_def waits_next_iff waits_for_def)
  then obtain d' victims where r: "resolve_loop srt policy cycles [] d = (d', victims)" "list_all2 (chosen_victim policy d) victims cycles"
      "dt_tasks d' = (dt_tasks d) |` (- set victims)" "dt_lockHolders d' \<subseteq>\<^sub>m dt_lockHolders d"
    using resolve_loop_victims[OF assms(1) det_built_ok[OF assms(2)] cs(3), of "[]" d policy]
    by (auto simp: restrict_map_def)
  have sub: "waits_next d a = Some b \<and> a \<notin> set victims" if "waits_next d' a = Some b" for a b
    using that r(3,4) by (auto simp: waits_next_iff waits_for_def restrict_map_def map_le_def split: if_splits) (metis domI)
  have "\<not> (waits_for d')\<^sup>+\<^sup>+ t t" for t
  proof
    assume "(waits_for d')\<^sup>+\<^sup>+ t t"
    then obtain c where c: "wait_cycle (waits_next d') c" "t \<in> set c" by (auto simp: circular_wait_iff)
    then have cd: "wait_cycle (waits_next d) c" using sub by (auto simp: wait_cycle_def)
    then obtain c' where c': "c' \<in> set cycles" "t \<in> set c'" using cs(4) c(2) by blast
    then have eqs: "set c = set c'" using wait_cycles_meet[OF cd _ c(2)] cs(2) by blast
    obtain v where "v \<in> set victims" "v \<in> set c'"
      using r(2) c'(1) by (fastforce simp: list_all2_conv_all_nth in_set_conv_nth chosen_victim_def)
    then show False using wait_cycle_next[OF c(1), of v] eqs sub by auto
  qed
  moreover have "length victims = length cycles" using r(2) by (rule list_all2_lengthD)
  ultimately show ?thesis using cs(1) r by (intro exI[of _ d'] exI[of _ victims] exI[of _ cycles]) (simp add: ResolveDeadlocks_def)
qed

section \<open>Two tasks that wait for each other\<close>

primrec insert_by :: "('a \<Rightarrow> 'a \<Rightarrow> bool) \<Rightarrow> 'a \<Rightarrow> 'a list \<Rightarrow> 'a list" where
  "insert_by lt x [] = [x]"
| "insert_by lt x (y # ys) = (if lt y x then y # insert_by lt x ys else x # y # ys)"

definition insertion_sort :: "('a \<Rightarrow> 'a \<Rightarrow> bool) \<Rightarrow> 'a list \<Rightarrow> 'a list" where
  "insertion_sort lt xs = foldr (insert_by lt) xs []"

lemma mset_insert_by: "mset (insert_by lt x ys) = add_mset x (mset ys)"
  by (induction ys) auto

lemma sorted_insert_by:
  "strict_weak lt \<Longrightarrow> sorted_wrt (\<lambda>a b. \<not> lt b a) ys \<Longrightarrow> sorted_wrt (\<lambda>a b. \<not> lt b a) (insert_by lt x ys)"
proof (induction ys)
  case (Cons y ys)
  have asym: "\<And>a b. lt a b \<Longrightarrow> \<not> lt b a" and neg: "\<And>a b c. \<not> lt a b \<Longrightarrow> \<not> lt b c \<Longrightarrow> \<not> lt a c"
    using Cons.prems(1) unfolding strict_weak_def by blast+
  have ys: "\<forall>z \<in> set ys. \<not> lt z y" using Cons.prems(2) by simp
  show ?case
  proof (cases "lt y x")
    case True
    have "set (insert_by lt x ys) = insert x (set ys)" by (metis mset_insert_by set_mset_add_mset_insert set_mset_mset)
    then show ?thesis using True Cons ys asym[OF True] by simp
  next
    case False
    then have "\<forall>z \<in> set ys. \<not> lt z x" using ys neg by blast
    then show ?thesis using False Cons.prems(2) by simp
  qed
qed simp

lemma sorts_insertion_sort: "sorts insertion_sort"
proof -
  have "mset (insertion_sort lt xs) = mset xs \<and> (strict_weak lt \<longrightarrow> sorted_wrt (\<lambda>a b. \<not> lt b a) (insertion_sort lt xs))"
    for lt :: "TaskInfo \<Rightarrow> TaskInfo \<Rightarrow> bool" and xs
    by (induction xs) (auto simp: insertion_sort_def mset_insert_by sorted_insert_by)
  then show ?thesis by (simp add: sorts_def)
qed

definition crossed :: Detector where
  "crossed = fst (AcquireLock ''b'' ''x'' (fst (AcquireLock ''a'' ''y''
     (fst (AcquireLock ''b'' ''y'' (fst (AcquireLock ''a'' ''x''
        (RegisterTask ''b'' ''w'' 1 2 (RegisterTask ''a'' ''w'' 5 1 Detector_New)))))))))"

lemmas crossed_simps = crossed_def AcquireLock_def RegisterTask_def Detector_New_def waiters_of_def

lemma crossed_built: "det_built crossed"
  unfolding crossed_def by (intro det_built.intros) simp_all

lemma crossed_graph: "BuildWaitForGraph crossed = [''a'' \<mapsto> [''b''], ''b'' \<mapsto> [''a'']]"
  by (rule ext) (simp add: crossed_simps BuildWaitForGraph_def)

lemma crossed_enum: "enumerates [''a'', ''b''] (BuildWaitForGraph crossed)"
  by (auto simp: crossed_graph enumerates_def)

lemma crossed_detected: "DetectDeadlocks [''a'', ''b''] crossed = Some [[''a'', ''b'']]"
  by (simp add: DetectDeadlocks_def crossed_graph children_def enter_def leave_def add_cycle_def)

theorem DetectDeadlocks_exact_witness:
  "DetectDeadlocks [''a'', ''b''] crossed = Some [[''a'', ''b'']] \<and> {t. (waits_for crossed)\<^sup>+\<^sup>+ t t} = {''a'', ''b''}"
  using DetectDeadlocks_exact[OF crossed_enum] by (auto simp: crossed_detected)

theorem ResolveDeadlocks_breaks_all_witness:
  "\<exists>d'. ResolveDeadlocks insertion_sort [''a'', ''b''] VictimLowestPriority crossed = Some (d', [''b''], 1) \<and>
     (\<forall>t. \<not> (waits_for d')\<^sup>+\<^sup>+ t t)"
proof -
  have "SelectVictim insertion_sort [''a'', ''b''] VictimLowestPriority crossed = Inr ''b''"
    by (simp add: SelectVictim_def Let_def map_filter_simps victim_less_def insertion_sort_def crossed_simps)
  then have "\<exists>d'. ResolveDeadlocks insertion_sort [''a'', ''b''] VictimLowestPriority crossed = Some (d', [''b''], 1)"
    by (simp add: ResolveDeadlocks_def crossed_detected)
  then show ?thesis
    using ResolveDeadlocks_breaks_all[OF sorts_insertion_sort crossed_built crossed_enum, of VictimLowestPriority] by auto
qed

end
