(* ===== verification/Graph_Mutator.thy ===== *)
theory Graph_Mutator
  imports Tempest_Prelude
begin

text \<open>
  \<open>internal/graphmutator\<close>: workflow graphs that are rewritten while they run. Nodes are kept by value:
  every operation that stores a node clones it or its dependency slice, so no two nodes of a graph share
  a slice. Orders in which Go visits a map are arguments. \<open>sort.Strings\<close> orders by bytes, as the
  lexicographic order on \<^typ>\<open>string\<close> does.
\<close>

section \<open>Nodes and graphs\<close>

datatype graph_error =
    ErrNodeNotFound string
  | ErrNodeAlreadyExists string
  | ErrCycleDetected
  | ErrDanglingEdge string string
  | ErrEmptySubDAG
  | ErrBranchCount

datatype NodeType = NodeTask | NodeApproval | NodeFanOut | NodeFanIn | NodeSubDAG | NodeOther string

record Node =
  nd_ID :: string
  nd_Type :: NodeType
  nd_Metadata :: "string \<rightharpoonup> string"
  nd_Dependencies :: "string list"

type_synonym DAG = "string \<rightharpoonup> Node"

definition Node_Clone :: "Node \<Rightarrow> Node" where
  "Node_Clone n = \<lparr>nd_ID = nd_ID n, nd_Type = nd_Type n, nd_Metadata = nd_Metadata n, nd_Dependencies = nd_Dependencies n\<rparr>"

definition DAG_New :: DAG where
  "DAG_New = Map.empty"

definition DAG_AddNode :: "Node \<Rightarrow> DAG \<Rightarrow> graph_error + DAG" where
  "DAG_AddNode n d = (if d (nd_ID n) \<noteq> None then Inl (ErrNodeAlreadyExists (nd_ID n)) else Inr (d(nd_ID n \<mapsto> Node_Clone n)))"

definition DAG_GetNode :: "string \<Rightarrow> DAG \<Rightarrow> graph_error + Node" where
  "DAG_GetNode ident d = (case d ident of None \<Rightarrow> Inl (ErrNodeNotFound ident) | Some n \<Rightarrow> Inr (Node_Clone n))"

definition map_deps :: "(string list \<Rightarrow> string list) \<Rightarrow> Node \<Rightarrow> Node" where
  "map_deps f n = n\<lparr>nd_Dependencies := f (nd_Dependencies n)\<rparr>"

definition DAG_RemoveNode :: "string \<Rightarrow> DAG \<Rightarrow> graph_error + DAG" where
  "DAG_RemoveNode ident d =
     (if d ident = None then Inl (ErrNodeNotFound ident)
      else Inr (\<lambda>k. map_option (map_deps (filter (\<lambda>dep. dep \<noteq> ident))) ((d(ident := None)) k)))"

definition DAG_AddEdge :: "string \<Rightarrow> string \<Rightarrow> DAG \<Rightarrow> graph_error + DAG" where
  "DAG_AddEdge parentID childID d =
     (if d parentID = None then Inl (ErrNodeNotFound parentID)
      else case d childID of
        None \<Rightarrow> Inl (ErrNodeNotFound childID)
      | Some child \<Rightarrow>
          (if parentID \<in> set (nd_Dependencies child) then Inr d
           else Inr (d(childID \<mapsto> map_deps (\<lambda>ds. ds @ [parentID]) child))))"

text \<open>\<open>Clone\<close> files every node under its own identifier; the last one visited wins.\<close>

definition DAG_Clone :: "string list \<Rightarrow> DAG \<Rightarrow> DAG" where
  "DAG_Clone ks d = fold (\<lambda>n cp. cp(nd_ID n \<mapsto> Node_Clone n)) (map_values ks d) DAG_New"

section \<open>Sorting and validation\<close>

text \<open>One node's dependency edges; \<open>dependents\<close> and \<open>inDegree\<close> are maps whose missing entries read as empty and zero.\<close>

fun node_edges :: "DAG \<Rightarrow> string \<Rightarrow> string list \<Rightarrow> (string \<Rightarrow> string list) \<times> (string \<Rightarrow> int) \<Rightarrow>
    graph_error + (string \<Rightarrow> string list) \<times> (string \<Rightarrow> int)" where
  "node_edges d ident [] acc = Inr acc"
| "node_edges d ident (dep # deps) (dependents, deg) =
     (if d dep = None then Inl (ErrDanglingEdge ident dep)
      else node_edges d ident deps (dependents(dep := dependents dep @ [ident]), deg(ident := deg ident + 1)))"

fun all_edges :: "DAG \<Rightarrow> string list \<Rightarrow> (string \<Rightarrow> string list) \<times> (string \<Rightarrow> int) \<Rightarrow>
    graph_error + (string \<Rightarrow> string list) \<times> (string \<Rightarrow> int)" where
  "all_edges d [] acc = Inr acc"
| "all_edges d (ident # ks) acc =
     (case d ident of
        None \<Rightarrow> all_edges d ks acc
      | Some n \<Rightarrow>
          (case node_edges d ident (nd_Dependencies n) acc of
             Inl err \<Rightarrow> Inl err
           | Inr acc' \<Rightarrow> all_edges d ks acc'))"

fun release :: "string list \<Rightarrow> (string \<Rightarrow> int) \<Rightarrow> string list \<Rightarrow> (string \<Rightarrow> int) \<times> string list" where
  "release [] deg zs = (deg, zs)"
| "release (child # cs) deg zs =
     (let deg' = deg(child := deg child - 1)
      in if deg' child = 0 then release cs deg' (sort (zs @ [child])) else release cs deg' zs)"

partial_function (option) kahn_loop :: "(string \<Rightarrow> string list) \<Rightarrow> string list \<Rightarrow> (string \<Rightarrow> int) \<Rightarrow> string list \<Rightarrow> string list option" where
  "kahn_loop dependents zs deg out =
     (case zs of
        [] \<Rightarrow> Some out
      | cur # rest \<Rightarrow>
          (case release (dependents cur) deg rest of
             (deg', zs') \<Rightarrow> kahn_loop dependents zs' deg' (out @ [cur])))"

text \<open>\<open>ks\<close> and \<open>zks\<close> are the orders of the second and of the third loop; the first one only writes zeros.\<close>

definition DAG_TopologicalSort :: "string list \<Rightarrow> string list \<Rightarrow> DAG \<Rightarrow> (graph_error + string list) option" where
  "DAG_TopologicalSort ks zks d =
     (case all_edges d ks (\<lambda>_. [], \<lambda>_. 0) of
        Inl err \<Rightarrow> Some (Inl err)
      | Inr (dependents, deg) \<Rightarrow>
          (case kahn_loop dependents (sort (filter (\<lambda>k. deg k = 0) zks)) deg [] of
             None \<Rightarrow> None
           | Some order \<Rightarrow> Some (if length order \<noteq> length ks then Inl ErrCycleDetected else Inr order)))"

definition DAG_Validate :: "string list \<Rightarrow> string list \<Rightarrow> DAG \<Rightarrow> graph_error option option" where
  "DAG_Validate ks zks d =
     (case DAG_TopologicalSort ks zks d of None \<Rightarrow> None | Some (Inl err) \<Rightarrow> Some (Some err) | Some (Inr _) \<Rightarrow> Some None)"

section \<open>Mutations\<close>

text \<open>
  \<open>validate\<close> is the call of \<open>Validate\<close> on the changed graph, for the orders in which it visits the maps;
  \<open>None\<close> would be a call that does not return.
\<close>

type_synonym validate = "DAG \<Rightarrow> graph_error option option"

definition InjectBefore :: "validate \<Rightarrow> string \<Rightarrow> Node \<Rightarrow> DAG \<Rightarrow> (DAG \<times> graph_error option) option" where
  "InjectBefore validate targetID newNode d =
     (case d targetID of
        None \<Rightarrow> Some (d, Some (ErrNodeNotFound targetID))
      | Some target \<Rightarrow>
          (if d (nd_ID newNode) \<noteq> None then Some (d, Some (ErrNodeAlreadyExists (nd_ID newNode)))
           else let origDeps = nd_Dependencies target;
                    n = (Node_Clone newNode)\<lparr>nd_Dependencies := origDeps\<rparr>;
                    d1 = d(nd_ID n \<mapsto> n);
                    d2 = d1(targetID \<mapsto> target\<lparr>nd_Dependencies := [nd_ID n]\<rparr>)
                in case validate d2 of
                     None \<Rightarrow> None
                   | Some None \<Rightarrow> Some (d2, None)
                   | Some (Some err) \<Rightarrow>
                       Some ((d2(nd_ID n := None))(targetID \<mapsto> target\<lparr>nd_Dependencies := origDeps\<rparr>), Some err)))"

definition rename_dep :: "string \<Rightarrow> string \<Rightarrow> Node \<Rightarrow> Node" where
  "rename_dep a b = map_deps (map (\<lambda>dep. if dep = a then b else dep))"

text \<open>The new node and the rewired downstream nodes.\<close>

definition after_graph :: "string \<Rightarrow> Node \<Rightarrow> DAG \<Rightarrow> DAG" where
  "after_graph targetID newNode d =
     (let n = (Node_Clone newNode)\<lparr>nd_Dependencies := [targetID]\<rparr>;
          d1 = d(nd_ID n \<mapsto> n)
      in (\<lambda>ident. if ident = nd_ID n \<or> ident = targetID then d1 ident
                  else map_option (rename_dep targetID (nd_ID n)) (d1 ident)))"

definition InjectAfter :: "validate \<Rightarrow> string \<Rightarrow> Node \<Rightarrow> DAG \<Rightarrow> (DAG \<times> graph_error option) option" where
  "InjectAfter validate targetID newNode d =
     (if d targetID = None then Some (d, Some (ErrNodeNotFound targetID))
      else if d (nd_ID newNode) \<noteq> None then Some (d, Some (ErrNodeAlreadyExists (nd_ID newNode)))
      else let d2 = after_graph targetID newNode d
           in case validate d2 of
                None \<Rightarrow> None
              | Some None \<Rightarrow> Some (d2, None)
              | Some (Some err) \<Rightarrow>
                  Some (\<lambda>ident. map_option (rename_dep (nd_ID newNode) targetID) ((d2(nd_ID newNode := None)) ident), Some err))"

text \<open>
  The branches are fresh nodes. On failure \<open>template\<close> is put back as the loop has left it, unless its place
  in the map had been taken by another node when the loop ran.
\<close>

definition insert_nodes :: "Node list \<Rightarrow> DAG \<Rightarrow> DAG" where
  "insert_nodes = fold (\<lambda>b d. d(nd_ID b \<mapsto> b))"

definition ExpandFanOut :: "validate \<Rightarrow> string \<Rightarrow> int \<Rightarrow> (nat \<Rightarrow> Node) \<Rightarrow> Node \<Rightarrow> DAG \<Rightarrow> (DAG \<times> graph_error option) option" where
  "ExpandFanOut validate templateID cnt branchFactory reduceNode d =
     (if cnt \<le> 0 then Some (d, Some ErrBranchCount)
      else case d templateID of
        None \<Rightarrow> Some (d, Some (ErrNodeNotFound templateID))
      | Some template \<Rightarrow>
          (let upstream = nd_Dependencies template;
               branchNodes = map (\<lambda>i. (branchFactory i)\<lparr>nd_Dependencies := upstream\<rparr>) [0 ..< nat cnt];
               branchIDs = map nd_ID branchNodes;
               red = (Node_Clone reduceNode)\<lparr>nd_Dependencies := branchIDs\<rparr>;
               d1 = (insert_nodes branchNodes d)(nd_ID red \<mapsto> red);
               rewire = (\<lambda>other. if nd_ID other = nd_ID red then other else rename_dep templateID (nd_ID red) other);
               d2 = (\<lambda>ident. map_option rewire (d1 ident));
               template' = (if templateID = nd_ID red \<or> templateID \<in> set branchIDs then template else rewire template);
               d3 = d2(templateID := None)
           in case validate d3 of
                None \<Rightarrow> None
              | Some None \<Rightarrow> Some (d3, None)
              | Some (Some err) \<Rightarrow>
                  Some ((fold (\<lambda>b d. d(nd_ID b := None)) branchNodes (d3(nd_ID red := None)))
                          (templateID \<mapsto> template'), Some err)))"

text \<open>
  \<open>sks\<close> is the order of the loops over the sub-graph. A root is a node without dependencies, an exit one
  on which no node of the sub-graph depends.
\<close>

definition InlineSubDAG :: "validate \<Rightarrow> string list \<Rightarrow> string \<Rightarrow> DAG \<Rightarrow> DAG \<Rightarrow> (DAG \<times> graph_error option) option" where
  "InlineSubDAG validate sks compositeID sub d =
     (case d compositeID of
        None \<Rightarrow> Some (d, Some (ErrNodeNotFound compositeID))
      | Some composite \<Rightarrow>
          (if sks = [] then Some (d, Some ErrEmptySubDAG)
           else let subNodes = map_values sks sub;
                    subHasOutgoing = (\<lambda>ident. \<exists>n \<in> set subNodes. ident \<in> set (nd_Dependencies n));
                    subRoots = filter (\<lambda>ident. nd_Dependencies (the (sub ident)) = []) sks;
                    subExits = filter (\<lambda>ident. \<not> subHasOutgoing ident) sks;
                    upstream = nd_Dependencies composite;
                    d1 = insert_nodes (map Node_Clone subNodes) d;
                    d2 = fold (\<lambda>rootID d. d(rootID := map_option (map_deps (\<lambda>ds. ds @ upstream)) (d rootID))) subRoots d1;
                    rewire = (\<lambda>other. if nd_ID other = compositeID then other
                                else map_deps (\<lambda>ds. concat (map (\<lambda>dep. if dep = compositeID then subExits else [dep]) ds)) other);
                    d3 = (\<lambda>ident. map_option rewire (d2 ident));
                    composite' = (if compositeID \<in> set (map nd_ID subNodes) then composite else rewire composite);
                    d4 = d3(compositeID := None)
                in case validate d4 of
                     None \<Rightarrow> None
                   | Some None \<Rightarrow> Some (d4, None)
                   | Some (Some err) \<Rightarrow> Some (d4(compositeID \<mapsto> composite'), Some err)))"

record GraphDiff =
  gd_AddedNodes :: "string list"
  gd_RemovedNodes :: "string list"
  gd_AddedEdges :: "(string \<times> string) list"
  gd_RemovedEdges :: "(string \<times> string) list"

definition DAG_Diff :: "string list \<Rightarrow> string list \<Rightarrow> DAG \<Rightarrow> DAG \<Rightarrow> GraphDiff" where
  "DAG_Diff ks oks d other =
     \<lparr>gd_AddedNodes = sort (filter (\<lambda>ident. d ident = None) oks),
      gd_RemovedNodes = sort (filter (\<lambda>ident. other ident = None) ks),
      gd_AddedEdges = [], gd_RemovedEdges = []\<rparr>"

section \<open>The order that sorting computes\<close>

definition deps :: "DAG \<Rightarrow> string \<Rightarrow> string list" where
  "deps d n = (case d n of None \<Rightarrow> [] | Some x \<Rightarrow> nd_Dependencies x)"

definition ready_nodes :: "DAG \<Rightarrow> string set \<Rightarrow> string list \<Rightarrow> string set" where
  "ready_nodes d V out = {n \<in> V. n \<notin> set out \<and> set (deps d n) \<subseteq> set out}"

text \<open>Repeatedly take the least node all of whose dependencies have been taken.\<close>

primrec least_order :: "DAG \<Rightarrow> string set \<Rightarrow> nat \<Rightarrow> string list \<Rightarrow> string list" where
  "least_order d V 0 out = out"
| "least_order d V (Suc k) out =
     (let R = ready_nodes d V out in if R = {} then out else least_order d V k (out @ [Min R]))"

lemma release_spec:
  assumes "release cs deg zs = (deg', zs')" "\<forall>n \<in> set cs. int (count_list cs n) \<le> deg n"
    "sorted zs" "distinct zs" "set zs \<inter> set cs = {}"
  shows "(\<forall>n. deg' n = deg n - int (count_list cs n)) \<and> sorted zs' \<and> distinct zs' \<and>
    set zs' = set zs \<union> {n \<in> set cs. deg n = int (count_list cs n)}"
  using assms
proof (induction cs arbitrary: deg zs)
  case (Cons c cs)
  define deg1 where "deg1 = deg(c := deg c - 1)"
  have le: "\<forall>n \<in> set cs. int (count_list cs n) \<le> deg1 n" using Cons.prems(2) by (auto simp: deg1_def)
  have c: "int (count_list cs c) + 1 \<le> deg c" using Cons.prems(2) by (auto split: if_splits)
  have set: "{n \<in> set (c # cs). deg n = int (count_list (c # cs) n)} =
      {n \<in> set cs. deg1 n = int (count_list cs n)} \<union> (if deg c = int (count_list cs c) + 1 then {c} else {})"
    by (auto simp: deg1_def split: if_splits)
  show ?case
  proof (cases "deg1 c = 0")
    case True
    then have cc: "count_list cs c = 0" "deg c = 1" using c by (auto simp: deg1_def)
    then have nc: "c \<notin> set cs" by (simp add: count_list_0_iff)
    have r: "release cs deg1 (sort (zs @ [c])) = (deg', zs')" using Cons.prems(1) True by (simp add: deg1_def)
    note ih = Cons.IH[OF r le]
    have "(\<forall>n. deg' n = deg1 n - int (count_list cs n)) \<and> sorted zs' \<and> distinct zs' \<and>
        set zs' = set (sort (zs @ [c])) \<union> {n \<in> set cs. deg1 n = int (count_list cs n)}"
      by (rule ih) (use Cons.prems(3-) nc in auto)
    then show ?thesis using cc unfolding set by (auto simp: deg1_def)
  next
    case False
    have r: "release cs deg1 zs = (deg', zs')" using Cons.prems(1) False by (simp add: deg1_def)
    have "(\<forall>n. deg' n = deg1 n - int (count_list cs n)) \<and> sorted zs' \<and> distinct zs' \<and>
        set zs' = set zs \<union> {n \<in> set cs. deg1 n = int (count_list cs n)}"
      by (rule Cons.IH[OF r le]) (use Cons.prems(3-) in auto)
    moreover have "c \<in> set cs" if "deg c = int (count_list cs c) + 1"
    proof (rule ccontr)
      assume "c \<notin> set cs"
      then have "count_list cs c = 0" by simp
      then show False using False that by (simp add: deg1_def)
    qed
    then have "insert c {n \<in> set cs. deg1 n = int (count_list cs n)} = {n \<in> set cs. deg1 n = int (count_list cs n)}"
      if "deg c = int (count_list cs c) + 1" using that by (intro insert_absorb) (simp add: deg1_def)
    moreover have "deg1 n - int (count_list cs n) = deg n - int (count_list (c # cs) n)" for n by (simp add: deg1_def)
    ultimately show ?thesis unfolding set by (cases "deg c = int (count_list cs c) + 1") simp_all
  qed
qed simp

lemma node_edges_spec:
  "case node_edges d ident ds (D, g) of
     Inl err \<Rightarrow> \<exists>dep. err = ErrDanglingEdge ident dep \<and> dep \<in> set ds \<and> d dep = None
   | Inr (D', g') \<Rightarrow> (\<forall>dep \<in> set ds. d dep \<noteq> None) \<and>
       (\<forall>p n. count_list (D' p) n = count_list (D p) n + (if n = ident then count_list ds p else 0)) \<and>
       (\<forall>n. g' n = g n + (if n = ident then int (length ds) else 0))"
proof (induction ds arbitrary: D g)
  case (Cons dep ds)
  show ?case
  proof (cases "d dep = None")
    case False
    define D1 g1 where "D1 = D(dep := D dep @ [ident])" and "g1 = g(ident := g ident + 1)"
    have D1: "count_list (D1 p) n = count_list (D p) n + (if p = dep \<and> n = ident then 1 else 0)" for p n by (simp add: D1_def)
    have g1: "g1 n = g n + (if n = ident then 1 else 0)" for n by (simp add: g1_def)
    have st: "node_edges d ident (dep # ds) (D, g) = node_edges d ident ds (D1, g1)" using False by (auto simp: D1_def g1_def)
    show ?thesis
    proof (cases "node_edges d ident ds (D1, g1)")
      case (Inl err)
      show ?thesis using Cons.IH[of D1 g1] unfolding st Inl by auto
    next
      case (Inr r)
      obtain D' g' where r: "r = (D', g')" by force
      show ?thesis using Cons.IH[of D1 g1] False unfolding st Inr r by (auto simp: D1 g1)
    qed
  qed simp
qed simp

lemma all_edges_spec:
  "distinct ks \<Longrightarrow> set ks \<subseteq> dom d \<Longrightarrow>
   case all_edges d ks (D, g) of
     Inl err \<Rightarrow> \<exists>n \<in> set ks. \<exists>dep \<in> set (deps d n). err = ErrDanglingEdge n dep \<and> d dep = None
   | Inr (D', g') \<Rightarrow> (\<forall>n \<in> set ks. \<forall>dep \<in> set (deps d n). d dep \<noteq> None) \<and>
       (\<forall>p n. count_list (D' p) n = count_list (D p) n + (if n \<in> set ks then count_list (deps d n) p else 0)) \<and>
       (\<forall>n. g' n = g n + (if n \<in> set ks then int (length (deps d n)) else 0))"
proof (induction ks arbitrary: D g)
  case (Cons k ks)
  then obtain x where x: "d k = Some x" by auto
  then have dk: "deps d k = nd_Dependencies x" by (simp add: deps_def)
  note step = node_edges_spec[where d = d and ident = k and ds = "nd_Dependencies x" and D = D and g = g]
  show ?case
  proof (cases "node_edges d k (nd_Dependencies x) (D, g)")
    case (Inl err)
    then show ?thesis using step by (auto simp: x dk)
  next
    case (Inr r)
    obtain D1 g1 where r: "r = (D1, g1)" by force
    have st: "all_edges d (k # ks) (D, g) = all_edges d ks (D1, g1)" by (simp add: x Inr r)
    have k: "k \<notin> set ks" and ks: "distinct ks" "set ks \<subseteq> dom d" using Cons.prems by auto
    have here: "\<forall>dep \<in> set (deps d k). d dep \<noteq> None"
        "\<And>p n. count_list (D1 p) n = count_list (D p) n + (if n = k then count_list (deps d k) p else 0)"
        "\<And>n. g1 n = g n + (if n = k then int (length (deps d k)) else 0)"
      using step unfolding Inr r dk by auto
    show ?thesis
    proof (cases "all_edges d ks (D1, g1)")
      case (Inl err)
      show ?thesis using Cons.IH[OF ks, of D1 g1] unfolding st Inl by auto
    next
      case (Inr r')
      obtain D' g' where r': "r' = (D', g')" by force
      show ?thesis using Cons.IH[OF ks, of D1 g1] here(1) k unfolding st Inr r' by (auto simp: here(2,3))
    qed
  qed
qed simp

text \<open>Every node of the list comes after all its dependencies.\<close>

definition topo_list :: "DAG \<Rightarrow> string list \<Rightarrow> bool" where
  "topo_list d out \<longleftrightarrow> (\<forall>i < length out. set (deps d (out ! i)) \<subseteq> set (take i out))"

lemma topo_list_snoc: "topo_list d (out @ [c]) \<longleftrightarrow> topo_list d out \<and> set (deps d c) \<subseteq> set out"
  by (auto simp: topo_list_def less_Suc_eq nth_append)

lemma topo_list_closed: "topo_list d out \<Longrightarrow> n \<in> set out \<Longrightarrow> set (deps d n) \<subseteq> set out"
  by (auto simp: topo_list_def in_set_conv_nth dest!: set_take_subset[THEN subsetD])

definition kahn_ok :: "DAG \<Rightarrow> string set \<Rightarrow> string list \<Rightarrow> string list \<Rightarrow> (string \<Rightarrow> int) \<Rightarrow> bool" where
  "kahn_ok d V out zs deg \<longleftrightarrow> distinct out \<and> set out \<subseteq> V \<and> topo_list d out \<and> sorted zs \<and> distinct zs \<and> set zs = ready_nodes d V out \<and>
     (\<forall>n \<in> V - set out. deg n = int (length (filter (\<lambda>p. p \<notin> set out) (deps d n))))"

lemma length_filter_new:
  "c \<notin> set out \<Longrightarrow> length (filter (\<lambda>p. p \<notin> set out) xs) = length (filter (\<lambda>p. p \<notin> set (out @ [c])) xs) + count_list xs c"
  by (induction xs) auto

lemma kahn_ok_step:
  assumes ok: "kahn_ok d V out (c # zs) deg" and D: "\<forall>n. count_list (D c) n = (if n \<in> V then count_list (deps d n) c else 0)"
    and rel: "release (D c) deg zs = (deg', zs')"
  shows "kahn_ok d V (out @ [c]) zs' deg'"
proof -
  have R: "insert c (set zs) = ready_nodes d V out" using ok by (simp add: kahn_ok_def)
  then have c: "c \<in> V" "c \<notin> set out" "set (deps d c) \<subseteq> set out" by (auto simp: ready_nodes_def)
  have out: "distinct out" "set out \<subseteq> V" "topo_list d out" "sorted zs" "distinct zs" "c \<notin> set zs" using ok by (auto simp: kahn_ok_def)
  define rem where "rem n = length (filter (\<lambda>p. p \<notin> set (out @ [c])) (deps d n))" for n
  have deg: "deg n = int (rem n) + int (count_list (deps d n) c)" if "n \<in> V - set out" for n
    using ok that length_filter_new[OF c(2)] by (simp add: kahn_ok_def rem_def)
  have rem0: "rem n = 0 \<longleftrightarrow> set (deps d n) \<subseteq> set (out @ [c])" for n by (auto simp: rem_def filter_empty_conv)
  have inD: "n \<in> set (D c) \<longleftrightarrow> n \<in> V \<and> c \<in> set (deps d n)" for n
    using D by (metis count_list_0_iff)
  have waiting: "n \<in> V - set out \<and> n \<notin> insert c (set zs)" if "n \<in> set (D c)" for n
    using that inD c(2) topo_list_closed[OF out(3), of n] unfolding R by (auto simp: ready_nodes_def)
  have spec: "(\<forall>n. deg' n = deg n - int (count_list (D c) n)) \<and> sorted zs' \<and> distinct zs' \<and>
      set zs' = set zs \<union> {n \<in> set (D c). deg n = int (count_list (D c) n)}"
    by (rule release_spec[OF rel]) (use out deg D waiting inD in auto)
  have "set zs' = ready_nodes d V (out @ [c])"
  proof -
    have new: "{n \<in> set (D c). deg n = int (count_list (D c) n)} = {n \<in> V - set out. c \<in> set (deps d n) \<and> rem n = 0}"
      using deg D waiting inD by auto
    have "set zs = ready_nodes d V out - {c}" using R out(6) by auto
    moreover have "n \<noteq> c" if "c \<in> set (deps d n)" for n using that c(2,3) by auto
    ultimately show ?thesis using spec unfolding new rem0 by (auto simp: ready_nodes_def)
  qed
  moreover have "deg' n = int (rem n)" if "n \<in> V - set (out @ [c])" for n using spec deg[of n] D that by auto
  ultimately show ?thesis using spec out c by (auto simp: kahn_ok_def topo_list_snoc rem_def)
qed

lemma sorted_Min: "sorted (x # xs) \<Longrightarrow> Min (set (x # xs)) = x"
  by (simp add: Min_insert2)

lemma kahn_loop_least:
  assumes "finite V" "\<forall>c n. count_list (D c) n = (if n \<in> V then count_list (deps d n) c else 0)"
  shows "kahn_ok d V out zs deg \<Longrightarrow> kahn_loop D zs deg out = Some (least_order d V (card (V - set out)) out)"
proof (induction "card (V - set out)" arbitrary: out zs deg)
  case 0
  then have "V \<subseteq> set out" using assms(1) by simp
  then have "set zs = {}" using 0(2) by (auto simp: kahn_ok_def ready_nodes_def)
  then have "zs = []" by simp
  then show ?case using 0(1)[symmetric] by (simp add: kahn_loop.simps)
next
  case (Suc k)
  show ?case
  proof (cases zs)
    case Nil
    then have "ready_nodes d V out = {}" using Suc.prems by (simp add: kahn_ok_def)
    then show ?thesis using Suc.hyps(2)[symmetric] Nil by (simp add: kahn_loop.simps)
  next
    case (Cons c rest)
    obtain deg' zs' where rel: "release (D c) deg rest = (deg', zs')" by force
    have R: "ready_nodes d V out = set (c # rest)" and so: "sorted (c # rest)" using Suc.prems Cons by (auto simp: kahn_ok_def)
    then have c: "c \<in> V - set out" and mn: "Min (ready_nodes d V out) = c" using sorted_Min[OF so] by (auto simp: ready_nodes_def)
    have "V - set (out @ [c]) = (V - set out) - {c}" by auto
    then have "k = card (V - set (out @ [c]))" using Suc.hyps(2) c assms(1) by simp
    moreover have "kahn_ok d V (out @ [c]) zs' deg'"
      by (rule kahn_ok_step[where D = D, OF Suc.prems[unfolded Cons] _ rel]) (use assms(2) in simp)
    ultimately have "kahn_loop D zs' deg' (out @ [c]) = Some (least_order d V k (out @ [c]))" using Suc.hyps(1) by simp
    then show ?thesis using R mn rel by (simp add: Cons kahn_loop.simps[of D "c # rest"] Suc.hyps(2)[symmetric] Let_def)
  qed
qed

text \<open>A graph is valid when no edge dangles and the nodes can be ranked so that every edge climbs.\<close>

definition ranked :: "DAG \<Rightarrow> bool" where
  "ranked d \<longleftrightarrow> (\<exists>r :: string \<Rightarrow> nat. \<forall>n \<in> dom d. \<forall>p \<in> set (deps d n). r p < r n)"

definition closed_graph :: "DAG \<Rightarrow> bool" where
  "closed_graph d \<longleftrightarrow> (\<forall>n \<in> dom d. set (deps d n) \<subseteq> dom d)"

lemma least_order_topo:
  "topo_list d out \<Longrightarrow> distinct out \<Longrightarrow> set out \<subseteq> V \<Longrightarrow> finite V \<Longrightarrow>
   topo_list d (least_order d V k out) \<and> distinct (least_order d V k out) \<and> set (least_order d V k out) \<subseteq> V"
proof (induction k arbitrary: out)
  case (Suc k)
  show ?case
  proof (cases "ready_nodes d V out = {}")
    case False
    then have "Min (ready_nodes d V out) \<in> ready_nodes d V out" using Suc.prems(4) by (intro Min_in) (auto simp: ready_nodes_def)
    then show ?thesis using Suc.IH[of "out @ [Min (ready_nodes d V out)]"] Suc.prems False
      by (simp add: Let_def topo_list_snoc ready_nodes_def)
  qed (use Suc.prems in \<open>simp add: Let_def\<close>)
qed simp

lemma ranked_ready:
  assumes "ranked d" "closed_graph d" "finite (dom d)" "topo_list d out" "\<not> dom d \<subseteq> set out"
  shows "ready_nodes d (dom d) out \<noteq> {}"
proof -
  obtain r :: "string \<Rightarrow> nat" where r: "\<forall>n \<in> dom d. \<forall>p \<in> set (deps d n). r p < r n" using assms(1) by (auto simp: ranked_def)
  obtain n where n: "n \<in> dom d - set out" "\<forall>m \<in> dom d - set out. r n \<le> r m"
    using assms(5) ex_has_least_nat[of "\<lambda>n. n \<in> dom d - set out" _ r] by blast
  have "set (deps d n) \<subseteq> set out"
  proof
    fix p assume p: "p \<in> set (deps d n)"
    then have "p \<in> dom d" "r p < r n" using assms(2) r n(1) by (auto simp: closed_graph_def)
    then show "p \<in> set out" using n(2) by force
  qed
  then show ?thesis using n(1) by (auto simp: ready_nodes_def)
qed

lemma least_order_full:
  assumes "ranked d" "closed_graph d" "finite (dom d)"
  shows "topo_list d out \<Longrightarrow> distinct out \<Longrightarrow> set out \<subseteq> dom d \<Longrightarrow> dom d \<subseteq> set (least_order d (dom d) (card (dom d - set out)) out)"
proof (induction "card (dom d - set out)" arbitrary: out)
  case 0
  have "dom d \<subseteq> set out" using 0(1)[symmetric] assms(3) by simp
  then show ?case by (simp only: 0(1)[symmetric] least_order.simps)
next
  case (Suc k)
  define c where "c = Min (ready_nodes d (dom d) out)"
  have ne: "ready_nodes d (dom d) out \<noteq> {}"
  proof (rule ranked_ready[OF assms Suc.prems(1)])
    have "dom d - set out \<noteq> {}" using Suc.hyps(2) by force
    then show "\<not> dom d \<subseteq> set out" by simp
  qed
  then have "c \<in> ready_nodes d (dom d) out" unfolding c_def using assms(3) by (intro Min_in) (auto simp: ready_nodes_def)
  then have c: "c \<in> dom d - set out" "set (deps d c) \<subseteq> set out" by (auto simp: ready_nodes_def)
  have "dom d - set (out @ [c]) = (dom d - set out) - {c}" by auto
  then have k: "k = card (dom d - set (out @ [c]))" using Suc.hyps(2) c(1) assms(3) by simp
  have "dom d \<subseteq> set (least_order d (dom d) k (out @ [c]))"
    unfolding k using Suc.hyps(1)[OF k] Suc.prems c by (simp add: topo_list_snoc)
  then show ?case using ne by (simp add: Suc.hyps(2)[symmetric] Let_def c_def)
qed

lemma topo_list_ranked:
  assumes "topo_list d out" "distinct out" "set out = dom d"
  shows "ranked d \<and> closed_graph d"
proof -
  have "\<exists>r :: string \<Rightarrow> nat. \<forall>i < length out. r (out ! i) = i"
    using assms(2) by (intro exI[of _ "\<lambda>p. THE i. i < length out \<and> out ! i = p"]) (auto simp: nth_eq_iff_index_eq)
  then obtain r :: "string \<Rightarrow> nat" where r: "\<forall>i < length out. r (out ! i) = i" by blast
  have "r p < r n" if n: "n \<in> dom d" and p: "p \<in> set (deps d n)" for n p
  proof -
    obtain i where i: "i < length out" "n = out ! i" using n assms(3) by (metis in_set_conv_nth)
    then have "p \<in> set (take i out)" using assms(1) p by (auto simp: topo_list_def)
    then obtain j where "j < i" "j < length out" "p = out ! j" by (auto simp: in_set_conv_nth)
    then show ?thesis using r i by simp
  qed
  then have "ranked d" unfolding ranked_def by blast
  moreover have "closed_graph d" unfolding closed_graph_def using topo_list_closed[OF assms(1)] assms(3) by simp
  ultimately show ?thesis by blast
qed

text \<open>\<open>(p, n)\<close> is an edge when node \<open>n\<close> lists \<open>p\<close> as a dependency.\<close>

definition edges :: "DAG \<Rightarrow> (string \<times> string) set" where
  "edges d = {(p, n). p \<in> set (deps d n)}"

lemma edges_dom: "(p, n) \<in> edges d \<Longrightarrow> n \<in> dom d"
  by (cases "d n") (auto simp: edges_def deps_def)

lemma edges_closed: "closed_graph d \<Longrightarrow> (p, n) \<in> edges d \<Longrightarrow> p \<in> dom d"
  using edges_dom[of p n d] unfolding closed_graph_def edges_def by blast

lemma ranked_iff_acyclic:
  assumes "finite (dom d)" "closed_graph d"
  shows "ranked d \<longleftrightarrow> acyclic (edges d)"
proof
  assume "ranked d"
  then obtain r :: "string \<Rightarrow> nat" where r: "\<forall>n \<in> dom d. \<forall>p \<in> set (deps d n). r p < r n" by (auto simp: ranked_def)
  have "(a, b) \<in> (edges d)\<^sup>+ \<Longrightarrow> r a < r b" for a b
  proof (induction rule: trancl_induct)
    case (base y)
    then show ?case using r edges_dom by (auto simp: edges_def)
  next
    case (step y z)
    then have "r y < r z" using r edges_dom by (auto simp: edges_def)
    then show ?case using step.IH by simp
  qed
  then show "acyclic (edges d)" by (auto simp: acyclic_def)
next
  assume ac: "acyclic (edges d)"
  define r where "r n = card {m. (m, n) \<in> (edges d)\<^sup>+}" for n
  have sub: "{m. (m, n) \<in> (edges d)\<^sup>+} \<subseteq> dom d" for n
  proof -
    have "(m, n) \<in> (edges d)\<^sup>+ \<Longrightarrow> m \<in> dom d" for m
      by (induction rule: trancl_induct) (use edges_closed[OF assms(2)] in blast)+
    then show ?thesis by auto
  qed
  have "r p < r n" if "p \<in> set (deps d n)" for p n
  proof -
    have e: "(p, n) \<in> edges d" using that by (simp add: edges_def)
    have "{m. (m, p) \<in> (edges d)\<^sup>+} \<subset> {m. (m, n) \<in> (edges d)\<^sup>+}"
    proof
      show "{m. (m, p) \<in> (edges d)\<^sup>+} \<subseteq> {m. (m, n) \<in> (edges d)\<^sup>+}" using e by (auto intro: trancl_into_trancl)
      have "(p, n) \<in> (edges d)\<^sup>+" "(p, p) \<notin> (edges d)\<^sup>+" using e ac by (auto simp: acyclic_def)
      then show "{m. (m, p) \<in> (edges d)\<^sup>+} \<noteq> {m. (m, n) \<in> (edges d)\<^sup>+}" by blast
    qed
    then show ?thesis unfolding r_def by (rule psubset_card_mono[OF finite_subset[OF sub assms(1)]])
  qed
  then show "ranked d" unfolding ranked_def by blast
qed

lemma TopologicalSort_run:
  assumes "enumerates ks d" "enumerates zks d"
  shows "(\<exists>n \<in> dom d. \<exists>dep \<in> set (deps d n). d dep = None \<and> DAG_TopologicalSort ks zks d = Some (Inl (ErrDanglingEdge n dep))) \<or>
    closed_graph d \<and> DAG_TopologicalSort ks zks d =
      Some (let order = least_order d (dom d) (card (dom d)) [] in if length order \<noteq> card (dom d) then Inl ErrCycleDetected else Inr order)"
proof (cases "all_edges d ks (\<lambda>_. [], \<lambda>_. 0)")
  case (Inl err)
  then show ?thesis using all_edges_spec[of ks d "\<lambda>_. []" "\<lambda>_. 0"] assms
    by (auto simp: DAG_TopologicalSort_def enumerates_def)
next
  case (Inr r)
  obtain D g where r: "r = (D, g)" by force
  have dom: "set ks = dom d" "distinct ks" "set zks = dom d" "distinct zks" using assms by (auto simp: enumerates_def)
  then have fin: "finite (dom d)" by (metis List.finite_set)
  have spec: "\<forall>n \<in> set ks. \<forall>dep \<in> set (deps d n). d dep \<noteq> None"
      "\<forall>c n. count_list (D c) n = (if n \<in> dom d then count_list (deps d n) c else 0)"
      "\<forall>n. g n = (if n \<in> dom d then int (length (deps d n)) else 0)"
    using all_edges_spec[of ks d "\<lambda>_. []" "\<lambda>_. 0"] dom unfolding Inr r by auto
  have "kahn_ok d (dom d) [] (sort (filter (\<lambda>k. g k = 0) zks)) g"
    using dom spec(3) by (auto simp: kahn_ok_def topo_list_def ready_nodes_def)
  then have "kahn_loop D (sort (filter (\<lambda>k. g k = 0) zks)) g [] = Some (least_order d (dom d) (card (dom d)) [])"
    using kahn_loop_least[OF fin spec(2)] by simp
  moreover have "length ks = card (dom d)" using dom by (metis distinct_card)
  moreover have "closed_graph d" using spec(1) dom by (auto simp: closed_graph_def)
  ultimately show ?thesis by (simp add: DAG_TopologicalSort_def Inr r Let_def)
qed

lemma least_order_length:
  assumes "finite (dom d)" "closed_graph d"
  shows "length (least_order d (dom d) (card (dom d)) []) = card (dom d) \<longleftrightarrow> ranked d"
proof -
  let ?o = "least_order d (dom d) (card (dom d)) []"
  have o: "topo_list d ?o" "distinct ?o" "set ?o \<subseteq> dom d"
    using least_order_topo[of d "[]" "dom d" "card (dom d)"] assms(1) by (auto simp: topo_list_def)
  have "set ?o = dom d" if "ranked d"
    using least_order_full[OF that assms(2,1), of "[]"] o(3) by (simp add: topo_list_def)
  moreover have "set ?o = dom d" if "length ?o = card (dom d)"
    using that o assms(1) by (metis card_subset_eq distinct_card)
  ultimately show ?thesis using topo_list_ranked[OF o(1,2)] o(2) by (metis distinct_card)
qed

text \<open>
  (C38) \<open>DAG.TopologicalSort\<close> computes one fixed order, whatever the order in which Go visits its maps:
  it returns exactly when no edge dangles and the graph has no cycle, and the result then lists every
  node once, after all its dependencies, always taking the alphabetically least node that is ready.
  Otherwise it names a dangling edge that exists, or reports a cycle that exists.
\<close>

theorem DAG_TopologicalSort_least:
  assumes "enumerates ks d" "enumerates zks d"
  shows "case DAG_TopologicalSort ks zks d of
      None \<Rightarrow> False
    | Some (Inl err) \<Rightarrow>
        (case err of
           ErrDanglingEdge n dep \<Rightarrow> n \<in> dom d \<and> dep \<in> set (deps d n) \<and> d dep = None
         | ErrCycleDetected \<Rightarrow> closed_graph d \<and> \<not> acyclic (edges d)
         | _ \<Rightarrow> False)
    | Some (Inr order) \<Rightarrow> closed_graph d \<and> acyclic (edges d) \<and> distinct order \<and> set order = dom d \<and> topo_list d order \<and>
        order = least_order d (dom d) (card (dom d)) []"
proof -
  have fin: "finite (dom d)" using assms(1) by (rule enumerates_finite)
  let ?o = "least_order d (dom d) (card (dom d)) []"
  have o: "topo_list d ?o" "distinct ?o" "set ?o \<subseteq> dom d"
    using least_order_topo[of d "[]" "dom d" "card (dom d)"] fin by (auto simp: topo_list_def)
  have "length ?o = card (dom d) \<Longrightarrow> set ?o = dom d" using o fin by (metis card_subset_eq distinct_card)
  then show ?thesis
    using TopologicalSort_run[OF assms] o least_order_length[OF fin] ranked_iff_acyclic[OF fin] by (auto simp: Let_def)
qed

section \<open>Injection\<close>

definition valid_graph :: "DAG \<Rightarrow> bool" where
  "valid_graph d \<longleftrightarrow> finite (dom d) \<and> closed_graph d \<and> acyclic (edges d)"

text \<open>\<open>v\<close> behaves as a call of \<open>Validate\<close>, in some order of visiting the maps.\<close>

definition runs_Validate :: "validate \<Rightarrow> bool" where
  "runs_Validate v \<longleftrightarrow> (\<forall>d. finite (dom d) \<longrightarrow> (\<exists>ks zks. enumerates ks d \<and> enumerates zks d \<and> v d = DAG_Validate ks zks d))"

lemma valid_graph_validates:
  assumes "runs_Validate v" "valid_graph d"
  shows "v d = Some None"
proof -
  have fin: "finite (dom d)" and cl: "closed_graph d" and ac: "acyclic (edges d)" using assms(2) by (auto simp: valid_graph_def)
  obtain ks zks where e: "enumerates ks d" "enumerates zks d" "v d = DAG_Validate ks zks d"
    using assms(1) fin unfolding runs_Validate_def by blast
  have "\<not> (\<exists>n \<in> dom d. \<exists>dep \<in> set (deps d n). d dep = None \<and> DAG_TopologicalSort ks zks d = Some (Inl (ErrDanglingEdge n dep)))"
    using cl unfolding closed_graph_def by blast
  with TopologicalSort_run[OF e(1,2)] have "DAG_TopologicalSort ks zks d =
      Some (let order = least_order d (dom d) (card (dom d)) [] in if length order \<noteq> card (dom d) then Inl ErrCycleDetected else Inr order)"
    by blast
  then have "DAG_TopologicalSort ks zks d = Some (Inr (least_order d (dom d) (card (dom d)) []))"
    using least_order_length[OF fin cl] ranked_iff_acyclic[OF fin cl] ac by (simp add: Let_def)
  then show ?thesis by (simp add: e(3) DAG_Validate_def)
qed

text \<open>\<open>a\<close> must run before \<open>b\<close>.\<close>

definition depends :: "DAG \<Rightarrow> string \<Rightarrow> string \<Rightarrow> bool" where
  "depends d a b \<longleftrightarrow> (a, b) \<in> (edges d)\<^sup>+"

text \<open>The graph that \<open>InjectBefore\<close> hands to \<open>Validate\<close>.\<close>

definition before_graph :: "string \<Rightarrow> Node \<Rightarrow> DAG \<Rightarrow> DAG" where
  "before_graph t newNode d = (d(nd_ID newNode \<mapsto> (Node_Clone newNode)\<lparr>nd_Dependencies := deps d t\<rparr>))
     (t \<mapsto> (the (d t))\<lparr>nd_Dependencies := [nd_ID newNode]\<rparr>)"

lemma InjectBefore_eq:
  assumes "t \<in> dom d" "nd_ID newNode \<notin> dom d" "v (before_graph t newNode d) = Some None"
  shows "InjectBefore v t newNode d = Some (before_graph t newNode d, None)"
proof -
  obtain y where y: "d t = Some y" and n: "d (nd_ID newNode) = None" using assms(1,2) by auto
  show ?thesis using assms(3) by (simp add: InjectBefore_def before_graph_def deps_def Let_def Node_Clone_def y n)
qed

lemma InjectAfter_eq:
  assumes "t \<in> dom d" "nd_ID newNode \<notin> dom d" "v (after_graph t newNode d) = Some None"
  shows "InjectAfter v t newNode d = Some (after_graph t newNode d, None)"
  using assms by (auto simp: InjectAfter_def Let_def)

lemma deps_before:
  "t \<in> dom d \<Longrightarrow> nd_ID newNode \<notin> dom d \<Longrightarrow>
   deps (before_graph t newNode d) k = (if k = t then [nd_ID newNode] else if k = nd_ID newNode then deps d t else deps d k)"
  by (auto simp: before_graph_def deps_def)

lemma deps_after:
  "t \<in> dom d \<Longrightarrow> nd_ID newNode \<notin> dom d \<Longrightarrow>
   deps (after_graph t newNode d) k =
     (if k = t then deps d t else if k = nd_ID newNode then [t] else map (\<lambda>p. if p = t then nd_ID newNode else p) (deps d k))"
  by (auto simp: after_graph_def Let_def Node_Clone_def deps_def rename_dep_def map_deps_def split: option.splits)

lemma dom_before: "t \<in> dom d \<Longrightarrow> dom (before_graph t newNode d) = insert (nd_ID newNode) (dom d)"
  by (auto simp: before_graph_def)

lemma dom_after: "t \<in> dom d \<Longrightarrow> dom (after_graph t newNode d) = insert (nd_ID newNode) (dom d)"
  by (auto simp: after_graph_def Let_def Node_Clone_def dom_def)

text \<open>Both graphs are simulated by the old one, with the new node standing for its target.\<close>

lemma before_path:
  assumes "closed_graph d" "t \<in> dom d" "m \<notin> dom d" "nd_ID newNode = m" "a \<in> dom d"
    and "(a, x) \<in> (edges (before_graph t newNode d))\<^sup>+"
  shows "(a, if x = m then t else x) \<in> (edges d)\<^sup>+"
  using assms(6)
proof (induction rule: trancl_induct)
  case (base y)
  then show ?case using assms deps_before[of t d newNode y] by (auto simp: edges_def split: if_splits)
next
  case (step y z)
  have nd: "nd_ID newNode \<notin> dom d" using assms(3,4) by simp
  have e: "y \<in> set (if z = t then [m] else if z = m then deps d t else deps d z)"
    using step.hyps(2) deps_before[OF assms(2) nd, of z] by (simp only: edges_def mem_Collect_eq prod.case assms(4))
  have m: "(y, w) \<in> edges d \<Longrightarrow> y \<noteq> m" for w using edges_closed[OF assms(1)] assms(3) by blast
  show ?case
  proof (cases "z = t")
    case True
    then show ?thesis using e step.IH assms(2,3) by (auto split: if_splits)
  next
    case False
    then have "(y, if z = m then t else z) \<in> edges d" using e by (auto simp: edges_def split: if_splits)
    then show ?thesis using step.IH m by (auto intro: trancl_into_trancl)
  qed
qed

lemma after_path:
  assumes "closed_graph d" "t \<in> dom d" "m \<notin> dom d" "nd_ID newNode = m" "a \<in> dom d"
    and "(a, x) \<in> (edges (after_graph t newNode d))\<^sup>+"
  shows "(a, if x = m then t else x) \<in> (edges d)\<^sup>+ \<or> a = t \<and> x = m"
  using assms(6)
proof (induction rule: trancl_induct)
  case (base y)
  have nd: "nd_ID newNode \<notin> dom d" using assms(3,4) by simp
  have e: "a \<in> set (if y = t then deps d t else if y = m then [t] else map (\<lambda>p. if p = t then m else p) (deps d y))"
    using base deps_after[OF assms(2) nd, of y] by (simp only: edges_def mem_Collect_eq prod.case assms(4))
  then show ?case using assms(2,3,5) by (auto simp: edges_def split: if_splits)
next
  case (step y z)
  have nd: "nd_ID newNode \<notin> dom d" using assms(3,4) by simp
  have e: "y \<in> set (if z = t then deps d t else if z = m then [t] else map (\<lambda>p. if p = t then m else p) (deps d z))"
    using step.hyps(2) deps_after[OF assms(2) nd, of z] by (simp only: edges_def mem_Collect_eq prod.case assms(4))
  have m: "(y, w) \<in> edges d \<Longrightarrow> y \<noteq> m" for w using edges_closed[OF assms(1)] assms(3) by blast
  consider "z = t" "(y, t) \<in> edges d" | "z = m" "y = t" | "z \<noteq> m" "y = m" "(t, z) \<in> edges d" | "z \<noteq> m" "(y, z) \<in> edges d"
    using e by (auto simp: edges_def split: if_splits)
  then show ?case
  proof cases
    case 1
    then show ?thesis using step.IH m assms(2,3) by (auto intro: trancl_into_trancl)
  next
    case 2
    then show ?thesis using step.IH assms(2,3) by auto
  next
    case 3
    then show ?thesis using step.IH by (auto intro: trancl_into_trancl)
  next
    case 4
    then show ?thesis using step.IH m by (auto intro: trancl_into_trancl)
  qed
qed

lemma before_edge:
  assumes "t \<in> dom d" "nd_ID newNode \<notin> dom d" "(p, q) \<in> edges d"
  shows "(p, q) \<in> (edges (before_graph t newNode d))\<^sup>+"
proof (cases "q = t")
  case True
  have "(p, nd_ID newNode) \<in> edges (before_graph t newNode d)" "(nd_ID newNode, t) \<in> edges (before_graph t newNode d)"
    using assms True by (auto simp: edges_def deps_before)
  then show ?thesis using True by (meson r_into_trancl' trancl_into_trancl)
next
  case False
  then show ?thesis using assms edges_dom[OF assms(3)] by (intro r_into_trancl) (auto simp: edges_def deps_before)
qed

lemma after_edge:
  assumes "t \<in> dom d" "nd_ID newNode \<notin> dom d" "(p, q) \<in> edges d"
  shows "(p, q) \<in> (edges (after_graph t newNode d))\<^sup>+"
proof (cases "p = t \<and> q \<noteq> t")
  case True
  have "(t, nd_ID newNode) \<in> edges (after_graph t newNode d)" "(nd_ID newNode, q) \<in> edges (after_graph t newNode d)"
    using assms True edges_dom[OF assms(3)] by (auto simp: edges_def deps_after)
  then show ?thesis using True by (meson r_into_trancl' trancl_into_trancl)
next
  case False
  then show ?thesis using assms edges_dom[OF assms(3)]
    by (intro r_into_trancl) (auto simp: edges_def deps_after image_iff intro!: bexI[of _ p])
qed

lemma trancl_mono_edges: "(\<And>p q. (p, q) \<in> R \<Longrightarrow> (p, q) \<in> S\<^sup>+) \<Longrightarrow> (a, b) \<in> R\<^sup>+ \<Longrightarrow> (a, b) \<in> S\<^sup>+"
  by (erule trancl_induct) (auto intro: trancl_trans)

text \<open>A graph with one more node \<open>m\<close> in which old nodes depend on each other as before is acyclic if no cycle meets only \<open>m\<close>.\<close>

lemma acyclic_extend:
  assumes "acyclic (edges d)" "dom d' = insert m (dom d)" "closed_graph d'" "m \<notin> set (deps d' m)"
    and "\<And>a. a \<in> dom d \<Longrightarrow> (a, a) \<in> (edges d')\<^sup>+ \<Longrightarrow> (a, a) \<in> (edges d)\<^sup>+"
  shows "acyclic (edges d')"
proof -
  have "(x, x) \<notin> (edges d')\<^sup>+" for x
  proof
    assume x: "(x, x) \<in> (edges d')\<^sup>+"
    obtain y where y: "(x, y) \<in> edges d'" "(y, x) \<in> (edges d')\<^sup>*" using x by (meson tranclD)
    have dom: "x \<in> dom d'" "y \<in> dom d'" using edges_closed[OF assms(3) y(1)] edges_dom[OF y(1)] by auto
    have "(y, y) \<in> (edges d')\<^sup>+" using y by (meson rtrancl_into_trancl1)
    moreover have "x \<noteq> m \<or> y \<noteq> m" using y(1) assms(4) by (auto simp: edges_def)
    ultimately have "\<exists>a \<in> dom d. (a, a) \<in> (edges d')\<^sup>+" using x dom assms(2) by auto
    then show False using assms(1,5) by (auto simp: acyclic_def)
  qed
  then show ?thesis by (auto simp: acyclic_def)
qed

lemma valid_before:
  assumes "valid_graph d" "t \<in> dom d" "nd_ID newNode \<notin> dom d"
  shows "valid_graph (before_graph t newNode d)"
proof -
  have cl: "closed_graph d" and fin: "finite (dom d)" and ac: "acyclic (edges d)" using assms(1) by (auto simp: valid_graph_def)
  let ?d = "before_graph t newNode d"
  have cl': "closed_graph ?d"
    using cl assms(2,3) dom_before[OF assms(2), of newNode] by (auto simp: closed_graph_def deps_before)
  have "acyclic (edges ?d)"
  proof (rule acyclic_extend[OF ac dom_before[OF assms(2)] cl'])
    show "nd_ID newNode \<notin> set (deps ?d (nd_ID newNode))" using cl assms(2,3) by (auto simp: deps_before closed_graph_def)
    show "(a, a) \<in> (edges d)\<^sup>+" if "a \<in> dom d" "(a, a) \<in> (edges ?d)\<^sup>+" for a
      using before_path[OF cl assms(2,3) refl that] that(1) assms(3) by (auto split: if_splits)
  qed
  then show ?thesis using cl' fin by (simp add: valid_graph_def dom_before[OF assms(2)])
qed

lemma valid_after:
  assumes "valid_graph d" "t \<in> dom d" "nd_ID newNode \<notin> dom d"
  shows "valid_graph (after_graph t newNode d)"
proof -
  have cl: "closed_graph d" and fin: "finite (dom d)" and ac: "acyclic (edges d)" using assms(1) by (auto simp: valid_graph_def)
  let ?d = "after_graph t newNode d"
  have cl': "closed_graph ?d"
    using cl assms(2,3) dom_after[OF assms(2), of newNode] by (auto simp: closed_graph_def deps_after)
  have "acyclic (edges ?d)"
  proof (rule acyclic_extend[OF ac dom_after[OF assms(2)] cl'])
    show "nd_ID newNode \<notin> set (deps ?d (nd_ID newNode))" using assms(2,3) by (auto simp: deps_after)
    show "(a, a) \<in> (edges d)\<^sup>+" if "a \<in> dom d" "(a, a) \<in> (edges ?d)\<^sup>+" for a
      using after_path[OF cl assms(2,3) refl that] that(1) assms(3) by (auto split: if_splits)
  qed
  then show ?thesis using cl' fin by (simp add: valid_graph_def dom_after[OF assms(2)])
qed

lemma depends_before:
  assumes "closed_graph d" "t \<in> dom d" "nd_ID newNode \<notin> dom d" "a \<in> dom d" "b \<in> dom d"
  shows "depends (before_graph t newNode d) a b \<longleftrightarrow> depends d a b"
  using before_path[OF assms(1-3) refl assms(4), of b] trancl_mono_edges[of "edges d" "edges (before_graph t newNode d)" a b]
    before_edge[OF assms(2,3)] assms(3,5) unfolding depends_def by (auto split: if_splits)

lemma depends_after:
  assumes "closed_graph d" "t \<in> dom d" "nd_ID newNode \<notin> dom d" "a \<in> dom d" "b \<in> dom d"
  shows "depends (after_graph t newNode d) a b \<longleftrightarrow> depends d a b"
  using after_path[OF assms(1-3) refl assms(4), of b] trancl_mono_edges[of "edges d" "edges (after_graph t newNode d)" a b]
    after_edge[OF assms(2,3)] assms(3,5) unfolding depends_def by (auto split: if_splits)

text \<open>
  (C39) Injecting a node with a new identifier next to a node of a valid graph always succeeds. The new
  graph is valid again (no dangling edge, no cycle), the old nodes depend on each other, directly or
  not, exactly as before, and the new node lies where it was asked to be: \<open>InjectBefore\<close> gives it the
  dependencies of the target, which then depends on it alone, and \<open>InjectAfter\<close> makes it depend on the
  target and puts it in the place of the target in all other nodes.
\<close>

theorem Inject_keeps_graph:
  assumes "runs_Validate v" "valid_graph d" "t \<in> dom d" "nd_ID newNode \<notin> dom d"
  shows "\<exists>d1 d2. InjectBefore v t newNode d = Some (d1, None) \<and> InjectAfter v t newNode d = Some (d2, None) \<and>
    valid_graph d1 \<and> valid_graph d2 \<and>
    (\<forall>a \<in> dom d. \<forall>b \<in> dom d. (depends d1 a b \<longleftrightarrow> depends d a b) \<and> (depends d2 a b \<longleftrightarrow> depends d a b)) \<and>
    deps d1 (nd_ID newNode) = deps d t \<and> deps d1 t = [nd_ID newNode] \<and>
    deps d2 (nd_ID newNode) = [t] \<and> (\<forall>k \<in> dom d. t \<notin> set (deps d2 k))"
proof -
  have cl: "closed_graph d" using assms(2) by (simp add: valid_graph_def)
  note vb = valid_before[OF assms(2-4)] and va = valid_after[OF assms(2-4)]
  have ntt: "t \<notin> set (deps d t)" using assms(2) by (auto simp: valid_graph_def acyclic_def edges_def)
  have nd: "nd_ID newNode \<noteq> t" using assms(3,4) by auto
  show ?thesis
  proof (intro exI conjI)
    show "InjectBefore v t newNode d = Some (before_graph t newNode d, None)"
      by (rule InjectBefore_eq[where v = v, OF assms(3,4) valid_graph_validates[OF assms(1) vb]])
    show "InjectAfter v t newNode d = Some (after_graph t newNode d, None)"
      by (rule InjectAfter_eq[where v = v, OF assms(3,4) valid_graph_validates[OF assms(1) va]])
  qed (use vb va depends_before[OF cl assms(3,4)] depends_after[OF cl assms(3,4)] ntt nd assms(3,4) in
      \<open>auto simp: deps_before deps_after split: if_splits\<close>)
qed

section \<open>Examples\<close>

lemma kahn_loop_code:
  "kahn_loop D [] deg out = Some out"
  "kahn_loop D (c # rest) deg out = kahn_loop D (snd (release (D c) deg rest)) (fst (release (D c) deg rest)) (out @ [c])"
  by (simp add: kahn_loop.simps, subst kahn_loop.simps, simp add: case_prod_beta)

definition task_node :: "string \<Rightarrow> string list \<Rightarrow> Node" where
  "task_node ident ds = \<lparr>nd_ID = ident, nd_Type = NodeTask, nd_Metadata = Map.empty, nd_Dependencies = ds\<rparr>"

definition sample_graph :: DAG where
  "sample_graph = [''u'' \<mapsto> task_node ''u'' [], ''t'' \<mapsto> task_node ''t'' [''u''], ''x'' \<mapsto> task_node ''x'' [''t'']]"

lemmas sort_simps = DAG_TopologicalSort_def kahn_loop_code Let_def sample_graph_def task_node_def

theorem DAG_TopologicalSort_least_witness:
  "DAG_TopologicalSort [''x'', ''u'', ''t''] [''t'', ''x'', ''u''] sample_graph = Some (Inr [''u'', ''t'', ''x'']) \<and>
   acyclic (edges sample_graph) \<and> topo_list sample_graph [''u'', ''t'', ''x'']"
proof -
  have e: "enumerates [''x'', ''u'', ''t''] sample_graph" "enumerates [''t'', ''x'', ''u''] sample_graph"
    by (auto simp: enumerates_def sample_graph_def)
  have r: "DAG_TopologicalSort [''x'', ''u'', ''t''] [''t'', ''x'', ''u''] sample_graph = Some (Inr [''u'', ''t'', ''x''])"
    by (simp add: sort_simps)
  show ?thesis using DAG_TopologicalSort_least[OF e] unfolding r option.case sum.case by blast
qed

definition validate_sorted :: validate where
  "validate_sorted d = (let ks = sorted_list_of_set (dom d) in DAG_Validate ks ks d)"

lemma runs_validate_sorted: "runs_Validate validate_sorted"
  unfolding runs_Validate_def validate_sorted_def Let_def enumerates_def
  by (intro allI impI exI conjI) auto

lemma sample_graph_valid: "valid_graph sample_graph"
proof -
  have "finite (dom sample_graph)" by (simp add: sample_graph_def)
  moreover have "closed_graph sample_graph"
    by (auto simp: closed_graph_def sample_graph_def deps_def task_node_def split: if_splits)
  moreover have "ranked sample_graph" unfolding ranked_def
    by (intro exI[of _ "\<lambda>k. if k = ''u'' then 0 else if k = ''t'' then 1 else 2"])
      (auto simp: sample_graph_def deps_def task_node_def split: if_splits)
  ultimately show ?thesis using ranked_iff_acyclic by (auto simp: valid_graph_def)
qed

theorem Inject_keeps_graph_witness:
  "\<exists>d1 d2. InjectBefore validate_sorted ''t'' (task_node ''n'' []) sample_graph = Some (d1, None) \<and>
     InjectAfter validate_sorted ''t'' (task_node ''n'' []) sample_graph = Some (d2, None) \<and>
     valid_graph d1 \<and> valid_graph d2 \<and> deps d1 ''n'' = [''u''] \<and> deps d1 ''t'' = [''n''] \<and> deps d2 ''n'' = [''t'']"
proof -
  have "''t'' \<in> dom sample_graph" "nd_ID (task_node ''n'' []) \<notin> dom sample_graph" "nd_ID (task_node ''n'' []) = ''n''"
      "deps sample_graph ''t'' = [''u'']"
    by (auto simp: sample_graph_def task_node_def deps_def)
  then show ?thesis using Inject_keeps_graph[OF runs_validate_sorted sample_graph_valid, of "''t''" "task_node ''n'' []"] by auto
qed

text \<open>
  A failed \<open>ExpandFanOut\<close> does not restore the graph: when the identifier of the reduce node is that of
  an existing node, the cycle is found, and the roll-back deletes that node and leaves the downstream
  node pointing at it.
\<close>

lemma ExpandFanOut_rollback_incomplete:
  "\<exists>d'. ExpandFanOut (DAG_Validate [''b'', ''u'', ''x''] [''b'', ''u'', ''x'']) ''t'' 1 (\<lambda>_. task_node ''b'' []) (task_node ''u'' []) sample_graph =
     Some (d', Some ErrCycleDetected) \<and> sample_graph ''u'' \<noteq> None \<and> d' ''u'' = None \<and> deps d' ''x'' = [''u'']"
  by (simp add: ExpandFanOut_def DAG_Validate_def sort_simps insert_nodes_def rename_dep_def map_deps_def Node_Clone_def deps_def)

end
