(* ===== verification/Go_Strings.thy ===== *)
theory Go_Strings
  imports Run_Types
begin

text \<open>
  The functions of Go's packages \<open>strings\<close> and \<open>strconv\<close> that several components call, with the laws
  their proofs use.
\<close>

section \<open>Package strings\<close>

text \<open>\<open>strings.ReplaceAll\<close> for a pattern of two and of one byte, and \<open>strings.Split\<close> at a byte.\<close>

fun ReplaceAll2 :: "char \<Rightarrow> char \<Rightarrow> string \<Rightarrow> string \<Rightarrow> string" where
  "ReplaceAll2 a b r (x # y # zs) = (if x = a \<and> y = b then r @ ReplaceAll2 a b r zs else x # ReplaceAll2 a b r (y # zs))"
| "ReplaceAll2 a b r zs = zs"

definition ReplaceAll1 :: "char \<Rightarrow> string \<Rightarrow> string \<Rightarrow> string" where
  "ReplaceAll1 a r s = concat (map (\<lambda>x. if x = a then r else [x]) s)"

fun Split :: "char \<Rightarrow> string \<Rightarrow> string list" where
  "Split c [] = [[]]"
| "Split c (x # xs) = (if x = c then [] # Split c xs else (x # hd (Split c xs)) # tl (Split c xs))"

lemma Split_append: "c \<notin> set e \<Longrightarrow> Split c (e @ rest) = (e @ hd (Split c rest)) # tl (Split c rest)"
proof (induction e)
  case Nil
  have "Split c rest \<noteq> []" by (cases rest) auto
  then show ?case by simp
qed auto

lemma Split_join: "\<forall>e \<in> set (e0 # es). c \<notin> set e \<Longrightarrow> Split c (e0 @ concat (map (\<lambda>e. c # e) es)) = e0 # es"
  using Split_append[of c _ "[]"] by (induction es arbitrary: e0) (auto simp: Split_append)

definition HasPrefix :: "string \<Rightarrow> string \<Rightarrow> bool" where
  "HasPrefix s pre \<longleftrightarrow> take (length pre) s = pre"

definition TrimPrefix :: "string \<Rightarrow> string \<Rightarrow> string" where
  "TrimPrefix s pre = (if HasPrefix s pre then drop (length pre) s else s)"

lemma HasPrefix_append [simp]: "HasPrefix (pre @ s) pre"
  by (simp add: HasPrefix_def)

section \<open>Package strconv\<close>

text \<open>
  The value that \<open>strconv.Atoi\<close> returns, for callers that drop its error: 0 on a syntax error, and the
  nearest 64-bit integer when the digits overflow. As in \<open>ParseUint\<close>, an overflow ends the scan before
  later bytes are seen.
\<close>

datatype scan_result = ScanSyntax | ScanRange | ScanValue nat

definition IsDigit :: "char \<Rightarrow> bool" where
  "IsDigit c \<longleftrightarrow> of_char c \<ge> (48 :: nat) \<and> of_char c \<le> (57 :: nat)"

fun ParseUint_loop :: "nat \<Rightarrow> string \<Rightarrow> scan_result" where
  "ParseUint_loop n [] = ScanValue n"
| "ParseUint_loop n (c # cs) =
     (if \<not> IsDigit c then ScanSyntax
      else if n * 10 + digit_val c \<ge> 2 ^ 64 then ScanRange
      else ParseUint_loop (n * 10 + digit_val c) cs)"

definition Atoi_value :: "string \<Rightarrow> int" where
  "Atoi_value s =
     (let neg = HasPrefix s ''-'';
        ds = (if HasPrefix s ''-'' \<or> HasPrefix s ''+'' then tl s else s);
        clamp = (\<lambda>un. if \<not> neg \<and> un \<ge> 2 ^ 63 then 2 ^ 63 - 1 else if neg then - min un (2 ^ 63) else un) in
      if ds = [] then 0
      else case ParseUint_loop 0 ds of ScanSyntax \<Rightarrow> 0 | ScanRange \<Rightarrow> clamp (2 ^ 64 - 1) | ScanValue un \<Rightarrow> clamp (int un))"

lemma ParseUint_loop_digits:
  assumes "list_all IsDigit ds" "foldl (\<lambda>acc c. acc * 10 + digit_val c) n ds < 2 ^ 64"
  shows "ParseUint_loop n ds = ScanValue (foldl (\<lambda>acc c. acc * 10 + digit_val c) n ds)"
proof -
  have ge: "n \<le> foldl (\<lambda>acc c. acc * 10 + digit_val c) n ds" for n ds
  proof (induction ds arbitrary: n)
    case (Cons c ds)
    have "n \<le> n * 10 + digit_val c" by simp
    also have "\<dots> \<le> foldl (\<lambda>acc c. acc * 10 + digit_val c) (n * 10 + digit_val c) ds" by (rule Cons.IH)
    finally show ?case by simp
  qed simp
  show ?thesis using assms
  proof (induction ds arbitrary: n)
    case (Cons c ds)
    have "n * 10 + digit_val c < 2 ^ 64" using ge[of "n * 10 + digit_val c" ds] Cons.prems(2) by simp
    then show ?case using Cons by simp
  qed simp
qed

lemma IsDigit_in: "c \<in> set ''0123456789'' \<Longrightarrow> IsDigit c"
  by (auto simp: IsDigit_def)

lemma nat_decimal_digits: "list_all IsDigit (nat_decimal n)"
  unfolding list_all_iff by (intro ballI IsDigit_in) (rule subsetD[OF set_nat_decimal])

lemma nat_decimal_Nil [simp]: "nat_decimal n \<noteq> []"
  by (subst nat_decimal.simps) simp

lemma Atoi_itoa:
  assumes "0 \<le> i" "i < 2 ^ 63"
  shows "Atoi_value (itoa i) = i"
proof -
  obtain c cs where s: "itoa i = c # cs" "nat_decimal (nat i) = c # cs" using assms by (cases "nat_decimal (nat i)") (simp_all add: itoa_def)
  have "IsDigit c" using nat_decimal_digits[of "nat i"] s by simp
  then have "c \<noteq> CHR ''-''" "c \<noteq> CHR ''+''" by (auto simp: IsDigit_def)
  moreover have "foldl (\<lambda>acc c. acc * 10 + digit_val c) 0 (c # cs) = nat i"
    using decimal_val_nat_decimal[of "nat i"] by (simp only: decimal_val_def s)
  moreover have "nat i < 2 ^ 64" using assms by simp
  ultimately have "ParseUint_loop 0 (c # cs) = ScanValue (nat i)"
    using ParseUint_loop_digits[of "c # cs" 0] nat_decimal_digits[of "nat i"] s(2) by (simp del: ParseUint_loop.simps)
  then show ?thesis using assms \<open>c \<noteq> CHR ''-''\<close> \<open>c \<noteq> CHR ''+''\<close> by (simp add: Atoi_value_def s HasPrefix_def Let_def del: ParseUint_loop.simps)
qed

end
