(* ===== verification/Delta_Diff.thy ===== *)
theory Delta_Diff
  imports Go_Strings "HOL-Library.Finite_Map"
begin

text \<open>
  \<open>internal/deltadiff\<close>: structural differences of JSON documents as RFC 6902 patches. A document is a
  tree; \<open>'n\<close> is the type of its numbers, whose equality stands for Go's \<open>==\<close> on \<open>float64\<close> (a JSON number
  is never NaN). Objects are finite maps, so that \<open>reflect.DeepEqual\<close> is equality.

  \<open>Apply\<close> changes maps and slices in place. On a document whose parts are not shared this is the update of
  the tree. A copy of an object or of an array shares it with its origin, so the model stops (\<open>None\<close>) when
  an operation follows such a copy.
\<close>

section \<open>Documents, operations, pointers\<close>

datatype 'n json =
    JNull
  | JBool bool
  | JNum 'n
  | JStr string
  | JArr "'n json list"
  | JObj "(string, 'n json) fmap"

datatype OpType = OpAdd | OpRemove | OpReplace | OpMove | OpCopy | OpTest | OpOther string

datatype patch_error =
    ErrInvalidPointer string
  | ErrPathNotFound string
  | ErrPatchFailed string
  | ErrTestFailed string

record 'n PatchOperation =
  po_Op :: OpType
  po_Path :: string
  po_From :: string
  po_Value :: "'n json"

fun isValidOp :: "OpType \<Rightarrow> bool" where
  "isValidOp (OpOther _) = False"
| "isValidOp _ = True"

definition unescape :: "string \<Rightarrow> string" where
  "unescape tok = ReplaceAll2 (CHR ''~'') (CHR ''0'') ''~'' (ReplaceAll2 (CHR ''~'') (CHR ''1'') ''/'' tok)"

definition escape :: "string \<Rightarrow> string" where
  "escape tok = ReplaceAll1 (CHR ''/'') ''~1'' (ReplaceAll1 (CHR ''~'') ''~0'' tok)"

definition ParsePointer :: "string \<Rightarrow> patch_error + string list" where
  "ParsePointer ptr =
     (case ptr of
        [] \<Rightarrow> Inr []
      | c # rest \<Rightarrow> if c \<noteq> CHR ''/'' then Inl (ErrInvalidPointer ptr) else Inr (map unescape (Split (CHR ''/'') rest)))"

definition FormatPointer :: "string list \<Rightarrow> string" where
  "FormatPointer tokens = concat (map (\<lambda>tok. ''/'' @ escape tok) tokens)"

text \<open>\<open>strconv.Atoi\<close>: an optional sign and decimal digits, within 64 bits.\<close>

definition is_dec :: "char \<Rightarrow> bool" where
  "is_dec c \<longleftrightarrow> c \<in> set ''0123456789''"

definition Atoi :: "string \<Rightarrow> int option" where
  "Atoi s =
     (let (neg, ds) = (case s of [] \<Rightarrow> (False, []) | c # cs \<Rightarrow> if c = CHR ''-'' then (True, cs) else if c = CHR ''+'' then (False, cs) else (False, s));
          v = (if neg then - int (decimal_val ds) else int (decimal_val ds))
      in if ds \<noteq> [] \<and> list_all is_dec ds \<and> - (2 ^ 63) \<le> v \<and> v < 2 ^ 63 then Some v else None)"

section \<open>Apply\<close>

fun getValue :: "'n json \<Rightarrow> string list \<Rightarrow> patch_error + 'n json" where
  "getValue v [] = Inr v"
| "getValue v (tok # toks) =
     (case v of
        JObj m \<Rightarrow> (case fmlookup m tok of None \<Rightarrow> Inl (ErrPathNotFound tok) | Some w \<Rightarrow> getValue w toks)
      | JArr xs \<Rightarrow>
          (case Atoi tok of
             None \<Rightarrow> Inl (ErrPathNotFound tok)
           | Some idx \<Rightarrow> if idx < 0 \<or> idx \<ge> int (length xs) then Inl (ErrPathNotFound tok) else getValue (xs ! nat idx) toks)
      | _ \<Rightarrow> Inl (ErrPathNotFound tok))"

text \<open>The document after the value that \<open>getValue\<close> finds at \<open>toks\<close> has become \<open>w\<close>.\<close>

fun put_at :: "'n json \<Rightarrow> string list \<Rightarrow> 'n json \<Rightarrow> 'n json" where
  "put_at v [] w = w"
| "put_at v (tok # toks) w =
     (case v of
        JObj m \<Rightarrow> (case fmlookup m tok of None \<Rightarrow> v | Some u \<Rightarrow> JObj (fmupd tok (put_at u toks w) m))
      | JArr xs \<Rightarrow>
          (case Atoi tok of
             None \<Rightarrow> v
           | Some idx \<Rightarrow> if idx < 0 \<or> idx \<ge> int (length xs) then v else JArr (xs[nat idx := put_at (xs ! nat idx) toks w]))
      | _ \<Rightarrow> v)"

definition updateSliceInParent :: "'n json \<Rightarrow> string list \<Rightarrow> 'n json list \<Rightarrow> patch_error + 'n json" where
  "updateSliceInParent root parentTokens newSlice = Inr (put_at root parentTokens (JArr newSlice))"

definition addValue :: "'n json \<Rightarrow> string list \<Rightarrow> 'n json \<Rightarrow> patch_error + 'n json" where
  "addValue target tokens val =
     (if tokens = [] then Inr val
      else let tgt = (case target of JNull \<Rightarrow> JObj fmempty | _ \<Rightarrow> target);
               parentTokens = butlast tokens; lastToken = last tokens
           in case getValue tgt parentTokens of
                Inl err \<Rightarrow> Inl err
              | Inr (JObj m) \<Rightarrow> Inr (put_at tgt parentTokens (JObj (fmupd lastToken val m)))
              | Inr (JArr xs) \<Rightarrow>
                  (if lastToken = ''-'' then updateSliceInParent tgt parentTokens (xs @ [val])
                   else (case Atoi lastToken of
                           None \<Rightarrow> Inl (ErrPatchFailed lastToken)
                         | Some idx \<Rightarrow>
                             if idx < 0 \<or> idx > int (length xs) then Inl (ErrPatchFailed lastToken)
                             else updateSliceInParent tgt parentTokens (take (nat idx) xs @ [val] @ drop (nat idx) xs)))
              | Inr _ \<Rightarrow> Inl (ErrPatchFailed lastToken))"

definition removeValue :: "'n json \<Rightarrow> string list \<Rightarrow> patch_error + 'n json" where
  "removeValue target tokens =
     (if tokens = [] then Inr JNull
      else let parentTokens = butlast tokens; lastToken = last tokens
           in case getValue target parentTokens of
                Inl err \<Rightarrow> Inl err
              | Inr (JObj m) \<Rightarrow>
                  (if fmlookup m lastToken = None then Inl (ErrPathNotFound lastToken)
                   else Inr (put_at target parentTokens (JObj (fmdrop lastToken m))))
              | Inr (JArr xs) \<Rightarrow>
                  (case Atoi lastToken of
                     None \<Rightarrow> Inl (ErrPathNotFound lastToken)
                   | Some idx \<Rightarrow>
                       if idx < 0 \<or> idx \<ge> int (length xs) then Inl (ErrPathNotFound lastToken)
                       else updateSliceInParent target parentTokens (take (nat idx) xs @ drop (nat idx + 1) xs))
              | Inr _ \<Rightarrow> Inl (ErrPatchFailed lastToken))"

definition applyOperation :: "'n json \<Rightarrow> 'n PatchOperation \<Rightarrow> patch_error + 'n json" where
  "applyOperation target op =
     (case ParsePointer (po_Path op) of
        Inl err \<Rightarrow> Inl err
      | Inr tokens \<Rightarrow>
          (case po_Op op of
             OpTest \<Rightarrow>
               (case getValue target tokens of
                  Inl err \<Rightarrow> Inl err
                | Inr val \<Rightarrow> if val \<noteq> po_Value op then Inl (ErrTestFailed (po_Path op)) else Inr target)
           | OpAdd \<Rightarrow> addValue target tokens (po_Value op)
           | OpRemove \<Rightarrow> removeValue target tokens
           | OpReplace \<Rightarrow>
               (case removeValue target tokens of
                  Inl err \<Rightarrow> Inl err
                | Inr t \<Rightarrow> addValue t tokens (po_Value op))
           | OpCopy \<Rightarrow>
               (case ParsePointer (po_From op) of
                  Inl err \<Rightarrow> Inl err
                | Inr fromTokens \<Rightarrow>
                    (case getValue target fromTokens of
                       Inl err \<Rightarrow> Inl err
                     | Inr val \<Rightarrow> addValue target tokens val))
           | OpMove \<Rightarrow>
               (case ParsePointer (po_From op) of
                  Inl err \<Rightarrow> Inl err
                | Inr fromTokens \<Rightarrow>
                    (case getValue target fromTokens of
                       Inl err \<Rightarrow> Inl err
                     | Inr val \<Rightarrow>
                         (case removeValue target fromTokens of
                            Inl err \<Rightarrow> Inl err
                          | Inr t \<Rightarrow> addValue t tokens val)))
           | OpOther s \<Rightarrow> Inl (ErrPatchFailed s)))"

fun is_container :: "'n json \<Rightarrow> bool" where
  "is_container (JArr _) = True"
| "is_container (JObj _) = True"
| "is_container _ = False"

definition shares :: "'n json \<Rightarrow> 'n PatchOperation \<Rightarrow> bool" where
  "shares target op \<longleftrightarrow> po_Op op = OpCopy \<and>
     (case ParsePointer (po_From op) of
        Inl _ \<Rightarrow> False
      | Inr fromTokens \<Rightarrow> (case getValue target fromTokens of Inl _ \<Rightarrow> False | Inr val \<Rightarrow> is_container val))"

text \<open>The index of a failing operation is part of the error.\<close>

fun apply_from :: "nat \<Rightarrow> bool \<Rightarrow> 'n json \<Rightarrow> 'n PatchOperation list \<Rightarrow> (nat \<times> patch_error + 'n json) option" where
  "apply_from i shared cur [] = Some (Inr cur)"
| "apply_from i shared cur (op # ops) =
     (if shared then None
      else case applyOperation cur op of
        Inl err \<Rightarrow> Some (Inl (i, err))
      | Inr cur' \<Rightarrow> apply_from (Suc i) (shares cur op) cur' ops)"

definition Apply :: "'n json \<Rightarrow> 'n PatchOperation list \<Rightarrow> (nat \<times> patch_error + 'n json) option" where
  "Apply target patch = apply_from 0 False target patch"

section \<open>Diff\<close>

definition op_add :: "string \<Rightarrow> 'n json \<Rightarrow> 'n PatchOperation" where
  "op_add path v = \<lparr>po_Op = OpAdd, po_Path = path, po_From = [], po_Value = v\<rparr>"

definition op_remove :: "string \<Rightarrow> 'n PatchOperation" where
  "op_remove path = \<lparr>po_Op = OpRemove, po_Path = path, po_From = [], po_Value = JNull\<rparr>"

definition op_replace :: "string \<Rightarrow> 'n json \<Rightarrow> 'n PatchOperation" where
  "op_replace path v = \<lparr>po_Op = OpReplace, po_Path = path, po_From = [], po_Value = v\<rparr>"

definition sorted_keys :: "(string, 'v) fmap \<Rightarrow> string list" where
  "sorted_keys m = sorted_list_of_fset (fmdom m)"

definition sub_path :: "string \<Rightarrow> string \<Rightarrow> string" where
  "sub_path path k = path @ ''/'' @ k"

text \<open>\<open>diff\<close> stands for the recursive call of \<open>diffRecursive\<close>; it returns the operations that the call appends.\<close>

definition diffMaps :: "(string \<Rightarrow> 'n json \<Rightarrow> 'n json \<Rightarrow> 'n PatchOperation list) \<Rightarrow> string \<Rightarrow>
    (string, 'n json) fmap \<Rightarrow> (string, 'n json) fmap \<Rightarrow> 'n PatchOperation list" where
  "diffMaps diff path src dst =
     concat (map (\<lambda>k. if fmlookup dst k = None then [op_remove (sub_path path k)] else []) (sorted_keys src)) @
     concat (map (\<lambda>k. case fmlookup src k of
                        None \<Rightarrow> [op_add (sub_path path k) (the (fmlookup dst k))]
                      | Some srcVal \<Rightarrow> diff (sub_path path k) srcVal (the (fmlookup dst k))) (sorted_keys dst))"

definition diffSlices :: "(string \<Rightarrow> 'n json \<Rightarrow> 'n json \<Rightarrow> 'n PatchOperation list) \<Rightarrow> string \<Rightarrow>
    'n json list \<Rightarrow> 'n json list \<Rightarrow> 'n PatchOperation list" where
  "diffSlices diff path src dst =
     concat (map (\<lambda>i. diff (sub_path path (nat_decimal i)) (src ! i) (dst ! i)) [0 ..< min (length src) (length dst)]) @
     map (\<lambda>i. op_add (sub_path path (nat_decimal i)) (dst ! i)) [length src ..< length dst] @
     map (\<lambda>i. op_remove (sub_path path (nat_decimal i))) (rev [length dst ..< length src])"

lemma diffMaps_cong [fundef_cong]:
  assumes "path = path'" "src = src'" "dst = dst'"
    and "\<And>k v. fmlookup src' k = Some v \<Longrightarrow> k \<in> set (sorted_keys dst') \<Longrightarrow>
      diff (sub_path path' k) v (the (fmlookup dst' k)) = diff' (sub_path path' k) v (the (fmlookup dst' k))"
  shows "diffMaps diff path src dst = diffMaps diff' path' src' dst'"
  unfolding diffMaps_def assms(1-3) by (intro arg_cong2[where f = "(@)"] refl arg_cong[where f = concat] map_cong) (auto split: option.split intro: assms(4))

lemma diffSlices_cong [fundef_cong]:
  assumes "path = path'" "src = src'" "dst = dst'"
    and "\<And>i. i < length src' \<Longrightarrow> i < length dst' \<Longrightarrow>
      diff (sub_path path' (nat_decimal i)) (src' ! i) (dst' ! i) = diff' (sub_path path' (nat_decimal i)) (src' ! i) (dst' ! i)"
  shows "diffSlices diff path src dst = diffSlices diff' path' src' dst'"
  unfolding diffSlices_def assms(1-3) by (intro arg_cong2[where f = "(@)"] refl arg_cong[where f = concat] map_cong) (auto intro: assms(4))

lemma size_fmlookup: "fmlookup m k = Some v \<Longrightarrow> size v < size (JObj m)"
proof -
  assume a: "fmlookup m k = Some v"
  then have "(k, v) |\<in>| fset_of_fmap m" by (simp add: fset_of_fmap_iff)
  then have "(\<lambda>(a, b). size b) (k, v) \<le> (\<Sum>x \<in> fset (fset_of_fmap m). Suc ((\<lambda>(a, b). size b) x))"
    by (intro order_trans[OF _ member_le_sum[of "(k, v)" "fset (fset_of_fmap m)" "\<lambda>x. Suc ((\<lambda>(a, b). size b) x)"]]) auto
  then show ?thesis by (simp add: size_fset_def)
qed

lemma size_json_nth: "i < length xs \<Longrightarrow> size (xs ! i) < size (JArr xs)"
  using size_list_estimation'[OF nth_mem, of i xs "size (xs ! i)" size] by simp

function diffRecursive :: "string \<Rightarrow> 'n json \<Rightarrow> 'n json \<Rightarrow> 'n PatchOperation list" where
  "diffRecursive path src dst =
     (if src = dst then []
      else if src = JNull \<and> dst \<noteq> JNull then [op_add path dst]
      else if src \<noteq> JNull \<and> dst = JNull then [op_remove path]
      else case (src, dst) of
        (JObj srcMap, JObj dstMap) \<Rightarrow> diffMaps diffRecursive path srcMap dstMap
      | (JArr srcSlice, JArr dstSlice) \<Rightarrow> diffSlices diffRecursive path srcSlice dstSlice
      | _ \<Rightarrow> [op_replace path dst])"
  by pat_completeness auto
termination
  by (relation "measure (\<lambda>(path, src, dst). size src)") (auto dest: size_fmlookup size_json_nth)

declare diffRecursive.simps [simp del]

definition Diff :: "'n json \<Rightarrow> 'n json \<Rightarrow> 'n PatchOperation list" where
  "Diff source target = diffRecursive [] source target"

section \<open>Pointers\<close>

lemma ReplaceAll2_skip: "x \<noteq> a \<Longrightarrow> ReplaceAll2 a b r (x # zs) = x # ReplaceAll2 a b r zs"
  by (cases zs) auto

lemma escape_Nil [simp]: "escape [] = []"
  by (simp add: escape_def ReplaceAll1_def)

lemma escape_Cons:
  "escape (x # xs) = (if x = CHR ''~'' then ''~0'' else if x = CHR ''/'' then ''~1'' else [x]) @ escape xs"
  by (simp add: escape_def ReplaceAll1_def)

lemma no_slash_escape: "CHR ''/'' \<notin> set (escape tok)"
  by (induction tok) (auto simp: escape_Cons)

lemma unescape_slash: "ReplaceAll2 (CHR ''~'') (CHR ''1'') ''/'' (escape tok) = ReplaceAll1 (CHR ''~'') ''~0'' tok"
  by (induction tok) (auto simp: escape_Cons ReplaceAll2_skip ReplaceAll1_def)

lemma unescape_tilde: "ReplaceAll2 (CHR ''~'') (CHR ''0'') ''~'' (ReplaceAll1 (CHR ''~'') ''~0'' tok) = tok"
  by (induction tok) (auto simp: ReplaceAll2_skip ReplaceAll1_def)

lemma unescape_escape [simp]: "unescape (escape tok) = tok"
  by (simp add: unescape_def unescape_slash unescape_tilde)

lemma ParsePointer_format: "ParsePointer (FormatPointer tokens) = Inr tokens"
proof (cases tokens)
  case (Cons t ts)
  have "FormatPointer tokens = CHR ''/'' # escape t @ concat (map (\<lambda>e. CHR ''/'' # e) (map escape ts))"
    by (simp add: FormatPointer_def Cons comp_def)
  moreover have "Split (CHR ''/'') (escape t @ concat (map (\<lambda>e. CHR ''/'' # e) (map escape ts))) = escape t # map escape ts"
    by (rule Split_join) (use no_slash_escape in auto)
  ultimately show ?thesis by (simp add: ParsePointer_def Cons comp_def)
qed (simp add: FormatPointer_def ParsePointer_def)

text \<open>Keys that need no escaping.\<close>

definition plain_key :: "string \<Rightarrow> bool" where
  "plain_key k \<longleftrightarrow> CHR ''/'' \<notin> set k \<and> CHR ''~'' \<notin> set k"

lemma escape_plain: "plain_key k \<Longrightarrow> escape k = k"
  by (induction k) (auto simp: escape_Cons plain_key_def)

lemma sub_path_format: "plain_key k \<Longrightarrow> sub_path (FormatPointer p) k = FormatPointer (p @ [k])"
  by (simp add: sub_path_def FormatPointer_def escape_plain)

lemma plain_decimal: "plain_key (nat_decimal i)"
  using set_nat_decimal[of i] by (auto simp: plain_key_def)

lemma Atoi_decimal:
  assumes "i < 2 ^ 63"
  shows "Atoi (nat_decimal i) = Some (int i)"
proof -
  have ne: "nat_decimal i \<noteq> []" by (subst nat_decimal.simps) simp
  then obtain c cs where c: "nat_decimal i = c # cs" by (cases "nat_decimal i") auto
  have sub: "set (c # cs) \<subseteq> set ''0123456789''" using set_nat_decimal[of i] unfolding c .
  then have "list_all is_dec (c # cs)" by (auto simp only: is_dec_def list_all_iff)
  moreover have "c \<in> set ''0123456789''" by (rule subsetD[OF sub]) simp
  then have "c \<noteq> CHR ''-''" "c \<noteq> CHR ''+''" by auto
  moreover have "decimal_val (c # cs) = i" using decimal_val_nat_decimal[of i] c by simp
  ultimately show ?thesis using assms by (simp add: Atoi_def c)
qed

section \<open>Reading and writing at a path\<close>

lemma getValue_append: "getValue v (p @ q) = (case getValue v p of Inl e \<Rightarrow> Inl e | Inr u \<Rightarrow> getValue u q)"
  by (induction v p rule: getValue.induct) (auto split: json.split option.split)

lemma getValue_put: "getValue v p = Inr u \<Longrightarrow> getValue (put_at v p w) p = Inr w"
  by (induction v p rule: getValue.induct) (auto split: json.splits option.splits if_splits)

lemma put_put: "getValue v p = Inr u \<Longrightarrow> put_at (put_at v p a) p b = put_at v p b"
  by (induction v p rule: getValue.induct) (auto split: json.splits option.splits if_splits)

lemma fmupd_same: "fmlookup m k = Some v \<Longrightarrow> fmupd k v m = m"
  by (intro fmap_ext) auto

lemma put_same: "getValue v p = Inr u \<Longrightarrow> put_at v p u = v"
  by (induction v p rule: getValue.induct) (auto simp: fmupd_same split: json.splits option.splits if_splits)

lemma put_append: "getValue v p = Inr u \<Longrightarrow> put_at v (p @ q) w = put_at v p (put_at u q w)"
  by (induction v p rule: getValue.induct) (auto split: json.splits option.splits if_splits)

lemma not_null_target: "getValue v p = Inr u \<Longrightarrow> u \<noteq> JNull \<Longrightarrow> (case v of JNull \<Rightarrow> JObj fmempty | _ \<Rightarrow> v) = v"
  by (cases v; cases p) auto

section \<open>Applying a difference\<close>

text \<open>\<open>ops\<close> turn \<open>D\<close> into \<open>D'\<close>, whatever follows them in the patch.\<close>

definition apply_ok :: "'n json \<Rightarrow> 'n PatchOperation list \<Rightarrow> 'n json \<Rightarrow> bool" where
  "apply_ok D ops D' \<longleftrightarrow> (\<forall>i rest. apply_from i False D (ops @ rest) = apply_from (i + length ops) False D' rest)"

lemma apply_ok_Nil [simp]: "apply_ok D [] D"
  by (simp add: apply_ok_def)

lemma apply_ok_append: "apply_ok D a D1 \<Longrightarrow> apply_ok D1 b D2 \<Longrightarrow> apply_ok D (a @ b) D2"
  by (simp add: apply_ok_def add.assoc)

lemma apply_ok_single: "applyOperation D op = Inr D' \<Longrightarrow> po_Op op \<noteq> OpCopy \<Longrightarrow> apply_ok D [op] D'"
  by (simp add: apply_ok_def shares_def)

lemmas op_defs = op_add_def op_remove_def op_replace_def

lemma add_object:
  assumes "getValue D p = Inr (JObj m)"
  shows "apply_ok D [op_add (FormatPointer (p @ [k])) v] (put_at D p (JObj (fmupd k v m)))"
  by (rule apply_ok_single)
    (use assms not_null_target[OF assms] in \<open>simp_all add: op_defs applyOperation_def ParsePointer_format addValue_def Let_def\<close>)

lemma remove_object:
  assumes "getValue D p = Inr (JObj m)" "fmlookup m k \<noteq> None"
  shows "apply_ok D [op_remove (FormatPointer (p @ [k]))] (put_at D p (JObj (fmdrop k m)))"
  by (rule apply_ok_single) (use assms in \<open>simp_all add: op_defs applyOperation_def ParsePointer_format removeValue_def Let_def\<close>)

lemma decimal_not_dash: "nat_decimal i \<noteq> ''-''"
  using minus_notin_nat_decimal[of i] by auto

lemma add_last:
  assumes "getValue D p = Inr (JArr xs)" "length xs < 2 ^ 63"
  shows "apply_ok D [op_add (FormatPointer (p @ [nat_decimal (length xs)])) v] (put_at D p (JArr (xs @ [v])))"
  by (rule apply_ok_single)
    (use assms not_null_target[OF assms(1)] Atoi_decimal[OF assms(2)] in
      \<open>simp_all add: op_defs applyOperation_def ParsePointer_format addValue_def updateSliceInParent_def decimal_not_dash Let_def\<close>)

lemma remove_last:
  assumes "getValue D p = Inr (JArr (xs @ [x]))" "length xs < 2 ^ 63"
  shows "apply_ok D [op_remove (FormatPointer (p @ [nat_decimal (length xs)]))] (put_at D p (JArr xs))"
  by (rule apply_ok_single)
    (use assms Atoi_decimal[OF assms(2)] in
      \<open>simp_all add: op_defs applyOperation_def ParsePointer_format removeValue_def updateSliceInParent_def Let_def\<close>)

lemma Atoi_not_dash: "Atoi k = Some i \<Longrightarrow> k \<noteq> ''-''"
  by (auto simp: Atoi_def)

lemma addValue_index:
  assumes "getValue D p = Inr (JArr xs)" "Atoi k = Some (int i)" "i \<le> length xs"
  shows "addValue D (p @ [k]) v = Inr (put_at D p (JArr (take i xs @ [v] @ drop i xs)))"
  using assms not_null_target[OF assms(1)] Atoi_not_dash[OF assms(2)] by (simp add: addValue_def updateSliceInParent_def Let_def)

lemma replace_at:
  assumes "getValue D q = Inr u"
  shows "apply_ok D [op_replace (FormatPointer q) v] (put_at D q v)"
proof (rule apply_ok_single)
  show "po_Op (op_replace (FormatPointer q) v) \<noteq> OpCopy" by (simp add: op_defs)
  have run: "applyOperation D (op_replace (FormatPointer q) v) = (case removeValue D q of Inl err \<Rightarrow> Inl err | Inr t \<Rightarrow> addValue t q v)"
    by (simp add: op_defs applyOperation_def ParsePointer_format split: sum.split)
  show "applyOperation D (op_replace (FormatPointer q) v) = Inr (put_at D q v)"
  proof (cases q rule: rev_cases)
    case Nil
    show ?thesis unfolding run by (simp add: Nil removeValue_def addValue_def)
  next
    case (snoc p k)
    obtain w where w: "getValue D p = Inr w" and k: "getValue w [k] = Inr u"
      using assms by (auto simp: snoc getValue_append split: sum.splits)
    have put: "put_at D q v = put_at D p (put_at w [k] v)" by (simp only: snoc put_append[OF w])
    show ?thesis
    proof (cases w)
      case (JObj m)
      have "getValue (put_at D p (JObj (fmdrop k m))) p = Inr (JObj (fmdrop k m))" by (rule getValue_put[OF w])
      moreover have "fmupd k v (fmdrop k m) = fmupd k v m" by (intro fmap_ext) auto
      ultimately show ?thesis unfolding run put
        using w k not_null_target[of "put_at D p (JObj (fmdrop k m))" p] put_put[OF w]
        by (auto simp: snoc removeValue_def addValue_def JObj Let_def split: option.splits)
    next
      case (JArr xs)
      obtain i where i: "Atoi k = Some (int i)" "i < length xs"
        using k by (auto simp: JArr split: option.splits if_splits) (metis int_nat_eq linorder_not_less nat_less_iff)
      define ys where "ys = take i xs @ drop (Suc i) xs"
      define D1 where "D1 = put_at D p (JArr ys)"
      have "getValue D1 p = Inr (JArr ys)" unfolding D1_def by (rule getValue_put[OF w])
      then have "addValue D1 q v = Inr (put_at D1 p (JArr (take i ys @ [v] @ drop i ys)))"
        using i unfolding snoc by (intro addValue_index) (simp_all add: ys_def)
      moreover have "removeValue D q = Inr D1"
        using w i by (simp add: snoc removeValue_def updateSliceInParent_def JArr Let_def D1_def ys_def)
      moreover have "take i ys @ [v] @ drop i ys = xs[i := v]" using i(2) by (simp add: ys_def upd_conv_take_nth_drop)
      ultimately show ?thesis unfolding run put using i by (simp add: JArr D1_def put_put[OF w])
    qed (use k in auto)
  qed
qed

text \<open>
  The documents for which a difference can be applied: no null inside, no key with a slash or a tilde,
  and no array so long that an index does not fit an \<open>int\<close>.
\<close>

primrec plain :: "'n json \<Rightarrow> bool" where
  "plain JNull = False"
| "plain (JBool b) = True"
| "plain (JNum n) = True"
| "plain (JStr s) = True"
| "plain (JArr xs) = (length xs < 2 ^ 63 \<and> list_all id (map plain xs))"
| "plain (JObj m) = (\<forall>k b. fmlookup (fmmap plain m) k = Some b \<longrightarrow> plain_key k \<and> b)"

lemma plain_JArr: "plain (JArr xs) \<longleftrightarrow> length xs < 2 ^ 63 \<and> (\<forall>x \<in> set xs. plain x)"
  by (simp add: list_all_iff)

lemma plain_JObj: "plain (JObj m) \<longleftrightarrow> (\<forall>k v. fmlookup m k = Some v \<longrightarrow> plain_key k \<and> plain v)"
  by auto

lemma plain_not_null: "plain v \<Longrightarrow> v \<noteq> JNull"
  by auto

declare plain.simps(5,6) [simp del]

text \<open>\<open>diff\<close> at a path below \<open>p\<close> produces operations that store the second value there.\<close>

definition diff_ok :: "(string \<Rightarrow> 'n json \<Rightarrow> 'n json \<Rightarrow> 'n PatchOperation list) \<Rightarrow> string list \<Rightarrow> 'n json \<Rightarrow> 'n json \<Rightarrow> bool" where
  "diff_ok diff p src dst \<longleftrightarrow> (\<forall>D. getValue D p = Inr src \<longrightarrow> apply_ok D (diff (FormatPointer p) src dst) (put_at D p dst))"

lemma removals_apply:
  assumes "getValue D p = Inr u" "\<forall>k \<in> set ks. plain_key k" "distinct ks" "\<forall>k \<in> set ks. fmlookup m k \<noteq> None"
  shows "apply_ok (put_at D p (JObj m))
    (concat (map (\<lambda>k. if fmlookup dst k = None then [op_remove (sub_path (FormatPointer p) k)] else []) ks))
    (put_at D p (JObj (fmfilter (\<lambda>k. k \<notin> set ks \<or> fmlookup dst k \<noteq> None) m)))"
  using assms(2-)
proof (induction ks arbitrary: m)
  case (Cons k ks)
  have sp: "sub_path (FormatPointer p) k = FormatPointer (p @ [k])" using Cons.prems(1) by (simp add: sub_path_format)
  let ?m = "if fmlookup dst k = None then fmdrop k m else m"
  have a: "apply_ok (put_at D p (JObj m)) (if fmlookup dst k = None then [op_remove (sub_path (FormatPointer p) k)] else [])
      (put_at D p (JObj ?m))"
    using remove_object[OF getValue_put[OF assms(1)], of m k] Cons.prems(3) by (simp add: sp put_put[OF assms(1)])
  have b: "apply_ok (put_at D p (JObj ?m))
      (concat (map (\<lambda>k. if fmlookup dst k = None then [op_remove (sub_path (FormatPointer p) k)] else []) ks))
      (put_at D p (JObj (fmfilter (\<lambda>k. k \<notin> set ks \<or> fmlookup dst k \<noteq> None) ?m)))"
    by (rule Cons.IH) (use Cons.prems in auto)
  have c: "fmfilter (\<lambda>k. k \<notin> set ks \<or> fmlookup dst k \<noteq> None) ?m = fmfilter (\<lambda>k'. k' \<notin> set (k # ks) \<or> fmlookup dst k' \<noteq> None) m"
    by (intro fmap_ext) (auto split: if_splits)
  show ?case using apply_ok_append[OF a b[unfolded c]] by (simp only: list.map concat.simps)
qed simp

lemma additions_apply:
  assumes "getValue D p = Inr u" "\<forall>k \<in> set ks. plain_key k \<and> fmlookup dst k \<noteq> None" "distinct ks"
    and "\<forall>k \<in> set ks. \<forall>v. fmlookup src k = Some v \<longrightarrow> fmlookup m k = Some v \<and> diff_ok diff (p @ [k]) v (the (fmlookup dst k))"
  shows "\<exists>m'. apply_ok (put_at D p (JObj m))
    (concat (map (\<lambda>k. case fmlookup src k of
        None \<Rightarrow> [op_add (sub_path (FormatPointer p) k) (the (fmlookup dst k))]
      | Some srcVal \<Rightarrow> diff (sub_path (FormatPointer p) k) srcVal (the (fmlookup dst k))) ks))
    (put_at D p (JObj m')) \<and> (\<forall>k. fmlookup m' k = (if k \<in> set ks then fmlookup dst k else fmlookup m k))"
  using assms(2-)
proof (induction ks arbitrary: m)
  case Nil
  show ?case by (intro exI[of _ m]) simp
next
  case (Cons k ks)
  let ?E = "put_at D p (JObj m)" and ?v = "the (fmlookup dst k)"
  have E: "getValue ?E p = Inr (JObj m)" by (rule getValue_put[OF assms(1)])
  have sp: "sub_path (FormatPointer p) k = FormatPointer (p @ [k])" using Cons.prems(1) by (simp add: sub_path_format)
  have step: "apply_ok ?E (case fmlookup src k of
        None \<Rightarrow> [op_add (sub_path (FormatPointer p) k) ?v]
      | Some srcVal \<Rightarrow> diff (sub_path (FormatPointer p) k) srcVal ?v) (put_at D p (JObj (fmupd k ?v m)))"
  proof (cases "fmlookup src k")
    case None
    then show ?thesis using add_object[OF E, of k ?v] by (simp add: sp put_put[OF assms(1)])
  next
    case (Some v)
    then have v: "fmlookup m k = Some v" "diff_ok diff (p @ [k]) v ?v" using Cons.prems(3) by auto
    then have "getValue ?E (p @ [k]) = Inr v" by (simp add: getValue_append E)
    then have "apply_ok ?E (diff (FormatPointer (p @ [k])) v ?v) (put_at ?E (p @ [k]) ?v)" using v(2) by (simp add: diff_ok_def)
    then show ?thesis using v(1) by (simp add: Some sp put_append[OF E] put_put[OF assms(1)])
  qed
  have pre: "\<forall>k' \<in> set ks. plain_key k' \<and> fmlookup dst k' \<noteq> None" "distinct ks"
      "\<forall>k' \<in> set ks. \<forall>v. fmlookup src k' = Some v \<longrightarrow> fmlookup (fmupd k ?v m) k' = Some v \<and> diff_ok diff (p @ [k']) v (the (fmlookup dst k'))"
    using Cons.prems by auto
  obtain m' where m': "apply_ok (put_at D p (JObj (fmupd k ?v m)))
    (concat (map (\<lambda>k. case fmlookup src k of
        None \<Rightarrow> [op_add (sub_path (FormatPointer p) k) (the (fmlookup dst k))]
      | Some srcVal \<Rightarrow> diff (sub_path (FormatPointer p) k) srcVal (the (fmlookup dst k))) ks))
    (put_at D p (JObj m'))" "\<forall>k'. fmlookup m' k' = (if k' \<in> set ks then fmlookup dst k' else fmlookup (fmupd k ?v m) k')"
    using Cons.IH[OF pre] by (elim exE conjE)
  have "fmlookup dst k = Some ?v" using Cons.prems(1) by auto
  then have "\<forall>k'. fmlookup m' k' = (if k' \<in> set (k # ks) then fmlookup dst k' else fmlookup m k')" using m'(2) by simp
  then show ?case using apply_ok_append[OF step m'(1)] by (intro exI[of _ m'] conjI) (simp only: list.map concat.simps, assumption)
qed

lemma set_sorted_keys: "set (sorted_keys m) = {k. fmlookup m k \<noteq> None}"
  by (auto simp: sorted_keys_def fmlookup_dom_iff)

lemma distinct_sorted_keys: "distinct (sorted_keys m)"
  by (simp add: sorted_keys_def sorted_list_of_fset.rep_eq)

lemma diffMaps_apply:
  assumes "plain (JObj src)" "plain (JObj dst)"
    and "\<And>k v. fmlookup src k = Some v \<Longrightarrow> fmlookup dst k \<noteq> None \<Longrightarrow> diff_ok diff (p @ [k]) v (the (fmlookup dst k))"
    and "getValue D p = Inr (JObj src)"
  shows "apply_ok D (diffMaps diff (FormatPointer p) src dst) (put_at D p (JObj dst))"
proof -
  define m where "m = fmfilter (\<lambda>k. k \<notin> set (sorted_keys src) \<or> fmlookup dst k \<noteq> None) src"
  have keys: "\<forall>k \<in> set (sorted_keys src). plain_key k" "\<forall>k \<in> set (sorted_keys dst). plain_key k"
    using assms(1,2) by (auto simp: set_sorted_keys plain_JObj)
  have D: "put_at D p (JObj src) = D" by (rule put_same[OF assms(4)])
  have rem: "apply_ok D (concat (map (\<lambda>k. if fmlookup dst k = None then [op_remove (sub_path (FormatPointer p) k)] else []) (sorted_keys src)))
      (put_at D p (JObj m))"
    using removals_apply[OF assms(4) keys(1) distinct_sorted_keys, of src dst] by (simp add: m_def D set_sorted_keys)
  have "\<exists>m'. apply_ok (put_at D p (JObj m))
      (concat (map (\<lambda>k. case fmlookup src k of
          None \<Rightarrow> [op_add (sub_path (FormatPointer p) k) (the (fmlookup dst k))]
        | Some srcVal \<Rightarrow> diff (sub_path (FormatPointer p) k) srcVal (the (fmlookup dst k))) (sorted_keys dst)))
      (put_at D p (JObj m')) \<and> (\<forall>k. fmlookup m' k = (if k \<in> set (sorted_keys dst) then fmlookup dst k else fmlookup m k))"
    by (rule additions_apply[OF assms(4)]) (use keys(2) assms(3) distinct_sorted_keys in \<open>auto simp: set_sorted_keys m_def\<close>)
  then obtain m' where m': "apply_ok (put_at D p (JObj m))
      (concat (map (\<lambda>k. case fmlookup src k of
          None \<Rightarrow> [op_add (sub_path (FormatPointer p) k) (the (fmlookup dst k))]
        | Some srcVal \<Rightarrow> diff (sub_path (FormatPointer p) k) srcVal (the (fmlookup dst k))) (sorted_keys dst)))
      (put_at D p (JObj m'))" "\<forall>k. fmlookup m' k = (if k \<in> set (sorted_keys dst) then fmlookup dst k else fmlookup m k)" by blast
  have "m' = dst" using m'(2) by (intro fmap_ext) (auto simp: set_sorted_keys m_def)
  then show ?thesis unfolding diffMaps_def using apply_ok_append[OF rem m'(1)] by simp
qed

lemma elements_apply:
  assumes "getValue D p = Inr u" "length src < 2 ^ 63" "n \<le> length src" "n \<le> length dst"
    and "\<And>i. i < n \<Longrightarrow> diff_ok diff (p @ [nat_decimal i]) (src ! i) (dst ! i)"
  shows "apply_ok (put_at D p (JArr src))
    (concat (map (\<lambda>i. diff (sub_path (FormatPointer p) (nat_decimal i)) (src ! i) (dst ! i)) [0 ..< n]))
    (put_at D p (JArr (take n dst @ drop n src)))"
  using assms(3-)
proof (induction n)
  case (Suc n)
  let ?xs = "take n dst @ drop n src" and ?k = "nat_decimal n"
  let ?E = "put_at D p (JArr ?xs)"
  have E: "getValue ?E p = Inr (JArr ?xs)" by (rule getValue_put[OF assms(1)])
  have n: "n < length src" "n < length dst" "Atoi ?k = Some (int n)" using Suc.prems assms(2) by (auto intro: Atoi_decimal)
  have nth: "?xs ! n = src ! n" using n by (simp add: nth_append)
  have "getValue ?E (p @ [?k]) = Inr (src ! n)" using n nth by (simp add: getValue_append E)
  then have "apply_ok ?E (diff (FormatPointer (p @ [?k])) (src ! n) (dst ! n)) (put_at ?E (p @ [?k]) (dst ! n))"
    using Suc.prems(3)[of n] by (simp add: diff_ok_def)
  moreover have "?xs[n := dst ! n] = take (Suc n) dst @ drop (Suc n) src"
    using n by (simp add: list_update_append take_Suc_conv_app_nth Cons_nth_drop_Suc[symmetric])
  then have "put_at ?E (p @ [?k]) (dst ! n) = put_at D p (JArr (take (Suc n) dst @ drop (Suc n) src))"
    using n by (simp add: put_append[OF E] put_put[OF assms(1)])
  ultimately have step: "apply_ok ?E (diff (sub_path (FormatPointer p) ?k) (src ! n) (dst ! n)) (put_at D p (JArr (take (Suc n) dst @ drop (Suc n) src)))"
    by (simp add: sub_path_format[OF plain_decimal])
  have "apply_ok (put_at D p (JArr src)) (concat (map (\<lambda>i. diff (sub_path (FormatPointer p) (nat_decimal i)) (src ! i) (dst ! i)) [0 ..< n])) ?E"
    by (rule Suc.IH) (use Suc.prems in auto)
  from apply_ok_append[OF this step] show ?case by simp
qed simp

lemma appends_apply:
  assumes "getValue D p = Inr u" "length dst < 2 ^ 63" "n \<le> length dst"
  shows "apply_ok (put_at D p (JArr (take n dst)))
    (map (\<lambda>i. op_add (sub_path (FormatPointer p) (nat_decimal i)) (dst ! i)) [n ..< length dst]) (put_at D p (JArr dst))"
  using assms(3)
proof (induction n rule: inc_induct)
  case (step n)
  let ?E = "put_at D p (JArr (take n dst))"
  have E: "getValue ?E p = Inr (JArr (take n dst))" by (rule getValue_put[OF assms(1)])
  have len: "length (take n dst) = n" using step.hyps by simp
  have "apply_ok ?E [op_add (FormatPointer (p @ [nat_decimal n])) (dst ! n)] (put_at ?E p (JArr (take n dst @ [dst ! n])))"
    using add_last[OF E, of "dst ! n"] step.hyps assms(2) unfolding len by simp
  then have "apply_ok ?E [op_add (sub_path (FormatPointer p) (nat_decimal n)) (dst ! n)] (put_at D p (JArr (take (Suc n) dst)))"
    using step.hyps by (simp add: put_put[OF assms(1)] sub_path_format[OF plain_decimal] take_Suc_conv_app_nth)
  from apply_ok_append[OF this step.IH] show ?case using step.hyps by (simp add: upt_conv_Cons)
qed simp

lemma truncation_apply:
  assumes "getValue D p = Inr u" "length xs + length ys < 2 ^ 63"
  shows "apply_ok (put_at D p (JArr (xs @ ys)))
    (map (\<lambda>i. op_remove (sub_path (FormatPointer p) (nat_decimal i))) (rev [length xs ..< length xs + length ys])) (put_at D p (JArr xs))"
  using assms(2)
proof (induction ys rule: rev_induct)
  case (snoc y ys)
  let ?E = "put_at D p (JArr ((xs @ ys) @ [y]))"
  have E: "getValue ?E p = Inr (JArr ((xs @ ys) @ [y]))" by (rule getValue_put[OF assms(1)])
  have "apply_ok ?E [op_remove (sub_path (FormatPointer p) (nat_decimal (length (xs @ ys))))] (put_at D p (JArr (xs @ ys)))"
    using remove_last[OF E] snoc.prems by (simp add: put_put[OF assms(1)] sub_path_format[OF plain_decimal])
  from apply_ok_append[OF this snoc.IH] snoc.prems show ?case by simp
qed simp

lemma diffSlices_apply:
  assumes "plain (JArr src)" "plain (JArr dst)" "getValue D p = Inr (JArr src)"
    and "\<And>i. i < length src \<Longrightarrow> i < length dst \<Longrightarrow> diff_ok diff (p @ [nat_decimal i]) (src ! i) (dst ! i)"
  shows "apply_ok D (diffSlices diff (FormatPointer p) src dst) (put_at D p (JArr dst))"
proof -
  let ?n = "min (length src) (length dst)"
  have len: "length src < 2 ^ 63" "length dst < 2 ^ 63" using assms(1,2) by (auto simp: plain_JArr)
  have D: "put_at D p (JArr src) = D" by (rule put_same[OF assms(3)])
  have common: "apply_ok D (concat (map (\<lambda>i. diff (sub_path (FormatPointer p) (nat_decimal i)) (src ! i) (dst ! i)) [0 ..< ?n]))
      (put_at D p (JArr (take ?n dst @ drop ?n src)))"
    using elements_apply[OF assms(3) len(1), of ?n dst diff] assms(4) by (simp add: D)
  show ?thesis
  proof (cases "length src \<le> length dst")
    case True
    then have "apply_ok (put_at D p (JArr (take ?n dst @ drop ?n src)))
        (map (\<lambda>i. op_add (sub_path (FormatPointer p) (nat_decimal i)) (dst ! i)) [length src ..< length dst]) (put_at D p (JArr dst))"
      using appends_apply[OF assms(3) len(2) True] by (simp add: min_absorb1)
    from apply_ok_append[OF common this] True show ?thesis by (simp add: diffSlices_def)
  next
    case False
    then have "apply_ok (put_at D p (JArr (take ?n dst @ drop ?n src)))
        (map (\<lambda>i. op_remove (sub_path (FormatPointer p) (nat_decimal i))) (rev [length dst ..< length src])) (put_at D p (JArr dst))"
      using truncation_apply[OF assms(3), of dst "drop (length dst) src"] len(1) by (simp add: min_absorb2)
    from apply_ok_append[OF common this] False show ?thesis by (simp add: diffSlices_def)
  qed
qed

lemma diffRecursive_cases:
  assumes "src \<noteq> JNull" "dst \<noteq> JNull" "src \<noteq> dst"
  shows "diffRecursive path src dst = [op_replace path dst] \<or>
    (\<exists>m m'. src = JObj m \<and> dst = JObj m' \<and> diffRecursive path src dst = diffMaps diffRecursive path m m') \<or>
    (\<exists>xs ys. src = JArr xs \<and> dst = JArr ys \<and> diffRecursive path src dst = diffSlices diffRecursive path xs ys)"
  using assms diffRecursive.simps[of path src dst] by (cases src; cases dst) simp_all

lemma diffRecursive_apply:
  "plain src \<Longrightarrow> plain dst \<Longrightarrow> diff_ok diffRecursive p src dst"
proof (induction "FormatPointer p" src dst arbitrary: p rule: diffRecursive.induct)
  case (1 src dst p)
  have nn: "src \<noteq> JNull" "dst \<noteq> JNull" using 1(3,4) by auto
  show ?case unfolding diff_ok_def
  proof (intro allI impI)
    fix D assume D: "getValue D p = Inr src"
    consider "src = dst"
      | m m' where "src = JObj m" "dst = JObj m'" "src \<noteq> dst" "diffRecursive (FormatPointer p) src dst = diffMaps diffRecursive (FormatPointer p) m m'"
      | xs ys where "src = JArr xs" "dst = JArr ys" "src \<noteq> dst" "diffRecursive (FormatPointer p) src dst = diffSlices diffRecursive (FormatPointer p) xs ys"
      | "src \<noteq> dst" "diffRecursive (FormatPointer p) src dst = [op_replace (FormatPointer p) dst]"
      using diffRecursive_cases[OF nn, of "FormatPointer p"] by blast
    then show "apply_ok D (diffRecursive (FormatPointer p) src dst) (put_at D p dst)"
    proof cases
      case 1
      then show ?thesis using put_same[OF D] by (simp add: diffRecursive.simps)
    next
      case 2
      have "diff_ok diffRecursive (p @ [k]) v (the (fmlookup m' k))" if v: "fmlookup m k = Some v" and k: "fmlookup m' k \<noteq> None" for k v
      proof -
        have "plain_key k" "plain v" "plain (the (fmlookup m' k))" using 2 v k "1.prems" by (auto simp: plain_JObj)
        then show ?thesis using "1.hyps"(2)[of src dst m m' k v "p @ [k]"] 2 v k nn by (auto simp: sub_path_format set_sorted_keys)
      qed
      then show ?thesis using diffMaps_apply[of m m' diffRecursive p D] "1.prems" D 2(1,2) unfolding 2(4) by simp
    next
      case 3
      have "diff_ok diffRecursive (p @ [nat_decimal i]) (xs ! i) (ys ! i)" if "i < length xs" "i < length ys" for i
        using "1.hyps"(1)[of src dst xs ys i "p @ [nat_decimal i]"] "1.prems" 3 that nn
        by (auto simp: sub_path_format[OF plain_decimal] plain_JArr)
      then show ?thesis using diffSlices_apply[of xs ys D p diffRecursive] "1.prems" D 3(1,2) unfolding 3(4) by simp
    next
      case 4
      then show ?thesis using replace_at[OF D] by simp
    qed
  qed
qed

text \<open>
  (C40) Applying the difference of two documents to the first one yields the second one: \<open>Apply\<close>
  succeeds on the patch that \<open>Diff\<close> computes and returns the target, for all documents of any depth
  that contain no null and no key with a slash or a tilde.
\<close>

theorem Apply_Diff_roundtrip:
  assumes "plain source" "plain target"
  shows "Apply source (Diff source target) = Some (Inr target)"
proof -
  have "apply_ok source (diffRecursive (FormatPointer []) source target) (put_at source [] target)"
    using diffRecursive_apply[OF assms, of "[]"] by (simp add: diff_ok_def)
  then have "apply_from 0 False source (diffRecursive [] source target @ []) = apply_from (0 + length (diffRecursive [] source target)) False target []"
    unfolding apply_ok_def FormatPointer_def by (metis concat.simps(1) list.simps(8) put_at.simps(1))
  then show ?thesis by (simp add: Apply_def Diff_def)
qed

text \<open>
  JSON pointers round trip: parsing a formatted pointer gives back its tokens, for all tokens,
  including those that contain slashes and tildes.
\<close>

theorem ParsePointer_FormatPointer:
  "ParsePointer (FormatPointer tokens) = Inr tokens"
  by (rule ParsePointer_format)

theorem Apply_Diff_roundtrip_witness:
  "Apply (JObj (fmupd ''a'' (JArr [JBool True, JNum (1 :: int)]) fmempty))
     (Diff (JObj (fmupd ''a'' (JArr [JBool True, JNum 1]) fmempty)) (JObj (fmupd ''b'' (JStr ''x'') (fmupd ''a'' (JArr [JNum 2]) fmempty)))) =
   Some (Inr (JObj (fmupd ''b'' (JStr ''x'') (fmupd ''a'' (JArr [JNum 2]) fmempty))))"
  by (rule Apply_Diff_roundtrip) (auto simp: plain_JObj plain_JArr plain_key_def split: if_splits)

text \<open>The restrictions are needed: a null is removed instead of stored, and a key with a slash is not found.\<close>

lemma sorted_keys_single: "sorted_keys (fmupd k v fmempty) = [k]"
  by (simp add: sorted_keys_def sorted_list_of_fset.rep_eq)

lemma sorted_keys_empty: "sorted_keys fmempty = []"
  by (simp add: sorted_keys_def sorted_list_of_fset.rep_eq)

lemma fmupd_single_inject: "fmupd k v fmempty = fmupd k w fmempty \<longleftrightarrow> v = w"
  by (metis fmupd_lookup option.inject)

lemma Diff_null_not_restored:
  "Apply (JObj (fmupd ''a'' (JBool True :: int json) fmempty)) (Diff (JObj (fmupd ''a'' (JBool True :: int json) fmempty)) (JObj (fmupd ''a'' (JNull :: int json) fmempty))) =
     Some (Inr (JObj fmempty))"
proof -
  have "diffRecursive ''/a'' (JBool True :: int json) JNull = [op_remove ''/a'']" by (simp add: diffRecursive.simps)
  then have "Diff (JObj (fmupd ''a'' (JBool True :: int json) fmempty)) (JObj (fmupd ''a'' (JNull :: int json) fmempty)) = [op_remove ''/a'']"
    unfolding Diff_def by (subst diffRecursive.simps) (simp add: fmupd_single_inject diffMaps_def sorted_keys_single sub_path_def)
  moreover have "fmdrop ''a'' (fmupd ''a'' (JBool True :: int json) fmempty) = fmempty" by (intro fmap_ext) simp
  ultimately show ?thesis
    by (simp add: Apply_def applyOperation_def op_defs ParsePointer_def unescape_def removeValue_def shares_def Let_def)
qed

lemma Diff_slash_not_restored:
  "Apply (JObj fmempty) (Diff (JObj fmempty) (JObj (fmupd ''a/b'' (JBool True :: int json) fmempty))) = Some (Inl (0, ErrPathNotFound ''a''))"
proof -
  have "fmempty \<noteq> fmupd ''a/b'' (JBool True :: int json) fmempty" by (metis fmempty_lookup fmupd_lookup option.distinct(1))
  then have "Diff (JObj fmempty) (JObj (fmupd ''a/b'' (JBool True :: int json) fmempty)) = [op_add ''/a/b'' (JBool True :: int json)]"
    unfolding Diff_def by (subst diffRecursive.simps) (simp add: diffMaps_def sorted_keys_single sorted_keys_empty sub_path_def)
  then show ?thesis
    by (simp add: Apply_def applyOperation_def op_defs ParsePointer_def unescape_def addValue_def Let_def)
qed

end
