(* ===== verification/Binary_Search.thy ===== *)
theory Binary_Search
  imports Tempest_Prelude
begin

text \<open>
  \<open>sort.Search\<close> of Go's standard library, which the compaction store and the hash ring call, and the
  law that its callers rely on: it returns the least index at which a monotone predicate holds.
\<close>

function Search_loop :: "(nat \<Rightarrow> bool) \<Rightarrow> nat \<Rightarrow> nat \<Rightarrow> nat" where
  "Search_loop f i j =
     (if i < j then let h = (i + j) div 2 in if \<not> f h then Search_loop f (h + 1) j else Search_loop f i h
      else i)"
  by pat_completeness auto
termination by (relation "measure (\<lambda>(f, i, j). j - i)") auto

declare Search_loop.simps [simp del]

definition Search :: "nat \<Rightarrow> (nat \<Rightarrow> bool) \<Rightarrow> nat" where
  "Search n f = Search_loop f 0 n"

lemma Search_loop_bounds: "i \<le> j \<Longrightarrow> i \<le> Search_loop f i j \<and> Search_loop f i j \<le> j"
proof (induction f i j rule: Search_loop.induct)
  case (1 f i j)
  show ?case
  proof (cases "i < j")
    case True
    then have "i \<le> (i + j) div 2" "(i + j) div 2 + 1 \<le> j" by auto
    then show ?thesis using True "1.IH"[OF True refl] by (subst (1 2) Search_loop.simps) (fastforce simp: Let_def)
  qed (use "1.prems" in \<open>simp add: Search_loop.simps\<close>)
qed

lemma Search_loop_least:
  assumes "\<And>a b. a \<le> b \<Longrightarrow> b < n \<Longrightarrow> f a \<Longrightarrow> f b" "i \<le> j" "j \<le> n" "\<And>a. a < i \<Longrightarrow> \<not> f a" "\<And>a. j \<le> a \<Longrightarrow> a < n \<Longrightarrow> f a"
  shows "(\<forall>a < Search_loop f i j. \<not> f a) \<and> (\<forall>a. Search_loop f i j \<le> a \<longrightarrow> a < n \<longrightarrow> f a)"
  using assms
proof (induction f i j rule: Search_loop.induct)
  case (1 f i j)
  show ?case
  proof (cases "i < j")
    case True
    let ?h = "(i + j) div 2"
    have h: "i \<le> ?h" "?h < j" "?h < n" using True "1.prems"(3) by auto
    show ?thesis
    proof (cases "f ?h")
      case up: True
      have "\<And>a. ?h \<le> a \<Longrightarrow> a < n \<Longrightarrow> f a" using up "1.prems"(1) h by blast
      with "1.IH"(2)[OF True refl] up "1.prems" h have
        "(\<forall>a < Search_loop f i ?h. \<not> f a) \<and> (\<forall>a. Search_loop f i ?h \<le> a \<longrightarrow> a < n \<longrightarrow> f a)" by simp
      then show ?thesis using True up by (subst (1 2) Search_loop.simps) (simp add: Let_def)
    next
      case dn: False
      have "\<And>a. a < ?h + 1 \<Longrightarrow> \<not> f a"
      proof -
        fix a assume "a < ?h + 1"
        then have "a \<le> ?h" by simp
        then show "\<not> f a" using dn "1.prems"(1) h(3) by blast
      qed
      with "1.IH"(1)[OF True refl dn] "1.prems" h have
        "(\<forall>a < Search_loop f (?h + 1) j. \<not> f a) \<and> (\<forall>a. Search_loop f (?h + 1) j \<le> a \<longrightarrow> a < n \<longrightarrow> f a)" by simp
      then show ?thesis using True dn by (subst (1 2) Search_loop.simps) (simp add: Let_def)
    qed
  next
    case False
    then show ?thesis using "1.prems" by (subst (1 2) Search_loop.simps) auto
  qed
qed

lemma Search_le: "Search n f \<le> n"
  using Search_loop_bounds[of 0 n f] by (simp add: Search_def)

lemma Search_least:
  assumes "\<And>a b. a \<le> b \<Longrightarrow> b < n \<Longrightarrow> f a \<Longrightarrow> f b"
  shows "a < Search n f \<Longrightarrow> \<not> f a" "Search n f \<le> a \<Longrightarrow> a < n \<Longrightarrow> f a"
  using Search_loop_least[of n f 0 n, OF assms] by (auto simp: Search_def)

text \<open>On a sorted list the search splits it into the smaller elements and the others.\<close>

lemma Search_sorted:
  fixes v :: "'b :: linorder"
  assumes "sorted (map key xs)"
  defines "i \<equiv> Search (length xs) (\<lambda>i. v \<le> key (xs ! i))"
  shows "\<forall>x \<in> set (take i xs). key x < v" "\<forall>x \<in> set (drop i xs). v \<le> key x"
proof -
  have mono: "v \<le> key (xs ! b)" if "a \<le> b" "b < length xs" "v \<le> key (xs ! a)" for a b
    using sorted_nth_mono[OF assms(1), of a b] that by simp
  note least = Search_least[of "length xs" "\<lambda>i. v \<le> key (xs ! i)", OF mono]
  show "\<forall>x \<in> set (take i xs). key x < v"
    using least(1) by (auto simp: i_def in_set_conv_nth not_le)
  show "\<forall>x \<in> set (drop i xs). v \<le> key x"
    using least(2) by (auto simp: i_def in_set_conv_nth)
qed

end
