(* ===== verification/Map_Order.thy ===== *)
theory Map_Order
  imports Tempest_Prelude "HOL-Library.Finite_Map"
begin

text \<open>
  Finite Go maps and the order in which \<open>range\<close> visits them. Where a component visits a map during a
  sequence of calls, every call carries an order of its own: a function that lists the keys of
  whatever map is visited. The theorems are for all functions that list every key once.
\<close>

type_synonym ('k, 'v) map_order = "('k, 'v) fmap \<Rightarrow> 'k list"

definition visits_all :: "('k, 'v) map_order \<Rightarrow> bool" where
  "visits_all ord \<longleftrightarrow> (\<forall>m. enumerates (ord m) (fmlookup m))"

text \<open>An order that exists: ascending keys.\<close>

definition sorted_order :: "('k :: linorder, 'v) map_order" where
  "sorted_order m = sorted_list_of_fset (fmdom m)"

lemma visits_all_sorted: "visits_all sorted_order"
  by (simp add: visits_all_def enumerates_def sorted_order_def fmdom.rep_eq sorted_list_of_fset.rep_eq)

text \<open>Counting the values that satisfy a condition does not depend on the order.\<close>

lemma count_values:
  assumes "enumerates ks m"
  shows "length (filter P (map_values ks m)) = card {k. \<exists>v. m k = Some v \<and> P v}"
proof -
  have "length (filter P (map_values ks m)) = length (filter (\<lambda>k. \<exists>v. m k = Some v \<and> P v) ks)"
    by (induction ks) (auto split: option.split)
  also have "\<dots> = card (set (filter (\<lambda>k. \<exists>v. m k = Some v \<and> P v) ks))"
    using assms by (intro distinct_card[symmetric]) (simp add: enumerates_def)
  also have "set (filter (\<lambda>k. \<exists>v. m k = Some v \<and> P v) ks) = {k. \<exists>v. m k = Some v \<and> P v}"
    using assms by (auto simp: enumerates_def)
  finally show ?thesis .
qed

lemma visits_all_count: "visits_all ord \<Longrightarrow> length (filter P (map_values (ord m) (fmlookup m))) = card {k. \<exists>v. fmlookup m k = Some v \<and> P v}"
  by (rule count_values) (simp add: visits_all_def)

lemma find_append: "find P (xs @ ys) = (case find P xs of Some x \<Rightarrow> Some x | None \<Rightarrow> find P ys)"
  by (induction xs) auto

lemma option_eqI: "(\<And>e. a = Some e \<longleftrightarrow> b = Some e) \<Longrightarrow> a = b"
  by (cases a; cases b) auto

end
