(* ===== verification/Compactor.thy ===== *)
theory Compactor
  imports Binary_Search Map_Order Refinement
begin

text \<open>
  \<open>internal/compactor\<close>: a store that collects writes in a table in memory, flushes it into immutable
  sorted tables, and merges these, dropping overwritten versions and tombstones. The orders in which
  a Go map is visited are arguments; the identifier of a table, a formatted clock reading, is one too.
  The keys that are sorted are distinct, so that the result of \<open>sort.Slice\<close> is determined.
\<close>

section \<open>Tables\<close>

datatype compactor_error = ErrStoreClosed

record Entry =
  ce_Key :: string
  ce_Value :: "8 word list"
  ce_Seq :: uint64
  ce_IsTombstone :: bool
  ce_Timestamp :: gotime

record SnapshotTable =
  sn_ID :: string
  sn_MinKey :: string
  sn_MaxKey :: string
  sn_Entries :: "Entry list"

definition NewSnapshotTable :: "string \<Rightarrow> Entry list \<Rightarrow> SnapshotTable" where
  "NewSnapshotTable ident entries =
     (if length entries = 0 then \<lparr>sn_ID = ident, sn_MinKey = '''', sn_MaxKey = '''', sn_Entries = []\<rparr>
      else \<lparr>sn_ID = ident, sn_MinKey = ce_Key (entries ! 0), sn_MaxKey = ce_Key (entries ! (length entries - 1)), sn_Entries = entries\<rparr>)"

definition SnapshotTable_Get :: "string \<Rightarrow> SnapshotTable \<Rightarrow> Entry option" where
  "SnapshotTable_Get key s =
     (if length (sn_Entries s) = 0 \<or> key < sn_MinKey s \<or> key > sn_MaxKey s then None
      else let i = Search (length (sn_Entries s)) (\<lambda>i. ce_Key (sn_Entries s ! i) \<ge> key) in
        if i < length (sn_Entries s) \<and> ce_Key (sn_Entries s ! i) = key then Some (sn_Entries s ! i) else None)"

section \<open>The store\<close>

record CompactorStore =
  cs_seqCounter :: uint64
  cs_flushThresh :: int
  cs_memTable :: "(string, Entry) fmap"
  cs_snapshots :: "SnapshotTable list"
  cs_closed :: bool

definition Compactor_DefaultConfig :: int where
  "Compactor_DefaultConfig = 50"

definition Compactor_New :: "int \<Rightarrow> CompactorStore" where
  "Compactor_New FlushThreshold =
     \<lparr>cs_seqCounter = 0, cs_flushThresh = (if FlushThreshold \<le> 0 then 50 else FlushThreshold),
      cs_memTable = fmempty, cs_snapshots = [], cs_closed = False\<rparr>"

definition flushLocked :: "string \<Rightarrow> (string, Entry) map_order \<Rightarrow> CompactorStore \<Rightarrow> CompactorStore" where
  "flushLocked tableID ord s =
     (if fcard (fmdom (cs_memTable s)) = 0 then s
      else let entries = sort_key ce_Key (map_values (ord (cs_memTable s)) (fmlookup (cs_memTable s))) in
        s\<lparr>cs_snapshots := cs_snapshots s @ [NewSnapshotTable tableID entries], cs_memTable := fmempty\<rparr>)"

text \<open>\<open>Put\<close> and \<open>Delete\<close> differ in the entry that they store.\<close>

definition flush_if_full :: "string \<Rightarrow> (string, Entry) map_order \<Rightarrow> CompactorStore \<Rightarrow> CompactorStore" where
  "flush_if_full tableID ord s =
     (if int (fcard (fmdom (cs_memTable s))) \<ge> cs_flushThresh s then flushLocked tableID ord s else s)"

definition Compactor_Put :: "string \<Rightarrow> 8 word list \<Rightarrow> gotime \<Rightarrow> string \<Rightarrow> (string, Entry) map_order \<Rightarrow> CompactorStore \<Rightarrow>
    CompactorStore \<times> (compactor_error + uint64)" where
  "Compactor_Put key val now tableID ord s =
     (if cs_closed s then (s, Inl ErrStoreClosed)
      else let seq = cs_seqCounter s + 1;
          e = \<lparr>ce_Key = key, ce_Value = val, ce_Seq = seq, ce_IsTombstone = False, ce_Timestamp = now\<rparr>;
          s1 = s\<lparr>cs_seqCounter := seq, cs_memTable := fmupd key e (cs_memTable s)\<rparr> in
        (flush_if_full tableID ord s1, Inr seq))"

definition Compactor_Delete :: "string \<Rightarrow> gotime \<Rightarrow> string \<Rightarrow> (string, Entry) map_order \<Rightarrow> CompactorStore \<Rightarrow>
    CompactorStore \<times> (compactor_error + uint64)" where
  "Compactor_Delete key now tableID ord s =
     (if cs_closed s then (s, Inl ErrStoreClosed)
      else let seq = cs_seqCounter s + 1;
          e = \<lparr>ce_Key = key, ce_Value = [], ce_Seq = seq, ce_IsTombstone = True, ce_Timestamp = now\<rparr>;
          s1 = s\<lparr>cs_seqCounter := seq, cs_memTable := fmupd key e (cs_memTable s)\<rparr> in
        (flush_if_full tableID ord s1, Inr seq))"

definition Compactor_Flush :: "string \<Rightarrow> (string, Entry) map_order \<Rightarrow> CompactorStore \<Rightarrow> CompactorStore \<times> compactor_error option" where
  "Compactor_Flush tableID ord s =
     (if cs_closed s then (s, Some ErrStoreClosed) else (flushLocked tableID ord s, None))"

fun get_from :: "string \<Rightarrow> SnapshotTable list \<Rightarrow> 8 word list option" where
  "get_from key [] = None"
| "get_from key (snap # older) =
     (case SnapshotTable_Get key snap of
        Some e \<Rightarrow> if ce_IsTombstone e then None else Some (ce_Value e)
      | None \<Rightarrow> get_from key older)"

definition Compactor_Get :: "string \<Rightarrow> CompactorStore \<Rightarrow> compactor_error + 8 word list option" where
  "Compactor_Get key s =
     (if cs_closed s then Inl ErrStoreClosed
      else Inr (case fmlookup (cs_memTable s) key of
          Some e \<Rightarrow> if ce_IsTombstone e then None else Some (ce_Value e)
        | None \<Rightarrow> get_from key (rev (cs_snapshots s))))"

definition keep_latest :: "Entry \<Rightarrow> (string, Entry) fmap \<Rightarrow> (string, Entry) fmap" where
  "keep_latest e latestMap =
     (case fmlookup latestMap (ce_Key e) of
        None \<Rightarrow> fmupd (ce_Key e) e latestMap
      | Some existing \<Rightarrow> if ce_Seq e > ce_Seq existing then fmupd (ce_Key e) e latestMap else latestMap)"

definition Compactor_Compact :: "string \<Rightarrow> (string, Entry) map_order \<Rightarrow> (string, Entry) map_order \<Rightarrow> CompactorStore \<Rightarrow>
    CompactorStore \<times> compactor_error option" where
  "Compactor_Compact tableID ord ord2 s =
     (if cs_closed s then (s, Some ErrStoreClosed)
      else let s1 = flushLocked tableID ord s in
        if length (cs_snapshots s1) \<le> 1
        then if length (cs_snapshots s1) = 1
          then let live = filter (\<lambda>e. \<not> ce_IsTombstone e) (sn_Entries (cs_snapshots s1 ! 0)) in
            (s1\<lparr>cs_snapshots := (cs_snapshots s1)[0 := NewSnapshotTable ''compacted'' live]\<rparr>, None)
          else (s1, None)
        else let latestMap = fold (\<lambda>snap. fold keep_latest (sn_Entries snap)) (cs_snapshots s1) fmempty;
            liveEntries = filter (\<lambda>e. \<not> ce_IsTombstone e) (map_values (ord2 latestMap) (fmlookup latestMap)) in
          (s1\<lparr>cs_snapshots := [NewSnapshotTable ''compacted'' (sort_key ce_Key liveEntries)]\<rparr>, None))"

definition note_first :: "Entry \<Rightarrow> (string, bool) fmap \<Rightarrow> (string, bool) fmap" where
  "note_first e seen =
     (case fmlookup seen (ce_Key e) of
        Some _ \<Rightarrow> seen
      | None \<Rightarrow> if \<not> ce_IsTombstone e then fmupd (ce_Key e) True seen else fmupd (ce_Key e) False seen)"

definition Compactor_Stats :: "(string, bool) map_order \<Rightarrow> CompactorStore \<Rightarrow> nat \<times> nat" where
  "Compactor_Stats ord s =
     (let seen = fmmap (\<lambda>e. \<not> ce_IsTombstone e) (cs_memTable s);
        seen = fold (\<lambda>snap. fold note_first (sn_Entries snap)) (rev (cs_snapshots s)) seen in
      (length (filter id (map_values (ord seen) (fmlookup seen))), length (cs_snapshots s)))"

definition Compactor_Close :: "CompactorStore \<Rightarrow> CompactorStore" where
  "Compactor_Close s = s\<lparr>cs_closed := True\<rparr>"

section \<open>The specification: a map\<close>

datatype comp_op =
    CPut string "8 word list" gotime string "(string, Entry) map_order"
  | CDelete string gotime string "(string, Entry) map_order"
  | CFlush string "(string, Entry) map_order"
  | CCompact string "(string, Entry) map_order" "(string, Entry) map_order"
  | CGet string
  | CStats "(string, bool) map_order"
  | CClose

datatype comp_response =
    RSeq "compactor_error + uint64"
  | RErr "compactor_error option"
  | RValue "compactor_error + 8 word list option"
  | RLive nat
  | RNone

fun comp_step :: "comp_op \<Rightarrow> CompactorStore \<Rightarrow> CompactorStore \<times> comp_response" where
  "comp_step (CPut k v t i ord) s = map_prod id RSeq (Compactor_Put k v t i ord s)"
| "comp_step (CDelete k t i ord) s = map_prod id RSeq (Compactor_Delete k t i ord s)"
| "comp_step (CFlush i ord) s = map_prod id RErr (Compactor_Flush i ord s)"
| "comp_step (CCompact i ord ord2) s = map_prod id RErr (Compactor_Compact i ord ord2 s)"
| "comp_step (CGet k) s = (s, RValue (Compactor_Get k s))"
| "comp_step (CStats ord) s = (s, RLive (fst (Compactor_Stats ord s)))"
| "comp_step CClose s = (Compactor_Close s, RNone)"

record kv_state =
  kv_seq :: uint64
  kv_map :: "(string, 8 word list) fmap"
  kv_closed :: bool

definition kv_empty :: kv_state where
  "kv_empty = \<lparr>kv_seq = 0, kv_map = fmempty, kv_closed = False\<rparr>"

fun kv_step :: "comp_op \<Rightarrow> kv_state \<Rightarrow> kv_state \<times> comp_response" where
  "kv_step (CPut k v t i ord) m =
     (if kv_closed m then (m, RSeq (Inl ErrStoreClosed))
      else (m\<lparr>kv_seq := kv_seq m + 1, kv_map := fmupd k v (kv_map m)\<rparr>, RSeq (Inr (kv_seq m + 1))))"
| "kv_step (CDelete k t i ord) m =
     (if kv_closed m then (m, RSeq (Inl ErrStoreClosed))
      else (m\<lparr>kv_seq := kv_seq m + 1, kv_map := fmdrop k (kv_map m)\<rparr>, RSeq (Inr (kv_seq m + 1))))"
| "kv_step (CFlush i ord) m = (m, RErr (if kv_closed m then Some ErrStoreClosed else None))"
| "kv_step (CCompact i ord ord2) m = (m, RErr (if kv_closed m then Some ErrStoreClosed else None))"
| "kv_step (CGet k) m = (m, RValue (if kv_closed m then Inl ErrStoreClosed else Inr (fmlookup (kv_map m) k)))"
| "kv_step (CStats ord) m = (m, RLive (fcard (fmdom (kv_map m))))"
| "kv_step CClose m = (m\<lparr>kv_closed := True\<rparr>, RNone)"

fun op_orders_ok :: "comp_op \<Rightarrow> bool" where
  "op_orders_ok (CPut k v t i ord) = visits_all ord"
| "op_orders_ok (CDelete k t i ord) = visits_all ord"
| "op_orders_ok (CFlush i ord) = visits_all ord"
| "op_orders_ok (CCompact i ord ord2) \<longleftrightarrow> visits_all ord \<and> visits_all ord2"
| "op_orders_ok (CStats ord) = visits_all ord"
| "op_orders_ok _ = True"

section \<open>What a store holds\<close>

definition last_entry :: "Entry list \<Rightarrow> string \<Rightarrow> Entry option" where
  "last_entry es k = find (\<lambda>e. ce_Key e = k) (rev es)"

definition all_entries :: "CompactorStore \<Rightarrow> Entry list" where
  "all_entries s = concat (map sn_Entries (cs_snapshots s))"

definition current :: "CompactorStore \<Rightarrow> string \<Rightarrow> Entry option" where
  "current s k = (case fmlookup (cs_memTable s) k of Some e \<Rightarrow> Some e | None \<Rightarrow> last_entry (all_entries s) k)"

fun live_value :: "Entry option \<Rightarrow> 8 word list option" where
  "live_value None = None"
| "live_value (Some e) = (if ce_IsTombstone e then None else Some (ce_Value e))"

lemma last_entry_Nil [simp]: "last_entry [] k = None"
  by (simp add: last_entry_def)

lemma last_entry_append: "last_entry (es @ fs) k = (case last_entry fs k of Some e \<Rightarrow> Some e | None \<Rightarrow> last_entry es k)"
  unfolding last_entry_def by (simp add: find_append)

lemma last_entry_SomeD: "last_entry es k = Some e \<Longrightarrow> e \<in> set es \<and> ce_Key e = k"
  unfolding last_entry_def by (auto dest: find_Some_prop)

lemma last_entry_None: "last_entry es k = None \<longleftrightarrow> k \<notin> ce_Key ` set es"
  by (auto simp: last_entry_def find_None_iff)

lemma distinct_keys_eq: "distinct (map ce_Key es) \<Longrightarrow> e \<in> set es \<Longrightarrow> e' \<in> set es \<Longrightarrow> ce_Key e = ce_Key e' \<Longrightarrow> e = e'"
  by (meson distinct_map inj_onD)

lemma last_entry_distinct:
  assumes "distinct (map ce_Key es)"
  shows "last_entry es k = Some e \<longleftrightarrow> e \<in> set es \<and> ce_Key e = k"
proof
  assume e: "e \<in> set es \<and> ce_Key e = k"
  then have "last_entry es k \<noteq> None" by (auto simp: last_entry_None)
  then obtain e' where e': "last_entry es k = Some e'" by blast
  show "last_entry es k = Some e"
    using e e' last_entry_SomeD[OF e'] distinct_keys_eq[OF assms] by simp
qed (rule last_entry_SomeD)

lemma find_distinct_last:
  assumes "distinct (map ce_Key es)"
  shows "find (\<lambda>e. ce_Key e = k) es = last_entry es k"
proof -
  have "distinct (map ce_Key (rev es))" using assms by (simp add: rev_map[symmetric])
  then have "last_entry (rev es) k = last_entry es k"
    by (intro option_eqI) (simp add: last_entry_distinct assms)
  then show ?thesis by (simp add: last_entry_def)
qed

lemma last_entry_filter:
  assumes "distinct (map ce_Key es)"
  shows "last_entry (filter P es) k = (case last_entry es k of None \<Rightarrow> None | Some e \<Rightarrow> if P e then Some e else None)"
proof -
  have d: "distinct (map ce_Key (filter P es))" using assms by (simp add: distinct_map_filter)
  have "last_entry (filter P es) k = Some e \<longleftrightarrow> last_entry es k = Some e \<and> P e" for e
    unfolding last_entry_distinct[OF d] last_entry_distinct[OF assms] by auto
  then show ?thesis by (intro option_eqI) (auto split: option.split)
qed

section \<open>Tables are searched correctly\<close>

definition table_wf :: "SnapshotTable \<Rightarrow> bool" where
  "table_wf t \<longleftrightarrow> (\<exists>ident es. t = NewSnapshotTable ident es) \<and> sorted_wrt (<) (map ce_Key (sn_Entries t))"

lemma sn_Entries_New [simp]: "sn_Entries (NewSnapshotTable ident es) = es"
  by (simp add: NewSnapshotTable_def)

lemma table_wf_New: "sorted_wrt (<) (map ce_Key es) \<Longrightarrow> table_wf (NewSnapshotTable ident es)"
  by (auto simp: table_wf_def)

lemma table_wf_distinct: "table_wf t \<Longrightarrow> distinct (map ce_Key (sn_Entries t))"
  by (simp add: table_wf_def strict_sorted_iff)

lemma last_entry_Search:
  assumes srt: "sorted (map ce_Key es)" and dst: "distinct (map ce_Key es)"
    and i: "i = Search (length es) (\<lambda>i. ce_Key (es ! i) \<ge> key)"
  shows "last_entry es key = (if i < length es \<and> ce_Key (es ! i) = key then Some (es ! i) else None)"
proof (cases "i < length es \<and> ce_Key (es ! i) = key")
  case True
  then show ?thesis using last_entry_distinct[OF dst, of key] by auto
next
  case False
  note parts = Search_sorted[OF srt, of key, folded i]
  have "ce_Key e \<noteq> key" if e: "e \<in> set es" for e
  proof
    assume k: "ce_Key e = key"
    have "e \<in> set (take i es) \<union> set (drop i es)" using e by (metis append_take_drop_id set_append)
    then have d: "e \<in> set (drop i es)" using parts(1) k by auto
    then have il: "i < length es" by (cases "i < length es") auto
    have "key \<le> ce_Key (es ! i)" using parts(2) il by (simp add: Cons_nth_drop_Suc[symmetric])
    moreover obtain j where "j < length es - i" "e = es ! (i + j)" using d by (auto simp: in_set_conv_nth)
    then have "ce_Key (es ! i) \<le> ce_Key e" using sorted_nth_mono[OF srt, of i "i + j"] il by simp
    ultimately show False using False il k by simp
  qed
  then have "last_entry es key = None" by (auto simp: last_entry_None)
  then show ?thesis using False by simp
qed

lemma last_entry_outside:
  assumes srt: "sorted (map ce_Key es)" and out: "es = [] \<or> key < ce_Key (es ! 0) \<or> ce_Key (es ! (length es - 1)) < key"
  shows "last_entry es key = None"
proof -
  have "ce_Key e \<noteq> key" if e: "e \<in> set es" for e
  proof -
    obtain j where j: "j < length es" "e = es ! j" using e by (auto simp: in_set_conv_nth)
    then have ne: "0 < length es" "j \<le> length es - 1" by auto
    then have "ce_Key (es ! 0) \<le> ce_Key e" "ce_Key e \<le> ce_Key (es ! (length es - 1))"
      using sorted_nth_mono[OF srt, of 0 j] sorted_nth_mono[OF srt, of j "length es - 1"] j by (simp_all add: nth_map[OF ne(1)])
    then show ?thesis using out e by auto
  qed
  then show ?thesis by (auto simp: last_entry_None)
qed

lemma SnapshotTable_Get_last:
  assumes "table_wf t"
  shows "SnapshotTable_Get key t = last_entry (sn_Entries t) key"
proof -
  obtain ident es where t: "t = NewSnapshotTable ident es" using assms by (auto simp: table_wf_def)
  then have srt: "sorted (map ce_Key es)" and dst: "distinct (map ce_Key es)"
    using assms by (simp_all add: table_wf_def strict_sorted_iff)
  show ?thesis
  proof (cases "es = [] \<or> key < ce_Key (es ! 0) \<or> ce_Key (es ! (length es - 1)) < key")
    case True
    then show ?thesis using last_entry_outside[OF srt True] by (auto simp: t SnapshotTable_Get_def NewSnapshotTable_def)
  next
    case False
    then show ?thesis
      unfolding t sn_Entries_New last_entry_Search[OF srt dst refl]
      by (simp add: SnapshotTable_Get_def NewSnapshotTable_def Let_def)
  qed
qed

lemma get_from_last:
  "\<forall>t \<in> set ts. table_wf t \<Longrightarrow> get_from key (rev ts) = live_value (last_entry (concat (map sn_Entries ts)) key)"
proof (induction ts rule: rev_induct)
  case (snoc t ts)
  then show ?case by (simp add: last_entry_append SnapshotTable_Get_last split: option.splits)
qed simp

section \<open>The invariant\<close>

text \<open>
  Entries carry the key they are stored under; the versions of a key have increasing sequence numbers in
  the order of the tables, the table in memory last.
\<close>

definition newer :: "Entry \<Rightarrow> Entry \<Rightarrow> bool" where
  "newer e e' \<longleftrightarrow> (ce_Key e = ce_Key e' \<longrightarrow> ce_Seq e < ce_Seq e')"

definition comp_inv :: "CompactorStore \<Rightarrow> bool" where
  "comp_inv s \<longleftrightarrow> (\<forall>t \<in> set (cs_snapshots s). table_wf t) \<and> sorted_wrt newer (all_entries s) \<and>
     (\<forall>e \<in> set (all_entries s). ce_Seq e \<le> cs_seqCounter s) \<and>
     (\<forall>k e. fmlookup (cs_memTable s) k = Some e \<longrightarrow> ce_Key e = k \<and> ce_Seq e \<le> cs_seqCounter s \<and> (\<forall>e' \<in> set (all_entries s). newer e' e))"

definition represents :: "CompactorStore \<Rightarrow> kv_state \<Rightarrow> bool" where
  "represents s m \<longleftrightarrow> kv_seq m = cs_seqCounter s \<and> kv_closed m = cs_closed s \<and> (\<forall>k. fmlookup (kv_map m) k = live_value (current s k))"

lemma distinct_sorted_newer: "distinct (map ce_Key es) \<Longrightarrow> sorted_wrt newer es"
  by (induction es) (auto simp: newer_def image_iff)

subsection \<open>Sorting the values of a map\<close>

definition keyed :: "(string, Entry) fmap \<Rightarrow> bool" where
  "keyed m \<longleftrightarrow> (\<forall>k e. fmlookup m k = Some e \<longrightarrow> ce_Key e = k)"

lemma map_key_values:
  assumes "keyed m"
  shows "set ks \<subseteq> dom (fmlookup m) \<Longrightarrow> map ce_Key (map_values ks (fmlookup m)) = ks"
proof (induction ks)
  case (Cons k ks)
  then obtain e where "fmlookup m k = Some e" by (auto simp: fmlookup_dom'_iff)
  then show ?case using Cons assms by (simp add: keyed_def)
qed simp

lemma distinct_key_values:
  assumes "keyed m" "visits_all ord"
  shows "distinct (map ce_Key (map_values (ord m) (fmlookup m)))" "set (map_values (ord m) (fmlookup m)) = ran (fmlookup m)"
proof -
  have e: "enumerates (ord m) (fmlookup m)" using assms(2) by (simp add: visits_all_def)
  show "distinct (map ce_Key (map_values (ord m) (fmlookup m)))"
    using e map_key_values[OF assms(1), of "ord m"] by (simp add: enumerates_def)
  show "set (map_values (ord m) (fmlookup m)) = ran (fmlookup m)" by (rule set_map_values_enum[OF e])
qed

lemma sorted_distinct_strict:
  assumes "distinct (map ce_Key es)"
  shows "sorted_wrt (<) (map ce_Key (sort_key ce_Key es))" "distinct (map ce_Key (sort_key ce_Key es))"
proof -
  show d: "distinct (map ce_Key (sort_key ce_Key es))" using assms by (simp add: distinct_map)
  show "sorted_wrt (<) (map ce_Key (sort_key ce_Key es))" using d by (simp add: strict_sorted_iff)
qed

lemma last_entry_ran:
  assumes "keyed m" "distinct (map ce_Key es)" "set es = ran (fmlookup m)"
  shows "last_entry es k = fmlookup m k"
proof (rule option_eqI)
  fix e
  show "last_entry es k = Some e \<longleftrightarrow> fmlookup m k = Some e"
    unfolding last_entry_distinct[OF assms(2)] assms(3) using assms(1) by (auto simp: keyed_def ran_def)
qed

subsection \<open>Flushing\<close>

lemma comp_inv_keyed: "comp_inv s \<Longrightarrow> keyed (cs_memTable s)"
  by (auto simp: comp_inv_def keyed_def)

definition flush_entries :: "(string, Entry) map_order \<Rightarrow> CompactorStore \<Rightarrow> Entry list" where
  "flush_entries ord s = sort_key ce_Key (map_values (ord (cs_memTable s)) (fmlookup (cs_memTable s)))"

lemma flush_entries_props:
  assumes "comp_inv s" "visits_all ord"
  shows "sorted_wrt (<) (map ce_Key (flush_entries ord s))" "distinct (map ce_Key (flush_entries ord s))"
    "set (flush_entries ord s) = ran (fmlookup (cs_memTable s))" "last_entry (flush_entries ord s) k = fmlookup (cs_memTable s) k"
proof -
  note k = comp_inv_keyed[OF assms(1)]
  note d = distinct_key_values[OF k assms(2)]
  show 1: "sorted_wrt (<) (map ce_Key (flush_entries ord s))" "distinct (map ce_Key (flush_entries ord s))"
    unfolding flush_entries_def by (rule sorted_distinct_strict[OF d(1)])+
  show 2: "set (flush_entries ord s) = ran (fmlookup (cs_memTable s))" using d(2) by (simp add: flush_entries_def)
  show "last_entry (flush_entries ord s) k = fmlookup (cs_memTable s) k" by (rule last_entry_ran[OF k 1(2) 2])
qed

lemma flushLocked_empty: "fcard (fmdom (cs_memTable s)) = 0 \<longleftrightarrow> cs_memTable s = fmempty"
  by (metis fcard_0_eq fmdom_empty fmrestrict_fset_dom fmrestrict_fset_null)

lemma flushLocked_fields:
  "cs_seqCounter (flushLocked i ord s) = cs_seqCounter s" "cs_closed (flushLocked i ord s) = cs_closed s"
  "cs_memTable (flushLocked i ord s) = fmempty"
  "cs_memTable s \<noteq> fmempty \<Longrightarrow> cs_snapshots (flushLocked i ord s) = cs_snapshots s @ [NewSnapshotTable i (flush_entries ord s)]"
  unfolding flushLocked_def flushLocked_empty by (simp_all add: flush_entries_def Let_def)

lemma flushLocked_inv:
  assumes inv: "comp_inv s" and ord: "visits_all ord"
  shows "comp_inv (flushLocked i ord s)" "current (flushLocked i ord s) k = current s k"
proof -
  have "comp_inv (flushLocked i ord s) \<and> current (flushLocked i ord s) k = current s k"
  proof (cases "cs_memTable s = fmempty")
    case True
    then show ?thesis using inv by (simp add: flushLocked_def)
  next
    case False
    note f = flush_entries_props[OF inv ord]
    have all: "all_entries (flushLocked i ord s) = all_entries s @ flush_entries ord s"
      by (simp add: all_entries_def flushLocked_fields(4)[OF False])
    have mem: "ce_Seq e \<le> cs_seqCounter s \<and> (\<forall>e' \<in> set (all_entries s). newer e' e)" if "e \<in> set (flush_entries ord s)" for e
      using that inv unfolding f(3) by (auto simp: ran_def comp_inv_def)
    have "comp_inv (flushLocked i ord s)"
      unfolding comp_inv_def all flushLocked_fields(1,3) flushLocked_fields(4)[OF False]
      using inv mem table_wf_New[OF f(1)] distinct_sorted_newer[OF f(2)]
      by (auto simp: comp_inv_def sorted_wrt_append)
    moreover have "current (flushLocked i ord s) k = current s k"
      by (simp add: current_def all flushLocked_fields(3) last_entry_append f(4) split: option.split)
    ultimately show ?thesis by simp
  qed
  then show "comp_inv (flushLocked i ord s)" "current (flushLocked i ord s) k = current s k" by simp_all
qed

subsection \<open>Merging\<close>

lemma fold_tables: "fold (\<lambda>t. fold f (sn_Entries t)) ts m = fold f (concat (map sn_Entries ts)) m"
  by (induction ts arbitrary: m) simp_all

lemma keep_latest_fold: "sorted_wrt newer es \<Longrightarrow> fmlookup (fold keep_latest es fmempty) k = last_entry es k"
proof (induction es arbitrary: k rule: rev_induct)
  case (snoc e es)
  then have srt: "sorted_wrt newer es" and new: "\<forall>e' \<in> set es. newer e' e" by (simp_all add: sorted_wrt_append)
  have "ce_Seq x < ce_Seq e" if "last_entry es (ce_Key e) = Some x" for x
    using new last_entry_SomeD[OF that] by (simp add: newer_def)
  then have "fold keep_latest (es @ [e]) fmempty = fmupd (ce_Key e) e (fold keep_latest es fmempty)"
    by (simp add: keep_latest_def snoc.IH[OF srt] split: option.split)
  then show ?case by (simp add: snoc.IH[OF srt] last_entry_append) (simp add: last_entry_def)
qed simp

lemma compacted_inv:
  assumes inv: "comp_inv s" "cs_memTable s = fmempty"
    and es: "sorted_wrt (<) (map ce_Key es)" "set es \<subseteq> set (all_entries s)"
    and get: "\<And>k. last_entry es k = (case last_entry (all_entries s) k of None \<Rightarrow> None | Some e \<Rightarrow> if \<not> ce_IsTombstone e then Some e else None)"
    and s': "s' = s\<lparr>cs_snapshots := [NewSnapshotTable ident es]\<rparr>"
  shows "comp_inv s' \<and> live_value (current s' k) = live_value (current s k)"
proof -
  have all: "all_entries s' = es" by (simp add: all_entries_def s')
  have "comp_inv s'"
    unfolding comp_inv_def all using inv es table_wf_New[OF es(1)] distinct_sorted_newer[of es]
    by (auto simp: s' comp_inv_def strict_sorted_iff)
  moreover have "live_value (current s' k) = live_value (current s k)"
    unfolding current_def all get by (simp add: s' inv(2) split: option.split)
  ultimately show ?thesis by simp
qed

lemma Compact_merge:
  assumes inv: "comp_inv s" "cs_memTable s = fmempty" and ord: "visits_all ord2"
  defines "latestMap \<equiv> fold (\<lambda>snap. fold keep_latest (sn_Entries snap)) (cs_snapshots s) fmempty"
  defines "es \<equiv> filter (\<lambda>e. \<not> ce_IsTombstone e) (map_values (ord2 latestMap) (fmlookup latestMap))"
  shows "comp_inv (s\<lparr>cs_snapshots := [NewSnapshotTable ident (sort_key ce_Key es)]\<rparr>) \<and>
    live_value (current (s\<lparr>cs_snapshots := [NewSnapshotTable ident (sort_key ce_Key es)]\<rparr>) k) = live_value (current s k)"
proof -
  have get: "fmlookup latestMap k = last_entry (all_entries s) k" for k
    unfolding latestMap_def fold_tables all_entries_def[symmetric]
    using inv(1) by (intro keep_latest_fold) (simp add: comp_inv_def)
  have keyed: "keyed latestMap" unfolding keyed_def get using last_entry_SomeD by blast
  note v = distinct_key_values[OF keyed ord]
  have d: "distinct (map ce_Key es)" using v(1) by (simp add: es_def distinct_map_filter)
  note srt = sorted_distinct_strict[OF d]
  have "set (sort_key ce_Key es) \<subseteq> set (all_entries s)"
    using v(2) last_entry_SomeD by (fastforce simp: es_def ran_def get)
  moreover have "last_entry (sort_key ce_Key es) k = (case last_entry (all_entries s) k of None \<Rightarrow> None | Some e \<Rightarrow> if \<not> ce_IsTombstone e then Some e else None)" for k
  proof -
    have "last_entry (sort_key ce_Key es) k = last_entry es k"
      by (rule option_eqI) (simp add: last_entry_distinct[OF srt(2)] last_entry_distinct[OF d])
    also have "\<dots> = (case last_entry (all_entries s) k of None \<Rightarrow> None | Some e \<Rightarrow> if \<not> ce_IsTombstone e then Some e else None)"
      unfolding es_def last_entry_filter[OF v(1)] last_entry_ran[OF keyed v] get ..
    finally show ?thesis .
  qed
  ultimately show ?thesis by (intro compacted_inv[OF inv srt(1)]) simp_all
qed

lemma Compact_single:
  assumes inv: "comp_inv s" "cs_memTable s = fmempty" and one: "cs_snapshots s = [t]"
  defines "es \<equiv> filter (\<lambda>e. \<not> ce_IsTombstone e) (sn_Entries t)"
  shows "comp_inv (s\<lparr>cs_snapshots := [NewSnapshotTable ident es]\<rparr>) \<and>
    live_value (current (s\<lparr>cs_snapshots := [NewSnapshotTable ident es]\<rparr>) k) = live_value (current s k)"
proof -
  have wf: "table_wf t" using inv(1) one by (simp add: comp_inv_def)
  have all: "all_entries s = sn_Entries t" by (simp add: all_entries_def one)
  have "sorted_wrt (<) (map ce_Key es)"
    using wf by (simp add: es_def table_wf_def sorted_wrt_map sorted_wrt_filter)
  moreover have "set es \<subseteq> set (all_entries s)" by (auto simp: es_def all)
  ultimately show ?thesis
    by (rule compacted_inv[OF inv]) (simp_all add: all es_def last_entry_filter[OF table_wf_distinct[OF wf]])
qed

lemma Compactor_Compact_inv:
  assumes inv: "comp_inv s" and ord: "visits_all ord" "visits_all ord2"
    and s'_def: "s' = fst (Compactor_Compact i ord ord2 s)"
  shows "comp_inv s' \<and> live_value (current s' k) = live_value (current s k) \<and> cs_seqCounter s' = cs_seqCounter s \<and> cs_closed s' = cs_closed s"
proof (cases "cs_closed s")
  case True
  then show ?thesis using inv by (simp add: s'_def Compactor_Compact_def)
next
  case False
  define s1 where "s1 = flushLocked i ord s"
  have inv1: "comp_inv s1" "cs_memTable s1 = fmempty" and cur: "current s1 k = current s k"
    using flushLocked_inv[OF inv ord(1)] flushLocked_fields(3) by (simp_all add: s1_def)
  have f: "cs_seqCounter s1 = cs_seqCounter s" "cs_closed s1 = cs_closed s" by (simp_all add: s1_def flushLocked_fields)
  consider "cs_snapshots s1 = []" | t where "cs_snapshots s1 = [t]" | "\<not> length (cs_snapshots s1) \<le> 1"
    by (metis One_nat_def Suc_leI Suc_length_conv le_SucE le_zero_eq length_0_conv not_less_eq_eq)
  then show ?thesis
  proof cases
    case 1
    then show ?thesis using inv1 cur f False by (simp add: s'_def Compactor_Compact_def s1_def[symmetric])
  next
    case (2 t)
    then show ?thesis using Compact_single[OF inv1 2, of "''compacted''" k] cur f False
      by (simp add: s'_def Compactor_Compact_def s1_def[symmetric])
  next
    case 3
    then show ?thesis using Compact_merge[OF inv1 ord(2), of "''compacted''" k] cur f False
      by (simp add: s'_def Compactor_Compact_def s1_def[symmetric] Let_def)
  qed
qed

subsection \<open>Writing, reading, counting\<close>

lemma seq_less:
  fixes c :: uint64
  assumes "Suc (unat c) < 2 ^ 64"
  shows "c < c + 1" "unat (c + 1) = Suc (unat c)" "x \<le> c \<Longrightarrow> x < c + 1"
proof -
  show u: "unat (c + 1) = Suc (unat c)" using assms by (simp add: unat_word_ariths(1) mod_less)
  show "c < c + 1" using u by (simp add: word_less_nat_alt)
  then show "x \<le> c \<Longrightarrow> x < c + 1" by simp
qed

lemma flush_if_full_inv:
  assumes "comp_inv s" "visits_all ord"
  shows "comp_inv (flush_if_full i ord s)" "current (flush_if_full i ord s) k = current s k"
    "cs_seqCounter (flush_if_full i ord s) = cs_seqCounter s" "cs_closed (flush_if_full i ord s) = cs_closed s"
  using assms flushLocked_inv[OF assms] by (simp_all add: flush_if_full_def flushLocked_fields)

lemma write_inv:
  assumes inv: "comp_inv s" and seq: "Suc (unat (cs_seqCounter s)) < 2 ^ 64" and ord: "visits_all ord"
    and e: "ce_Key e = key" "ce_Seq e = cs_seqCounter s + 1"
    and s': "s' = flush_if_full i ord (s\<lparr>cs_seqCounter := cs_seqCounter s + 1, cs_memTable := fmupd key e (cs_memTable s)\<rparr>)"
  shows "comp_inv s'" "current s' k = (if k = key then Some e else current s k)"
    "cs_seqCounter s' = cs_seqCounter s + 1" "cs_closed s' = cs_closed s"
proof -
  let ?s1 = "s\<lparr>cs_seqCounter := cs_seqCounter s + 1, cs_memTable := fmupd key e (cs_memTable s)\<rparr>"
  have all: "all_entries ?s1 = all_entries s" by (simp add: all_entries_def)
  note lt = seq_less[OF seq]
  have old: "ce_Seq x < cs_seqCounter s + 1" if "x \<in> set (all_entries s)" for x
    using inv that lt(3) by (simp add: comp_inv_def)
  have inv1: "comp_inv ?s1"
    unfolding comp_inv_def all using inv e old lt(3)
    by (auto simp: comp_inv_def newer_def less_imp_le)
  have cur: "current ?s1 k = (if k = key then Some e else current s k)"
    unfolding current_def all by simp
  note f = flush_if_full_inv[OF inv1 ord, of i]
  show "comp_inv s'" "cs_seqCounter s' = cs_seqCounter s + 1" "cs_closed s' = cs_closed s" using f(1,3,4) by (simp_all add: s')
  show "current s' k = (if k = key then Some e else current s k)" unfolding s' f(2) by (rule cur)
qed

lemma Compactor_Get_current:
  "comp_inv s \<Longrightarrow> Compactor_Get key s = (if cs_closed s then Inl ErrStoreClosed else Inr (live_value (current s key)))"
  using get_from_last[of "cs_snapshots s" key]
  by (simp add: Compactor_Get_def current_def comp_inv_def all_entries_def split: option.split)

lemma note_first_fold:
  "fmlookup (fold note_first es m) k =
     (case fmlookup m k of Some b \<Rightarrow> Some b | None \<Rightarrow> map_option (\<lambda>e. \<not> ce_IsTombstone e) (find (\<lambda>e. ce_Key e = k) es))"
  by (induction es arbitrary: m) (auto simp: note_first_def split: option.split)

lemma find_newest_first:
  "\<forall>t \<in> set ts. table_wf t \<Longrightarrow> find (\<lambda>e. ce_Key e = k) (concat (map sn_Entries (rev ts))) = last_entry (concat (map sn_Entries ts)) k"
proof (induction ts rule: rev_induct)
  case (snoc t ts)
  then show ?case by (simp add: find_append last_entry_append find_distinct_last[OF table_wf_distinct] split: option.split)
qed simp

lemma live_value_Some: "live_value x \<noteq> None \<longleftrightarrow> map_option (\<lambda>e. \<not> ce_IsTombstone e) x = Some True"
  by (cases x) simp_all

lemma Stats_current:
  assumes "comp_inv s" "visits_all ord"
  shows "fst (Compactor_Stats ord s) = card {k. live_value (current s k) \<noteq> None}"
proof -
  let ?seen = "fold (\<lambda>snap. fold note_first (sn_Entries snap)) (rev (cs_snapshots s)) (fmmap (\<lambda>e. \<not> ce_IsTombstone e) (cs_memTable s))"
  have "fmlookup ?seen k = map_option (\<lambda>e. \<not> ce_IsTombstone e) (current s k)" for k
    unfolding fold_tables note_first_fold
    using assms(1) find_newest_first[of "cs_snapshots s" k]
    by (simp add: current_def all_entries_def comp_inv_def split: option.split)
  then have "{k. fmlookup ?seen k = Some True} = {k. live_value (current s k) \<noteq> None}"
    by (simp only: live_value_Some)
  moreover have "{k. \<exists>v. fmlookup ?seen k = Some v \<and> id v} = {k. fmlookup ?seen k = Some True}" by auto
  ultimately show ?thesis using visits_all_count[OF assms(2), of id ?seen] by (simp only: Compactor_Stats_def Let_def fst_conv)
qed

section \<open>The store refines a map\<close>

lemma comp_step_refines:
  assumes inv: "comp_inv s" and rep: "represents s m" and seq: "Suc (unat (cs_seqCounter s)) < 2 ^ 64" and ok: "op_orders_ok op"
  shows "comp_inv (fst (comp_step op s)) \<and> represents (fst (comp_step op s)) (fst (kv_step op m)) \<and>
    snd (comp_step op s) = snd (kv_step op m) \<and> unat (cs_seqCounter (fst (comp_step op s))) \<le> Suc (unat (cs_seqCounter s))"
proof (cases op)
  case (CPut k v t i ord)
  then have "visits_all ord" using ok by simp
  note w = write_inv[OF inv seq this _ _ refl, where key = k and i = i]
  show ?thesis using rep inv w seq_less(2)[OF seq]
    by (cases "cs_closed s") (simp_all add: CPut Compactor_Put_def represents_def Let_def)
next
  case (CDelete k t i ord)
  then have "visits_all ord" using ok by simp
  note w = write_inv[OF inv seq this _ _ refl, where key = k and i = i]
  show ?thesis using rep inv w seq_less(2)[OF seq]
    by (cases "cs_closed s") (simp_all add: CDelete Compactor_Delete_def represents_def Let_def)
next
  case (CFlush i ord)
  then show ?thesis using rep inv ok flushLocked_inv[OF inv]
    by (simp add: Compactor_Flush_def represents_def flushLocked_fields)
next
  case (CCompact i ord ord2)
  then have ords: "visits_all ord" "visits_all ord2" using ok by simp_all
  have "snd (Compactor_Compact i ord ord2 s) = (if cs_closed s then Some ErrStoreClosed else None)"
    by (simp add: Compactor_Compact_def Let_def)
  then show ?thesis using rep Compactor_Compact_inv[OF inv ords refl]
    by (simp add: CCompact represents_def)
next
  case (CGet k)
  then show ?thesis using rep inv by (simp add: Compactor_Get_current represents_def)
next
  case (CStats ord)
  have "fcard (fmdom (kv_map m)) = card {k. live_value (current s k) \<noteq> None}"
    using rep by (simp add: represents_def fcard.rep_eq fmdom.rep_eq dom_def flip: fmlookup_dom_iff)
  then show ?thesis using CStats rep inv ok Stats_current[OF inv, of ord] by simp
next
  case CClose
  then show ?thesis using rep inv
    by (simp add: Compactor_Close_def represents_def comp_inv_def current_def all_entries_def split: option.split)
qed

lemma run_comp_refines:
  assumes "comp_inv s" "represents s m" "unat (cs_seqCounter s) + length ops < 2 ^ 64" "list_all op_orders_ok ops"
  shows "snd (run_ops comp_step ops s) = snd (run_ops kv_step ops m)"
  using assms
proof (induction ops arbitrary: s m)
  case (Cons op ops)
  then have "Suc (unat (cs_seqCounter s)) < 2 ^ 64" "op_orders_ok op" by simp_all
  note st = comp_step_refines[OF Cons.prems(1,2) this]
  then show ?case using Cons.prems(3,4) Cons.IH[of "fst (comp_step op s)" "fst (kv_step op m)"]
    by (simp add: Let_def)
qed simp

text \<open>
  (C25) The compaction store refines a map. For fewer than \<open>2\<^sup>6\<^sup>4\<close> calls of \<open>Put\<close>, \<open>Delete\<close>, \<open>Flush\<close>,
  \<open>Compact\<close>, \<open>Get\<close>, \<open>Stats\<close> and \<open>Close\<close>, in any order, with any flush threshold and whatever the orders in which
  maps are visited, the answers are those of a plain map from keys to values: flushing and compacting
  (which drops tombstones and overwritten versions) never change what a reader sees, nor the number of
  live keys.
\<close>

theorem Compactor_refines_map:
  assumes "length ops < 2 ^ 64" "list_all op_orders_ok ops"
  shows "snd (run_ops comp_step ops (Compactor_New thresh)) = snd (run_ops kv_step ops kv_empty)"
  using assms
  by (intro run_comp_refines)
     (simp_all add: comp_inv_def represents_def Compactor_New_def kv_empty_def all_entries_def current_def)

theorem Compactor_refines_map_witness:
  "snd (run_ops comp_step [CPut ''a'' [1] 10 ''t1'' sorted_order, CPut ''b'' [2] 20 ''t2'' sorted_order, CDelete ''a'' 30 ''t3'' sorted_order,
      CCompact ''t4'' sorted_order sorted_order, CGet ''a'', CGet ''b'', CStats sorted_order] (Compactor_New 2)) =
   [RSeq (Inr 1), RSeq (Inr 2), RSeq (Inr 3), RErr None, RValue (Inr None), RValue (Inr (Some [2])), RLive 1]"
proof -
  have "fmdom (fmdrop ''a'' (fmupd ''b'' [2] (fmupd ''a'' [1] fmempty))) = {|''b''|} "
    by auto
  then show ?thesis
    by (subst Compactor_refines_map) (simp_all add: visits_all_sorted kv_empty_def fcard.rep_eq)
qed

end
