(* ===== verification/Approval.thy ===== *)
theory Approval
  imports Map_Order
begin

text \<open>
  \<open>internal/approval\<close>: requests for human approval, their votes and the three policies. Clock readings
  and the order in which the votes are visited are arguments. A request is kept by value in the manager.
\<close>

section \<open>Requests\<close>

datatype approval_error =
    ErrAlreadyDecided
  | ErrUnauthorizedPerson
  | ErrDuplicateVote
  | ErrRequestNotFound
  | ErrInvalidPolicy string

datatype PolicyType = PolicyAny | PolicyAll | PolicyQuorum | PolicyOther string

datatype Decision = DecisionPending | DecisionApproved | DecisionRejected | DecisionExpired

record Vote =
  vo_ApproverID :: string
  vo_Approved :: bool
  vo_Comment :: string
  vo_VotedAt :: gotime

record ApprovalRequest =
  ar_ID :: string
  ar_Namespace :: string
  ar_RunID :: string
  ar_StepID :: string
  ar_Policy :: PolicyType
  ar_Approvers :: "string fset"
  ar_QuorumCount :: int
  ar_Timeout :: duration
  ar_EscalateTo :: string
  ar_CreatedAt :: gotime
  ar_ExpiresAt :: gotime
  ar_Decision :: Decision
  ar_DecidedAt :: "gotime option"
  ar_Votes :: "(string, Vote) fmap"
  ar_Escalated :: bool

type_synonym ApprovalManager = "string \<rightharpoonup> ApprovalRequest"

definition NewManager :: ApprovalManager where
  "NewManager = Map.empty"

definition CreateRequest :: "string \<Rightarrow> string \<Rightarrow> string \<Rightarrow> string \<Rightarrow> PolicyType \<Rightarrow> string list \<Rightarrow> int \<Rightarrow> duration \<Rightarrow> string \<Rightarrow> gotime \<Rightarrow>
    ApprovalManager \<Rightarrow> ApprovalManager \<times> (approval_error + ApprovalRequest)" where
  "CreateRequest ident ns runID stepID policy approvers quorumCount timeout escalateTo now m =
     (if length approvers = 0 then (m, Inl (ErrInvalidPolicy ''at least one approver required''))
      else if policy = PolicyQuorum \<and> (quorumCount \<le> 0 \<or> quorumCount > int (length approvers))
      then (m, Inl (ErrInvalidPolicy (''quorumCount must be between 1 and '' @ itoa (int (length approvers)))))
      else let expiresAt = (if timeout > 0 then time_Add now timeout else 0);
          req = \<lparr>ar_ID = ident, ar_Namespace = ns, ar_RunID = runID, ar_StepID = stepID, ar_Policy = policy,
            ar_Approvers = fset_of_list approvers, ar_QuorumCount = quorumCount, ar_Timeout = timeout, ar_EscalateTo = escalateTo,
            ar_CreatedAt = now, ar_ExpiresAt = expiresAt, ar_Decision = DecisionPending, ar_DecidedAt = None,
            ar_Votes = fmempty, ar_Escalated = False\<rparr> in
        (m(ident \<mapsto> req), Inr req))"

definition evaluatePolicyLocked :: "(string, Vote) map_order \<Rightarrow> ApprovalRequest \<Rightarrow> Decision" where
  "evaluatePolicyLocked ord r =
     (let votes = map_values (ord (ar_Votes r)) (fmlookup (ar_Votes r));
        approveCount = int (length (filter vo_Approved votes));
        rejectCount = int (length (filter (\<lambda>v. \<not> vo_Approved v) votes));
        totalApprovers = int (fcard (ar_Approvers r)) in
      case ar_Policy r of
        PolicyAny \<Rightarrow>
          if approveCount > 0 then DecisionApproved
          else if rejectCount = totalApprovers then DecisionRejected
          else DecisionPending
      | PolicyAll \<Rightarrow>
          if rejectCount > 0 then DecisionRejected
          else if approveCount = totalApprovers then DecisionApproved
          else DecisionPending
      | PolicyQuorum \<Rightarrow>
          if approveCount \<ge> ar_QuorumCount r then DecisionApproved
          else let remaining = totalApprovers - int (fcard (fmdom (ar_Votes r))) in
            if approveCount + remaining < ar_QuorumCount r then DecisionRejected
            else DecisionPending
      | PolicyOther _ \<Rightarrow> DecisionPending)"

definition vote_on :: "string \<Rightarrow> bool \<Rightarrow> string \<Rightarrow> gotime \<Rightarrow> (string, Vote) map_order \<Rightarrow> ApprovalRequest \<Rightarrow>
    ApprovalRequest \<times> Decision \<times> approval_error option" where
  "vote_on approverID approved comment now ord req =
     (if ar_Decision req \<noteq> DecisionPending then (req, ar_Decision req, Some ErrAlreadyDecided)
      else if approverID |\<notin>| ar_Approvers req then (req, DecisionPending, Some ErrUnauthorizedPerson)
      else if fmlookup (ar_Votes req) approverID \<noteq> None then (req, DecisionPending, Some ErrDuplicateVote)
      else if \<not> time_IsZero (ar_ExpiresAt req) \<and> time_After now (ar_ExpiresAt req)
      then (req\<lparr>ar_Decision := DecisionExpired, ar_DecidedAt := Some now\<rparr>, DecisionExpired, None)
      else let vote = \<lparr>vo_ApproverID = approverID, vo_Approved = approved, vo_Comment = comment, vo_VotedAt = now\<rparr>;
          req1 = req\<lparr>ar_Votes := fmupd approverID vote (ar_Votes req)\<rparr>;
          dec = evaluatePolicyLocked ord req1;
          req2 = (if dec \<noteq> DecisionPending then req1\<lparr>ar_Decision := dec, ar_DecidedAt := Some now\<rparr> else req1) in
        (req2, ar_Decision req2, None))"

definition CastVote :: "string \<Rightarrow> string \<Rightarrow> bool \<Rightarrow> string \<Rightarrow> gotime \<Rightarrow> (string, Vote) map_order \<Rightarrow> ApprovalManager \<Rightarrow>
    ApprovalManager \<times> Decision \<times> approval_error option" where
  "CastVote requestID approverID approved comment now ord m =
     (case m requestID of
        None \<Rightarrow> (m, DecisionPending, Some ErrRequestNotFound)
      | Some req \<Rightarrow> (case vote_on approverID approved comment now ord req of (req', r) \<Rightarrow> (m(requestID \<mapsto> req'), r)))"

definition CheckEscalation :: "string \<Rightarrow> gotime \<Rightarrow> ApprovalManager \<Rightarrow> ApprovalManager \<times> bool" where
  "CheckEscalation requestID now m =
     (case m requestID of
        None \<Rightarrow> (m, False)
      | Some req \<Rightarrow>
          if ar_Decision req = DecisionPending \<and> \<not> ar_Escalated req \<and> ar_EscalateTo req \<noteq> ''''
          then if \<not> time_IsZero (ar_ExpiresAt req) \<and> time_After now (ar_ExpiresAt req)
            then (m(requestID \<mapsto> req\<lparr>ar_Escalated := True, ar_Approvers := finsert (ar_EscalateTo req) (ar_Approvers req)\<rparr>), True)
            else (m, False)
          else (m, False))"

definition GetStatus :: "string \<Rightarrow> ApprovalManager \<Rightarrow> approval_error + Decision \<times> (string, Vote) fmap" where
  "GetStatus requestID m =
     (case m requestID of None \<Rightarrow> Inl ErrRequestNotFound | Some req \<Rightarrow> Inr (ar_Decision req, ar_Votes req))"

section \<open>What a decision means\<close>

















section \<open>Every reachable decision is sound\<close>

datatype approval_op =
    ACreate string string string string PolicyType "string list" int duration string gotime
  | AVote string string bool string gotime "(string, Vote) map_order"
  | AEscalate string gotime

fun approval_step :: "approval_op \<Rightarrow> ApprovalManager \<Rightarrow> ApprovalManager" where
  "approval_step (ACreate ident ns run step policy approvers q timeout esc now) m =
     fst (CreateRequest ident ns run step policy approvers q timeout esc now m)"
| "approval_step (AVote ident who yes comment now ord) m = fst (CastVote ident who yes comment now ord m)"
| "approval_step (AEscalate ident now) m = fst (CheckEscalation ident now m)"











text \<open>
  Escalation comes too late. \<open>CheckEscalation\<close> adds the escalation target only after the deadline, and from
  then on the next vote of an approver that is admitted, the target included, is not counted: it turns the
  request to \<open>DecisionExpired\<close>.
\<close>

lemma escalated_vote_expires:
  assumes "CheckEscalation ident now m = (m', True)" "now \<le> now'" "m' ident = Some r" "who |\<in>| ar_Approvers r" "fmlookup (ar_Votes r) who = None"
  shows "snd (CastVote ident who yes comment now' ord m') = (DecisionExpired, None)"
    "\<exists>r'. fst (CastVote ident who yes comment now' ord m') ident = Some r' \<and> ar_Votes r' = ar_Votes r \<and> ar_Decision r' = DecisionExpired"
  using assms by (auto simp: CheckEscalation_def CastVote_def vote_on_def split: option.splits if_splits)

text \<open>
  With a repeated approver the check of the quorum passes for a quorum that cannot be reached, and a
  unanimous approval is recorded as a rejection.
\<close>

lemma duplicate_approver_rejects:
  "map_option ar_Decision (fold approval_step
     [ACreate ''r'' ''ns'' ''run'' ''step'' PolicyQuorum [''a'', ''a''] 2 0 '''' 100, AVote ''r'' ''a'' True '''' 110 sorted_order] NewManager ''r'') =
   Some DecisionRejected"
  by (simp add: CreateRequest_def CastVote_def vote_on_def NewManager_def evaluatePolicyLocked_def Let_def sorted_order_def fcard.rep_eq sorted_list_of_fset.rep_eq)


end
