(* ===== verification/Versioning.thy ===== *)
theory Versioning
  imports Go_Strings
begin

text \<open>
  \<open>internal/versioning\<close>: semantic versions, their order and the constraints on them. Numbers are 64-bit
  integers: \<open>Atoi_value\<close> stays in that range and the increments wrap.
\<close>

section \<open>Parsing and printing\<close>

record Version =
  ve_Major :: int
  ve_Minor :: int
  ve_Patch :: int
  ve_Pre :: string

abbreviation zero_version :: Version where
  "zero_version \<equiv> \<lparr>ve_Major = 0, ve_Minor = 0, ve_Patch = 0, ve_Pre = ''''\<rparr>"

text \<open>Both results of \<open>Parse\<close>: the version, zero when there is an error, and the error.\<close>

definition Version_Parse :: "string \<Rightarrow> Version \<times> string option" where
  "Version_Parse v0 =
     (let v = TrimPrefix v0 ''v'';
        parts = Split (CHR ''-'') v;
        verParts = Split (CHR ''.'') (parts ! 0) in
      if length verParts \<noteq> 3 then (zero_version, Some (''invalid version: '' @ v))
      else (\<lparr>ve_Major = Atoi_value (verParts ! 0), ve_Minor = Atoi_value (verParts ! 1), ve_Patch = Atoi_value (verParts ! 2),
             ve_Pre = (if length parts > 1 then parts ! 1 else '''')\<rparr>, None))"


section \<open>Order and constraints\<close>

definition Version_Compare :: "Version \<Rightarrow> Version \<Rightarrow> int" where
  "Version_Compare v other =
     (if ve_Major v \<noteq> ve_Major other then if ve_Major v > ve_Major other then 1 else - 1
      else if ve_Minor v \<noteq> ve_Minor other then if ve_Minor v > ve_Minor other then 1 else - 1
      else if ve_Patch v \<noteq> ve_Patch other then if ve_Patch v > ve_Patch other then 1 else - 1
      else if ve_Pre v = '''' \<and> ve_Pre other = '''' then 0
      else if ve_Pre v = '''' then 1
      else if ve_Pre other = '''' then - 1
      else if ve_Pre v > ve_Pre other then 1
      else if ve_Pre v < ve_Pre other then - 1
      else 0)"

definition Version_Equal :: "Version \<Rightarrow> Version \<Rightarrow> bool" where
  "Version_Equal v other \<longleftrightarrow> Version_Compare v other = 0"

definition Version_LessThan :: "Version \<Rightarrow> Version \<Rightarrow> bool" where
  "Version_LessThan v other \<longleftrightarrow> Version_Compare v other < 0"

definition Version_GreaterThan :: "Version \<Rightarrow> Version \<Rightarrow> bool" where
  "Version_GreaterThan v other \<longleftrightarrow> Version_Compare v other > 0"

definition Version_Satisfies :: "Version \<Rightarrow> string \<Rightarrow> bool" where
  "Version_Satisfies v constraint0 =
     (let constraint = TrimSpace constraint0 in
      if constraint = '''' \<or> constraint = ''*'' then True
      else if HasPrefix constraint ''>='' then
        let other = fst (Version_Parse (drop 2 constraint)) in Version_GreaterThan v other \<or> Version_Equal v other
      else if HasPrefix constraint ''<='' then
        let other = fst (Version_Parse (drop 2 constraint)) in Version_LessThan v other \<or> Version_Equal v other
      else if HasPrefix constraint ''>'' then Version_GreaterThan v (fst (Version_Parse (drop 1 constraint)))
      else if HasPrefix constraint ''<'' then Version_LessThan v (fst (Version_Parse (drop 1 constraint)))
      else if HasPrefix constraint ''~'' then
        let other = fst (Version_Parse (drop 1 constraint)) in
        ve_Major v = ve_Major other \<and> ve_Minor v = ve_Minor other \<and> ve_Patch v \<ge> ve_Patch other
      else if HasPrefix constraint ''^'' then
        let other = fst (Version_Parse (drop 1 constraint)) in
        if ve_Major other = 0 then ve_Major v = ve_Major other \<and> ve_Minor v \<ge> ve_Minor other
        else ve_Major v = ve_Major other \<and> (ve_Minor v > ve_Minor other \<or> (ve_Minor v = ve_Minor other \<and> ve_Patch v \<ge> ve_Patch other))
      else Version_Equal v (fst (Version_Parse constraint)))"

definition wrap_int64 :: "int \<Rightarrow> int" where
  "wrap_int64 i = (i + 2 ^ 63) mod 2 ^ 64 - 2 ^ 63"

definition IncrementMajor :: "Version \<Rightarrow> Version" where
  "IncrementMajor v = \<lparr>ve_Major = wrap_int64 (ve_Major v + 1), ve_Minor = 0, ve_Patch = 0, ve_Pre = ''''\<rparr>"

definition IncrementMinor :: "Version \<Rightarrow> Version" where
  "IncrementMinor v = \<lparr>ve_Major = ve_Major v, ve_Minor = wrap_int64 (ve_Minor v + 1), ve_Patch = 0, ve_Pre = ''''\<rparr>"

definition IncrementPatch :: "Version \<Rightarrow> Version" where
  "IncrementPatch v = \<lparr>ve_Major = ve_Major v, ve_Minor = ve_Minor v, ve_Patch = wrap_int64 (ve_Patch v + 1), ve_Pre = ''''\<rparr>"

section \<open>The order is linear\<close>

text \<open>A version without a pre-release part comes after all of its pre-releases.\<close>

definition precedence :: "Version \<Rightarrow> int \<times> int \<times> int \<times> bool \<times> string" where
  "precedence v = (ve_Major v, ve_Minor v, ve_Patch v, ve_Pre v = '''', ve_Pre v)"

lemma precedence_inject: "precedence v = precedence w \<longleftrightarrow> v = w"
  by (auto simp: precedence_def)

lemma Version_Compare_precedence:
  "Version_Compare v w = (if precedence v < precedence w then - 1 else if precedence v = precedence w then 0 else 1)"
  unfolding Version_Compare_def precedence_def
  by (cases "ve_Pre v = ''''"; cases "ve_Pre w = ''''") (auto simp: less_prod_def)

lemma Version_Compare_antisym: "Version_Compare w v = - Version_Compare v w"
  by (auto simp: Version_Compare_precedence)

lemma Version_Equal_iff: "Version_Equal v w \<longleftrightarrow> v = w"
  by (simp add: Version_Equal_def Version_Compare_precedence precedence_inject)

lemma IncrementPatch_greater:
  assumes "0 \<le> ve_Patch v" "ve_Patch v < 2 ^ 63 - 1"
  shows "Version_GreaterThan (IncrementPatch v) v"
proof -
  have "wrap_int64 (ve_Patch v + 1) = ve_Patch v + 1" using assms by (simp add: wrap_int64_def)
  then show ?thesis by (simp add: Version_GreaterThan_def IncrementPatch_def Version_Compare_def)
qed

section \<open>Printing and parsing\<close>







text \<open>A pre-release is cut at its first hyphen, and parts that are not numbers are read as zero.\<close>

lemma Version_Parse_lossy:
  "fst (Version_Parse ''1.0.0-rc-1'') = \<lparr>ve_Major = 1, ve_Minor = 0, ve_Patch = 0, ve_Pre = ''rc''\<rparr>"
  "Version_Parse ''one.2.x'' = (\<lparr>ve_Major = 0, ve_Minor = 2, ve_Patch = 0, ve_Pre = ''''\<rparr>, None)"
  by (simp_all add: Version_Parse_def TrimPrefix_def HasPrefix_def Atoi_value_def IsDigit_def digit_val_def)

text \<open>The caret ignores the patch number below version 1: a version older than the one named satisfies it.\<close>

lemma caret_zero_accepts_older:
  "Version_LessThan \<lparr>ve_Major = 0, ve_Minor = 2, ve_Patch = 0, ve_Pre = ''''\<rparr> (fst (Version_Parse ''0.2.3''))"
  "Version_Satisfies \<lparr>ve_Major = 0, ve_Minor = 2, ve_Patch = 0, ve_Pre = ''''\<rparr> ''^0.2.3''"
  by (simp_all add: Version_Parse_def TrimPrefix_def HasPrefix_def Atoi_value_def IsDigit_def digit_val_def
      Version_LessThan_def Version_Compare_def Version_Satisfies_def TrimSpace_def is_space_def)

end
