(* ===== verification/Float64.thy ===== *)
theory Float64
  imports Go_Strings Complex_Main
begin

text \<open>
  Go's \<open>float64\<close>, as far as the expression language uses it: IEEE 754 binary64 values with their exact
  rational magnitudes, arithmetic rounded to nearest even, \<open>strconv.ParseFloat\<close> and the text that
  \<open>fmt\<close> prints for \<open>%v\<close>.
\<close>

section \<open>Values and rounding\<close>

text \<open>\<open>Fin neg q\<close> has the magnitude \<open>q\<close>, which is not negative; both zeros are values.\<close>

datatype f64 = NaN | Infinite bool | Fin bool rat

function bit_length :: "int \<Rightarrow> int" where
  "bit_length n = (if n \<le> 0 then 0 else 1 + bit_length (n div 2))"
  by pat_completeness auto
termination by (relation "measure nat") auto

declare bit_length.simps [simp del]

definition pow_rat :: "rat \<Rightarrow> int \<Rightarrow> rat" where
  "pow_rat b e = (if e \<ge> 0 then b ^ nat e else 1 / b ^ nat (- e))"

text \<open>The exponent \<open>k\<close> with \<open>2 ^ k \<le> q < 2 ^ (k + 1)\<close>, for a positive \<open>q\<close>.\<close>

definition log2_floor :: "rat \<Rightarrow> int" where
  "log2_floor q =
     (let (n, d) = quotient_of q; k = bit_length n - bit_length d in
      if pow_rat 2 k \<le> q then k else k - 1)"

definition round_half_even :: "rat \<Rightarrow> int" where
  "round_half_even q =
     (let m = \<lfloor>q\<rfloor>; r = q - of_int m in
      if r < 1 / 2 then m else if 1 / 2 < r then m + 1 else if even m then m else m + 1)"

lemma round_half_even_near: "\<bar>of_int (round_half_even q) - q\<bar> \<le> 1 / 2"
proof -
  define m where "m = \<lfloor>q\<rfloor>"
  have "of_int m \<le> q" "q < of_int m + 1" unfolding m_def by linarith+
  then show ?thesis unfolding round_half_even_def Let_def m_def[symmetric] by (auto simp: abs_if)
qed

lemma round_half_even_int [simp]: "round_half_even (of_int i) = i"
  by (simp add: round_half_even_def)

text \<open>53 bits of precision, exponents from -1074; magnitudes from \<open>2 ^ 1024\<close> are infinite.\<close>

definition round64 :: "bool \<Rightarrow> rat \<Rightarrow> f64" where
  "round64 neg q =
     (if q = 0 then Fin neg 0
      else let e = max (- 1074) (log2_floor q - 52);
          r = of_int (round_half_even (q / pow_rat 2 e)) * pow_rat 2 e in
        if r \<ge> pow_rat 2 1024 then Infinite neg else Fin neg r)"

definition signed_rat :: "bool \<Rightarrow> rat \<Rightarrow> rat" where
  "signed_rat neg q = (if neg then - q else q)"

definition of_int64 :: "int \<Rightarrow> f64" where
  "of_int64 i = round64 (i < 0) (of_int \<bar>i\<bar>)"

section \<open>Arithmetic and comparison\<close>

fun f64_neg :: "f64 \<Rightarrow> f64" where
  "f64_neg NaN = NaN"
| "f64_neg (Infinite s) = Infinite (\<not> s)"
| "f64_neg (Fin s q) = Fin (\<not> s) q"

fun f64_add :: "f64 \<Rightarrow> f64 \<Rightarrow> f64" where
  "f64_add NaN y = NaN"
| "f64_add x NaN = NaN"
| "f64_add (Infinite s) (Infinite t) = (if s = t then Infinite s else NaN)"
| "f64_add (Infinite s) (Fin t q) = Infinite s"
| "f64_add (Fin s p) (Infinite t) = Infinite t"
| "f64_add (Fin s p) (Fin t q) =
     (let r = signed_rat s p + signed_rat t q in
      if r = 0 then Fin (s \<and> t) 0 else round64 (r < 0) \<bar>r\<bar>)"

definition f64_sub :: "f64 \<Rightarrow> f64 \<Rightarrow> f64" where
  "f64_sub x y = f64_add x (f64_neg y)"

fun f64_mul :: "f64 \<Rightarrow> f64 \<Rightarrow> f64" where
  "f64_mul NaN y = NaN"
| "f64_mul x NaN = NaN"
| "f64_mul (Infinite s) (Infinite t) = Infinite (s \<noteq> t)"
| "f64_mul (Infinite s) (Fin t q) = (if q = 0 then NaN else Infinite (s \<noteq> t))"
| "f64_mul (Fin s p) (Infinite t) = (if p = 0 then NaN else Infinite (s \<noteq> t))"
| "f64_mul (Fin s p) (Fin t q) = round64 (s \<noteq> t) (p * q)"

fun f64_div :: "f64 \<Rightarrow> f64 \<Rightarrow> f64" where
  "f64_div NaN y = NaN"
| "f64_div x NaN = NaN"
| "f64_div (Infinite s) (Infinite t) = NaN"
| "f64_div (Infinite s) (Fin t q) = Infinite (s \<noteq> t)"
| "f64_div (Fin s p) (Infinite t) = Fin (s \<noteq> t) 0"
| "f64_div (Fin s p) (Fin t q) =
     (if q = 0 then if p = 0 then NaN else Infinite (s \<noteq> t) else round64 (s \<noteq> t) (p / q))"

fun f64_less :: "f64 \<Rightarrow> f64 \<Rightarrow> bool" where
  "f64_less NaN y = False"
| "f64_less x NaN = False"
| "f64_less (Infinite s) (Infinite t) \<longleftrightarrow> s \<and> \<not> t"
| "f64_less (Infinite s) (Fin t q) = s"
| "f64_less (Fin s p) (Infinite t) = (\<not> t)"
| "f64_less (Fin s p) (Fin t q) \<longleftrightarrow> signed_rat s p < signed_rat t q"

fun f64_eq :: "f64 \<Rightarrow> f64 \<Rightarrow> bool" where
  "f64_eq (Infinite s) (Infinite t) = (s = t)"
| "f64_eq (Fin s p) (Fin t q) \<longleftrightarrow> signed_rat s p = signed_rat t q"
| "f64_eq x y = False"

definition f64_le :: "f64 \<Rightarrow> f64 \<Rightarrow> bool" where
  "f64_le x y \<longleftrightarrow> f64_less x y \<or> f64_eq x y"

abbreviation f64_zero :: f64 where
  "f64_zero \<equiv> Fin False 0"

section \<open>strconv.ParseFloat\<close>

text \<open>The value and whether there is an error; on overflow the value is infinite and there is an error.\<close>

definition lower_char :: "char \<Rightarrow> char" where
  "lower_char c = (if of_char c \<ge> (65 :: nat) \<and> of_char c \<le> (90 :: nat) then char_of (of_char c + 32 :: nat) else c)"

definition ToLower :: "string \<Rightarrow> string" where
  "ToLower s = map lower_char s"

definition hex_letter :: "char \<Rightarrow> bool" where
  "hex_letter c \<longleftrightarrow> lower_char c \<in> set ''abcdef''"

definition hex_val :: "char \<Rightarrow> nat" where
  "hex_val c = (if IsDigit c then digit_val c else of_char (lower_char c) - 87)"

record mantissa =
  ma_value :: int
  ma_frac :: int
  ma_dot :: bool
  ma_digits :: bool
  ma_under :: bool

fun read_mantissa :: "bool \<Rightarrow> mantissa \<Rightarrow> string \<Rightarrow> mantissa \<times> string" where
  "read_mantissa hex m [] = (m, [])"
| "read_mantissa hex m (c # cs) =
     (if c = CHR ''_'' then read_mantissa hex (m\<lparr>ma_under := True\<rparr>) cs
      else if c = CHR ''.'' then if ma_dot m then (m, c # cs) else read_mantissa hex (m\<lparr>ma_dot := True\<rparr>) cs
      else if IsDigit c \<or> (hex \<and> hex_letter c)
      then read_mantissa hex (m\<lparr>ma_value := ma_value m * (if hex then 16 else 10) + int (hex_val c),
          ma_frac := (if ma_dot m then ma_frac m + 1 else ma_frac m), ma_digits := True\<rparr>) cs
      else (m, c # cs))"

fun read_exponent :: "int \<Rightarrow> bool \<Rightarrow> string \<Rightarrow> int \<times> bool \<times> string" where
  "read_exponent e us [] = (e, us, [])"
| "read_exponent e us (c # cs) =
     (if c = CHR ''_'' then read_exponent e True cs
      else if IsDigit c then read_exponent (if e < 10000 then e * 10 + int (digit_val c) else e) us cs
      else (e, us, c # cs))"

text \<open>\<open>underscoreOK\<close>: underscores only between digits, or between a base prefix and a digit.\<close>

fun underscore_scan :: "bool \<Rightarrow> char \<Rightarrow> string \<Rightarrow> bool" where
  "underscore_scan hex saw [] = (saw \<noteq> CHR ''_'')"
| "underscore_scan hex saw (c # cs) =
     (if IsDigit c \<or> (hex \<and> hex_letter c) then underscore_scan hex (CHR ''0'') cs
      else if c = CHR ''_'' then saw = CHR ''0'' \<and> underscore_scan hex (CHR ''_'') cs
      else saw \<noteq> CHR ''_'' \<and> underscore_scan hex (CHR ''!'') cs)"

definition underscoreOK :: "string \<Rightarrow> bool" where
  "underscoreOK s =
     (case s of
        c0 # c1 # cs \<Rightarrow>
          if c0 = CHR ''0'' \<and> lower_char c1 \<in> set ''box'' then underscore_scan (lower_char c1 = CHR ''x'') (CHR ''0'') cs
          else underscore_scan False (CHR ''^'') s
      | _ \<Rightarrow> underscore_scan False (CHR ''^'') s)"

definition parse_special :: "bool \<Rightarrow> bool \<Rightarrow> string \<Rightarrow> f64 option" where
  "parse_special has_sign neg s =
     (let l = ToLower s in
      if l = ''inf'' \<or> l = ''infinity'' then Some (Infinite neg)
      else if l = ''nan'' \<and> \<not> has_sign then Some NaN else None)"

text \<open>The digits after the sign. \<open>None\<close> is a syntax error.\<close>

definition read_number :: "string \<Rightarrow> rat option" where
  "read_number s =
     (let hex = (length s > 2 \<and> s ! 0 = CHR ''0'' \<and> lower_char (s ! 1) = CHR ''x'');
        (m, rest) = read_mantissa hex \<lparr>ma_value = 0, ma_frac = 0, ma_dot = False, ma_digits = False, ma_under = False\<rparr>
          (if hex then drop 2 s else s);
        scale = (\<lambda>e. of_int (ma_value m) * (if hex then pow_rat 2 (e - 4 * ma_frac m) else pow_rat 10 (e - ma_frac m)));
        exponent = (case rest of c # cs \<Rightarrow> lower_char c = (if hex then CHR ''p'' else CHR ''e'') | [] \<Rightarrow> False) in
      if \<not> ma_digits m then None
      else if exponent then
        let minus = HasPrefix (tl rest) ''-'';
          ds = (if HasPrefix (tl rest) ''-'' \<or> HasPrefix (tl rest) ''+'' then tl (tl rest) else tl rest) in
        (case ds of
           [] \<Rightarrow> None
         | d # _ \<Rightarrow>
             if \<not> IsDigit d then None
             else let (e, us, rest2) = read_exponent 0 (ma_under m) ds in
               if rest2 = [] \<and> (us \<longrightarrow> underscoreOK s) then Some (scale (if minus then - e else e)) else None)
      else if hex then None
      else if rest = [] \<and> (ma_under m \<longrightarrow> underscoreOK s) then Some (scale 0) else None)"

definition ParseFloat :: "string \<Rightarrow> f64 \<times> bool" where
  "ParseFloat s =
     (let neg = HasPrefix s ''-'';
        sgn = (HasPrefix s ''-'' \<or> HasPrefix s ''+'');
        ds = (if sgn then tl s else s) in
      case parse_special sgn neg ds of
        Some f \<Rightarrow> (f, False)
      | None \<Rightarrow>
          (case read_number ds of
             None \<Rightarrow> (f64_zero, True)
           | Some q \<Rightarrow> (let f = round64 neg q in (f, f = Infinite neg))))"

section \<open>The shortest decimal\<close>

text \<open>
  The shortest decimal digits that \<open>ParseFloat\<close> reads back as the value, and among these the nearest.
  17 significant digits always suffice.
\<close>

function log10_floor :: "rat \<Rightarrow> int \<Rightarrow> nat \<Rightarrow> int" where
  "log10_floor q e 0 = e"
| "log10_floor q e (Suc n) = (if pow_rat 10 (e + 1) \<le> q then log10_floor q (e + 1) n else e)"
  by pat_completeness auto
termination by (relation "measure (\<lambda>(q, e, n). n)") auto

definition digits_try :: "rat \<Rightarrow> int \<Rightarrow> nat \<Rightarrow> (int \<times> int) option" where
  "digits_try q e10 n =
     (let u = pow_rat 10 (e10 - int n + 1);
        lo = \<lfloor>q / u\<rfloor>;
        ok = (\<lambda>m. round64 False (of_int m * u) = Fin False q) in
      if ok lo \<and> (\<not> ok (lo + 1) \<or> q - of_int lo * u \<le> of_int (lo + 1) * u - q) then Some (lo, e10 - int n + 1)
      else if ok (lo + 1) then Some (lo + 1, e10 - int n + 1) else None)"

fun first_digits :: "rat \<Rightarrow> int \<Rightarrow> nat \<Rightarrow> nat \<Rightarrow> int \<times> int" where
  "first_digits q e10 n 0 = (\<lfloor>q / pow_rat 10 (e10 - 16)\<rfloor>, e10 - 16)"
| "first_digits q e10 n (Suc k) =
     (case digits_try q e10 n of Some d \<Rightarrow> d | None \<Rightarrow> first_digits q e10 (Suc n) k)"

definition strip_zeros :: "string \<Rightarrow> string" where
  "strip_zeros s = rev (dropWhile (\<lambda>c. c = CHR ''0'') (rev s))"

text \<open>The format \<open>g\<close>: exponents below -4 or from 6 on are printed in scientific notation.\<close>

definition format_exponent :: "int \<Rightarrow> string" where
  "format_exponent e = (if e < 0 then ''-'' else ''+'') @ (if \<bar>e\<bar> < 10 then ''0'' else '''') @ itoa \<bar>e\<bar>"

definition format_digits :: "string \<Rightarrow> int \<Rightarrow> string" where
  "format_digits ds ex =
     (if ex < - 4 \<or> ex \<ge> 6
      then take 1 ds @ (if length ds > 1 then ''.'' @ drop 1 ds else '''') @ ''e'' @ format_exponent ex
      else if ex < 0 then ''0.'' @ replicate (nat (- ex) - 1) (CHR ''0'') @ ds
      else if length ds \<le> nat ex + 1 then ds @ replicate (nat ex + 1 - length ds) (CHR ''0'')
      else take (nat ex + 1) ds @ ''.'' @ drop (nat ex + 1) ds)"

fun FormatFloat :: "f64 \<Rightarrow> string" where
  "FormatFloat NaN = ''NaN''"
| "FormatFloat (Infinite s) = (if s then ''-Inf'' else ''+Inf'')"
| "FormatFloat (Fin s q) =
     (if s then ''-'' else '''') @
     (if q = 0 then ''0''
      else let e10 = log10_floor q (- 324) 700; (m, e) = first_digits q e10 1 17; ds = itoa m in
        format_digits (strip_zeros ds) (e + int (length ds) - 1))"

end
