(* ===== verification/Expr.thy ===== *)
theory Expr
  imports Float64 "HOL-Library.Finite_Map"
begin

text \<open>
  \<open>internal/expr\<close>: the expression language of conditions. The lexer, the recursive-descent parser and
  the evaluator. Text is ASCII. The values are those of JSON documents and the integer and string list
  types that the evaluator distinguishes.
\<close>

section \<open>Tokens and the lexer\<close>

datatype expr_error =
    ErrSyntaxError string
  | ErrUnexpectedToken string
  | ErrUnsupportedType string
  | ErrDivisionByZero

datatype TokenType =
    TokEOF | TokNumber | TokString | TokBool | TokNull | TokPath | TokIdent | TokOp
  | TokLParen | TokRParen | TokLBracket | TokRBracket | TokComma

record Token =
  tk_Type :: TokenType
  tk_Value :: string

definition tok :: "TokenType \<Rightarrow> string \<Rightarrow> Token" where
  "tok t v = \<lparr>tk_Type = t, tk_Value = v\<rparr>"

text \<open>A lexer is the input from the position on; past its end, \<open>peek\<close> answers the rune 0.\<close>

type_synonym Lexer = string

definition Lexer_peek :: "Lexer \<Rightarrow> char" where
  "Lexer_peek l = (case l of [] \<Rightarrow> CHR 0x00 | c # _ \<Rightarrow> c)"

definition IsLetter :: "char \<Rightarrow> bool" where
  "IsLetter c \<longleftrightarrow> (let n = of_char c :: nat in (65 \<le> n \<and> n \<le> 90) \<or> (97 \<le> n \<and> n \<le> 122))"

fun skip_space :: "Lexer \<Rightarrow> Lexer" where
  "skip_space [] = []"
| "skip_space (c # cs) = (if c = CHR 0x00 then c # cs else if is_space c then skip_space cs else c # cs)"

text \<open>The body of a string literal; \<open>None\<close> says that it is not terminated.\<close>

fun lex_string :: "char \<Rightarrow> string \<Rightarrow> Lexer \<Rightarrow> (string \<times> Lexer) option" where
  "lex_string quote b [] = None"
| "lex_string quote b (c # cs) =
     (if c = CHR 0x00 then None
      else if c = quote then Some (b, cs)
      else if c = CHR 0x5C then
        (case cs of
           [] \<Rightarrow> None
         | esc # cs' \<Rightarrow> lex_string quote (b @ [if esc = CHR ''n'' then CHR 0x0A else if esc = CHR ''t'' then CHR 0x09 else esc]) cs')
      else lex_string quote (b @ [c]) cs)"

definition path_char :: "char \<Rightarrow> bool" where
  "path_char c \<longleftrightarrow> IsLetter c \<or> IsDigit c \<or> c = CHR ''.'' \<or> c = CHR ''_'' \<or> c = CHR ''-''"

definition ident_char :: "char \<Rightarrow> bool" where
  "ident_char c \<longleftrightarrow> IsLetter c \<or> IsDigit c \<or> c = CHR ''_''"

fun lex_number :: "bool \<Rightarrow> Lexer \<Rightarrow> string \<times> Lexer" where
  "lex_number hasDot [] = ([], [])"
| "lex_number hasDot (c # cs) =
     (if IsDigit c then case lex_number hasDot cs of (b, l) \<Rightarrow> (c # b, l)
      else if c = CHR ''.'' \<and> \<not> hasDot then case lex_number True cs of (b, l) \<Rightarrow> (c # b, l)
      else ([], c # cs))"

definition word_token :: "string \<Rightarrow> Token" where
  "word_token word =
     (let lower = ToLower word in
      if lower = ''true'' \<or> lower = ''false'' then tok TokBool lower
      else if lower = ''null'' \<or> lower = ''nil'' then tok TokNull ''null''
      else if lower = ''in'' \<or> lower = ''contains'' then tok TokOp lower
      else tok TokIdent word)"

definition two_char_ops :: "string list" where
  "two_char_ops = [''=='', ''!='', ''<='', ''>='', ''&&'', ''||'']"

definition one_char_ops :: string where
  "one_char_ops = ''<>+-*/!''"

text \<open>\<open>NextToken\<close> at a character \<open>ch\<close> that is neither space nor the end, with \<open>rest\<close> after it.\<close>

definition lex_token :: "char \<Rightarrow> Lexer \<Rightarrow> expr_error + Token \<times> Lexer" where
  "lex_token ch rest =
     (if ch = CHR ''('' then Inr (tok TokLParen ''('', rest)
      else if ch = CHR '')'' then Inr (tok TokRParen '')'', rest)
      else if ch = CHR ''['' then Inr (tok TokLBracket ''['', rest)
      else if ch = CHR '']'' then Inr (tok TokRBracket '']'', rest)
      else if ch = CHR '','' then Inr (tok TokComma '','', rest)
      else if ch = CHR 0x22 \<or> ch = CHR 0x27 then
        (case lex_string ch '''' rest of
           None \<Rightarrow> Inl (ErrSyntaxError ''unterminated string literal'')
         | Some (b, l) \<Rightarrow> Inr (tok TokString b, l))
      else if ch = CHR ''$'' then Inr (tok TokPath (CHR ''$'' # takeWhile path_char rest), dropWhile path_char rest)
      else if IsDigit ch then (case lex_number False (ch # rest) of (b, l) \<Rightarrow> Inr (tok TokNumber b, l))
      else if rest \<noteq> [] \<and> [ch, hd rest] \<in> set two_char_ops then Inr (tok TokOp [ch, hd rest], tl rest)
      else if ch \<in> set one_char_ops then Inr (tok TokOp [ch], rest)
      else if IsLetter ch \<or> ch = CHR ''_'' then Inr (word_token (takeWhile ident_char (ch # rest)), dropWhile ident_char (ch # rest))
      else Inl (ErrSyntaxError (''unexpected character '' @ [CHR 0x27, ch, CHR 0x27])))"

definition NextToken :: "Lexer \<Rightarrow> expr_error + Token \<times> Lexer" where
  "NextToken l0 =
     (let l = skip_space l0; ch = Lexer_peek l in
      if ch = CHR 0x00 then Inr (tok TokEOF '''', l) else lex_token ch (tl l))"

section \<open>Syntax trees\<close>

datatype any =
    VNil
  | VBool bool
  | VInt int
  | VInt64 int
  | VFloat f64
  | VString string
  | VList "any list"
  | VStrings "string list"
  | VMap "(string, any) fmap"

datatype ExprNode =
    LiteralNode any
  | ListNode "ExprNode list"
  | PathNode string
  | UnaryNode string ExprNode
  | BinaryNode ExprNode string ExprNode

section \<open>The parser\<close>

text \<open>
  A parser is the tokens from the position on. The nesting of an expression is not bounded, so the
  recursion through parentheses and brackets has a budget, and \<open>None\<close> says that it ran out; \<open>Parse\<close> passes a
  budget that is proved sufficient. So are the budgets of the loops, which are the number of tokens left.
\<close>

type_synonym 'a parser = "Token list \<Rightarrow> (expr_error + 'a \<times> Token list) option"

definition Parser_peek :: "Token list \<Rightarrow> Token" where
  "Parser_peek ts = (case ts of [] \<Rightarrow> tok TokEOF '''' | t # _ \<Rightarrow> t)"

text \<open>Sequencing: the error of the first parser ends the second.\<close>

definition bind_parser :: "(expr_error + 'a \<times> Token list) option \<Rightarrow> ('a \<Rightarrow> 'b parser) \<Rightarrow> (expr_error + 'b \<times> Token list) option" where
  "bind_parser r f =
     (case r of None \<Rightarrow> None | Some (Inl e) \<Rightarrow> Some (Inl e) | Some (Inr (a, ts)) \<Rightarrow> f a ts)"

definition is_op :: "string list \<Rightarrow> Token \<Rightarrow> bool" where
  "is_op ops t \<longleftrightarrow> tk_Type t = TokOp \<and> tk_Value t \<in> set ops"

text \<open>The loop of the five parsers of binary operators: the operands associate to the left.\<close>

fun binary_loop :: "nat \<Rightarrow> string list \<Rightarrow> ExprNode parser \<Rightarrow> ExprNode \<Rightarrow> ExprNode parser" where
  "binary_loop 0 ops operand left ts = None"
| "binary_loop (Suc n) ops operand left ts =
     (if is_op ops (Parser_peek ts)
      then bind_parser (operand (tl ts)) (\<lambda>right. binary_loop n ops operand (BinaryNode left (tk_Value (Parser_peek ts)) right))
      else Some (Inr (left, ts)))"

definition parse_binary :: "string list \<Rightarrow> ExprNode parser \<Rightarrow> ExprNode parser" where
  "parse_binary ops operand ts = bind_parser (operand ts) (\<lambda>left ts. binary_loop (Suc (length ts)) ops operand left ts)"

fun list_loop :: "nat \<Rightarrow> ExprNode parser \<Rightarrow> ExprNode list \<Rightarrow> ExprNode list parser" where
  "list_loop 0 element elements ts = None"
| "list_loop (Suc n) element elements ts =
     (if tk_Type (Parser_peek ts) = TokRBracket then Some (Inr (elements, ts))
      else bind_parser (element ts) (\<lambda>el ts.
        if tk_Type (Parser_peek ts) = TokComma then list_loop n element (elements @ [el]) (tl ts)
        else if tk_Type (Parser_peek ts) \<noteq> TokRBracket then Some (Inl (ErrSyntaxError ''expected comma or closing bracket''))
        else list_loop n element (elements @ [el]) ts))"

text \<open>\<open>logicalOr\<close> is the recursive call of \<open>parseLogicalOr\<close>.\<close>

definition parsePrimary :: "ExprNode parser \<Rightarrow> ExprNode parser" where
  "parsePrimary logicalOr ts =
     (let t = Parser_peek ts in
      case tk_Type t of
        TokNumber \<Rightarrow> Some (Inr (LiteralNode (VFloat (fst (ParseFloat (tk_Value t)))), tl ts))
      | TokString \<Rightarrow> Some (Inr (LiteralNode (VString (tk_Value t)), tl ts))
      | TokBool \<Rightarrow> Some (Inr (LiteralNode (VBool (tk_Value t = ''true'')), tl ts))
      | TokNull \<Rightarrow> Some (Inr (LiteralNode VNil, tl ts))
      | TokPath \<Rightarrow> Some (Inr (PathNode (tk_Value t), tl ts))
      | TokLParen \<Rightarrow>
          bind_parser (logicalOr (tl ts)) (\<lambda>sub ts.
            if tk_Type (Parser_peek ts) \<noteq> TokRParen then Some (Inl (ErrSyntaxError ''missing closing parenthesis''))
            else Some (Inr (sub, tl ts)))
      | TokLBracket \<Rightarrow>
          bind_parser (list_loop (Suc (length (tl ts))) logicalOr [] (tl ts)) (\<lambda>elements ts. Some (Inr (ListNode elements, tl ts)))
      | _ \<Rightarrow> Some (Inl (ErrUnexpectedToken (''unexpected token '' @ tk_Value t))))"

definition parseUnary :: "ExprNode parser \<Rightarrow> ExprNode parser" where
  "parseUnary logicalOr ts =
     (if is_op [''!'', ''-''] (Parser_peek ts)
      then bind_parser (parsePrimary logicalOr (tl ts)) (\<lambda>sub ts'. Some (Inr (UnaryNode (tk_Value (Parser_peek ts)) sub, ts')))
      else parsePrimary logicalOr ts)"

definition parseMulDiv :: "ExprNode parser \<Rightarrow> ExprNode parser" where
  "parseMulDiv logicalOr = parse_binary [''*'', ''/''] (parseUnary logicalOr)"

definition parseAddSub :: "ExprNode parser \<Rightarrow> ExprNode parser" where
  "parseAddSub logicalOr = parse_binary [''+'', ''-''] (parseMulDiv logicalOr)"

definition parseComparison :: "ExprNode parser \<Rightarrow> ExprNode parser" where
  "parseComparison logicalOr =
     parse_binary [''=='', ''!='', ''<'', ''<='', ''>'', ''>='', ''in'', ''contains''] (parseAddSub logicalOr)"

definition parseLogicalAnd :: "ExprNode parser \<Rightarrow> ExprNode parser" where
  "parseLogicalAnd logicalOr = parse_binary [''&&''] (parseComparison logicalOr)"

primrec parseLogicalOr :: "nat \<Rightarrow> ExprNode parser" where
  "parseLogicalOr 0 = (\<lambda>ts. None)"
| "parseLogicalOr (Suc depth) = parse_binary [''||''] (parseLogicalAnd (parseLogicalOr depth))"

text \<open>The loop of \<open>Parse\<close> that collects the tokens; every token but the last consumes input.\<close>

lemma length_skip_space: "length (skip_space l) \<le> length l"
  by (induction l rule: skip_space.induct) auto

lemma length_lex_string: "lex_string q b l = Some (b', l') \<Longrightarrow> length l' < length l"
  by (induction q b l rule: lex_string.induct) (auto split: if_splits list.splits)

lemma length_lex_number: "length (snd (lex_number d l)) \<le> length l"
  by (induction d l rule: lex_number.induct) (auto split: prod.splits)

definition consumes :: "Lexer \<Rightarrow> expr_error + Token \<times> Lexer \<Rightarrow> bool" where
  "consumes rest r \<longleftrightarrow> (case r of Inl e \<Rightarrow> True | Inr (t, l) \<Rightarrow> length l \<le> length rest)"

lemma consumes_if: "(c \<Longrightarrow> consumes rest a) \<Longrightarrow> (\<not> c \<Longrightarrow> consumes rest b) \<Longrightarrow> consumes rest (if c then a else b)"
  by simp

lemma consumes_Inr: "consumes rest (Inr (t, l)) \<longleftrightarrow> length l \<le> length rest"
  by (simp add: consumes_def)

lemma lex_token_consumes: "consumes rest (lex_token ch rest)"
proof -
  have str: "consumes rest (case lex_string ch '''' rest of None \<Rightarrow> Inl e | Some (b, l) \<Rightarrow> Inr (tok TokString b, l))" for e
    by (auto simp: consumes_def dest: length_lex_string split: option.split)
  have num: "consumes rest (case lex_number False (ch # rest) of (b, l) \<Rightarrow> Inr (tok TokNumber b, l))" if "IsDigit ch"
    using length_lex_number[of False rest] that by (cases "lex_number False rest") (simp add: consumes_def)
  have word: "consumes rest (Inr (word_token (takeWhile ident_char (ch # rest)), dropWhile ident_char (ch # rest)))" if "IsLetter ch \<or> ch = CHR ''_''"
    using that length_dropWhile_le[of ident_char rest] by (auto simp: consumes_Inr ident_char_def)
  show ?thesis unfolding lex_token_def
    by (intro consumes_if str num word) (simp_all add: consumes_Inr length_dropWhile_le, simp_all add: consumes_def)
qed

lemma NextToken_consumes:
  assumes "NextToken l = Inr (t, l')" "tk_Type t \<noteq> TokEOF"
  shows "length l' < length l"
proof -
  have ch: "Lexer_peek (skip_space l) \<noteq> CHR 0x00" using assms by (auto simp: NextToken_def Let_def tok_def)
  then obtain c cs where s: "skip_space l = c # cs" by (cases "skip_space l") (simp_all add: Lexer_peek_def)
  have "lex_token c cs = Inr (t, l')" using assms(1) ch by (simp add: NextToken_def Let_def s Lexer_peek_def)
  then show ?thesis using lex_token_consumes[of cs c] length_skip_space[of l] s by (simp add: consumes_def)
qed

function tokenize :: "Token list \<Rightarrow> Lexer \<Rightarrow> expr_error + Token list" where
  "tokenize tokens l =
     (case NextToken l of
        Inl e \<Rightarrow> Inl e
      | Inr (t, l') \<Rightarrow> if tk_Type t = TokEOF then Inr (tokens @ [t]) else tokenize (tokens @ [t]) l')"
  by pat_completeness auto
termination by (relation "measure (length \<circ> snd)") (auto intro: NextToken_consumes)

declare tokenize.simps [simp del]

definition Parse :: "string \<Rightarrow> (expr_error + ExprNode) option" where
  "Parse input =
     (case tokenize [] input of
        Inl e \<Rightarrow> Some (Inl e)
      | Inr tokens \<Rightarrow>
          (case parseLogicalOr (Suc (length tokens)) tokens of
             None \<Rightarrow> None
           | Some (Inl e) \<Rightarrow> Some (Inl e)
           | Some (Inr (node, ts)) \<Rightarrow>
               if tk_Type (Parser_peek ts) \<noteq> TokEOF then Some (Inl (ErrSyntaxError (''unexpected trailing token '' @ tk_Value (Parser_peek ts))))
               else Some (Inr node)))"

section \<open>Evaluation\<close>

definition join_space :: "string list \<Rightarrow> string" where
  "join_space ss = (case ss of [] \<Rightarrow> [] | s # ss \<Rightarrow> s @ concat (map (\<lambda>x. CHR '' '' # x) ss))"

text \<open>\<open>fmt.Sprintf("%v", v)\<close>; maps are printed in the order of their keys.\<close>

primrec Sprint_v :: "any \<Rightarrow> string" where
  "Sprint_v VNil = ''<nil>''"
| "Sprint_v (VBool b) = (if b then ''true'' else ''false'')"
| "Sprint_v (VInt i) = itoa i"
| "Sprint_v (VInt64 i) = itoa i"
| "Sprint_v (VFloat f) = FormatFloat f"
| "Sprint_v (VString s) = s"
| "Sprint_v (VList vs) = ''['' @ join_space (map Sprint_v vs) @ '']''"
| "Sprint_v (VStrings ss) = ''['' @ join_space ss @ '']''"
| "Sprint_v (VMap m) = ''map['' @ join_space (map (\<lambda>(k, s). k @ '':'' @ s) (sorted_list_of_fmap (fmmap Sprint_v m))) @ '']''"

text \<open>
  \<open>isTruthy\<close>: in the case of \<open>int\<close> and \<open>int64\<close> the value is still an interface, and is compared with the
  \<open>int\<close> 0, so that an \<open>int64\<close> is never equal to it.
\<close>

fun isTruthy :: "any \<Rightarrow> bool" where
  "isTruthy VNil = False"
| "isTruthy (VBool b) = b"
| "isTruthy (VInt i) = (i \<noteq> 0)"
| "isTruthy (VInt64 i) = True"
| "isTruthy (VFloat f) = (\<not> f64_eq f f64_zero)"
| "isTruthy (VString s) = (s \<noteq> '''')"
| "isTruthy v = True"

fun toFloat :: "any \<Rightarrow> expr_error + f64" where
  "toFloat (VFloat f) = Inr f"
| "toFloat (VInt i) = Inr (of_int64 i)"
| "toFloat (VInt64 i) = Inr (of_int64 i)"
| "toFloat (VString s) =
     (case ParseFloat s of (f, err) \<Rightarrow>
        if err then Inl (ErrUnsupportedType (''cannot convert string '' @ Quote s @ '' to number'')) else Inr f)"
| "toFloat v = Inl (ErrUnsupportedType (''value '' @ Sprint_v v @ '' cannot be converted to number''))"

definition toFloatPair :: "any \<Rightarrow> any \<Rightarrow> expr_error + f64 \<times> f64" where
  "toFloatPair left right =
     (case toFloat left of
        Inl e \<Rightarrow> Inl e
      | Inr l \<Rightarrow> (case toFloat right of Inl e \<Rightarrow> Inl e | Inr r \<Rightarrow> Inr (l, r)))"

definition isEqual :: "any \<Rightarrow> any \<Rightarrow> bool" where
  "isEqual left right =
     (if left = VNil \<and> right = VNil then True
      else if left = VNil \<or> right = VNil then False
      else case (toFloat left, toFloat right) of
        (Inr lf, Inr rf) \<Rightarrow> f64_eq lf rf
      | _ \<Rightarrow> Sprint_v left = Sprint_v right)"

fun strings_Contains :: "string \<Rightarrow> string \<Rightarrow> bool" where
  "strings_Contains [] sub = (sub = [])"
| "strings_Contains (c # cs) sub = (HasPrefix (c # cs) sub \<or> strings_Contains cs sub)"

definition isIn :: "any \<Rightarrow> any \<Rightarrow> bool" where
  "isIn item collection =
     (case collection of
        VList coll \<Rightarrow> list_ex (isEqual item) coll
      | VStrings coll \<Rightarrow> list_ex (\<lambda>el. Sprint_v item = el) coll
      | VString coll \<Rightarrow> strings_Contains coll (Sprint_v item)
      | _ \<Rightarrow> False)"

definition isContains :: "any \<Rightarrow> any \<Rightarrow> bool" where
  "isContains collection item = isIn item collection"

text \<open>\<open>None\<close> is the nil map.\<close>

type_synonym env = "(string, any) fmap option"

fun path_loop :: "any \<Rightarrow> string list \<Rightarrow> any" where
  "path_loop current [] = current"
| "path_loop current (seg # segs) =
     (if seg = '''' then path_loop current segs
      else case current of
        VMap m \<Rightarrow> (case fmlookup m seg of None \<Rightarrow> VNil | Some val \<Rightarrow> path_loop val segs)
      | _ \<Rightarrow> VNil)"

definition PathNode_Eval :: "string \<Rightarrow> env \<Rightarrow> any" where
  "PathNode_Eval path env =
     (case env of
        None \<Rightarrow> VNil
      | Some m \<Rightarrow> path_loop (VMap m) (Split (CHR ''.'') (TrimPrefix (TrimPrefix path ''$.'') ''$'')))"

definition on_floats :: "(f64 \<Rightarrow> f64 \<Rightarrow> expr_error + any) \<Rightarrow> any \<Rightarrow> any \<Rightarrow> expr_error + any" where
  "on_floats f leftVal rightVal = (case toFloatPair leftVal rightVal of Inl e \<Rightarrow> Inl e | Inr (l, r) \<Rightarrow> f l r)"

definition UnaryNode_Eval :: "string \<Rightarrow> expr_error + any \<Rightarrow> expr_error + any" where
  "UnaryNode_Eval op res =
     (case res of
        Inl e \<Rightarrow> Inl e
      | Inr val \<Rightarrow>
          if op = ''!'' then Inr (VBool (\<not> isTruthy val))
          else if op = ''-'' then (case toFloat val of Inl e \<Rightarrow> Inl e | Inr num \<Rightarrow> Inr (VFloat (f64_neg num)))
          else Inl (ErrSyntaxError op))"

definition binary_value :: "string \<Rightarrow> any \<Rightarrow> any \<Rightarrow> expr_error + any" where
  "binary_value op leftVal rightVal =
     (if op = ''=='' then Inr (VBool (isEqual leftVal rightVal))
      else if op = ''!='' then Inr (VBool (\<not> isEqual leftVal rightVal))
      else if op = ''<'' then on_floats (\<lambda>l r. Inr (VBool (f64_less l r))) leftVal rightVal
      else if op = ''<='' then on_floats (\<lambda>l r. Inr (VBool (f64_le l r))) leftVal rightVal
      else if op = ''>'' then on_floats (\<lambda>l r. Inr (VBool (f64_less r l))) leftVal rightVal
      else if op = ''>='' then on_floats (\<lambda>l r. Inr (VBool (f64_le r l))) leftVal rightVal
      else if op = ''+'' then
        (case leftVal of
           VString ls \<Rightarrow> Inr (VString (ls @ Sprint_v rightVal))
         | _ \<Rightarrow> on_floats (\<lambda>l r. Inr (VFloat (f64_add l r))) leftVal rightVal)
      else if op = ''-'' then on_floats (\<lambda>l r. Inr (VFloat (f64_sub l r))) leftVal rightVal
      else if op = ''*'' then on_floats (\<lambda>l r. Inr (VFloat (f64_mul l r))) leftVal rightVal
      else if op = ''/'' then
        on_floats (\<lambda>l r. if f64_eq r f64_zero then Inl ErrDivisionByZero else Inr (VFloat (f64_div l r))) leftVal rightVal
      else if op = ''in'' then Inr (VBool (isIn leftVal rightVal))
      else if op = ''contains'' then Inr (VBool (isContains leftVal rightVal))
      else Inl (ErrSyntaxError (''unknown operator '' @ op)))"

text \<open>The operands come with the results of their evaluation, which has no effects.\<close>

definition BinaryNode_Eval :: "string \<Rightarrow> expr_error + any \<Rightarrow> expr_error + any \<Rightarrow> expr_error + any" where
  "BinaryNode_Eval op left right =
     (if op = ''||'' then
        (case left of
           Inl e \<Rightarrow> Inl e
         | Inr leftVal \<Rightarrow>
             if isTruthy leftVal then Inr (VBool True)
             else (case right of Inl e \<Rightarrow> Inl e | Inr rightVal \<Rightarrow> Inr (VBool (isTruthy rightVal))))
      else if op = ''&&'' then
        (case left of
           Inl e \<Rightarrow> Inl e
         | Inr leftVal \<Rightarrow>
             if \<not> isTruthy leftVal then Inr (VBool False)
             else (case right of Inl e \<Rightarrow> Inl e | Inr rightVal \<Rightarrow> Inr (VBool (isTruthy rightVal))))
      else
        (case left of
           Inl e \<Rightarrow> Inl e
         | Inr leftVal \<Rightarrow> (case right of Inl e \<Rightarrow> Inl e | Inr rightVal \<Rightarrow> binary_value op leftVal rightVal)))"

fun ListNode_Eval :: "any list \<Rightarrow> (expr_error + any) list \<Rightarrow> expr_error + any" where
  "ListNode_Eval out [] = Inr (VList out)"
| "ListNode_Eval out (Inl e # rs) = Inl e"
| "ListNode_Eval out (Inr v # rs) = ListNode_Eval (out @ [v]) rs"

primrec Node_Eval :: "env \<Rightarrow> ExprNode \<Rightarrow> expr_error + any" where
  "Node_Eval env (LiteralNode v) = Inr v"
| "Node_Eval env (ListNode elements) = ListNode_Eval [] (map (Node_Eval env) elements)"
| "Node_Eval env (PathNode path) = Inr (PathNode_Eval path env)"
| "Node_Eval env (UnaryNode op e) = UnaryNode_Eval op (Node_Eval env e)"
| "Node_Eval env (BinaryNode l op r) = BinaryNode_Eval op (Node_Eval env l) (Node_Eval env r)"

definition Evaluate :: "string \<Rightarrow> env \<Rightarrow> (expr_error + any) option" where
  "Evaluate exprStr env =
     (case Parse exprStr of
        None \<Rightarrow> None
      | Some (Inl e) \<Rightarrow> Some (Inl e)
      | Some (Inr ast) \<Rightarrow> Some (Node_Eval env ast))"

definition EvaluateBool :: "string \<Rightarrow> env \<Rightarrow> (expr_error + bool) option" where
  "EvaluateBool exprStr env = map_option (\<lambda>res. case res of Inl e \<Rightarrow> Inl e | Inr v \<Rightarrow> Inr (isTruthy v)) (Evaluate exprStr env)"

end
