(* ===== verification/Expr_Types.thy ===== *)
theory Expr_Types
  imports Expr
begin

text \<open>
  The parser of \<open>internal/expr\<close> always returns, and what it returns evaluates to a value of the type that
  its operators promise.
\<close>

section \<open>The parser returns\<close>

definition returns_at_most :: "nat \<Rightarrow> (expr_error + 'a \<times> Token list) option \<Rightarrow> bool" where
  "returns_at_most k r \<longleftrightarrow> (case r of None \<Rightarrow> False | Some (Inl e) \<Rightarrow> True | Some (Inr (a, ts')) \<Rightarrow> length ts' \<le> k)"

text \<open>
  A parser is total up to a number of tokens if it returns on every shorter input, having consumed at least one
  token when it succeeds.
\<close>

definition total_below :: "nat \<Rightarrow> 'a parser \<Rightarrow> bool" where
  "total_below m p \<longleftrightarrow>
     (\<forall>ts. length ts < m \<longrightarrow> returns_at_most (length ts - 1) (p ts) \<and> (ts = [] \<longrightarrow> (\<exists>e. p ts = Some (Inl e))))"

lemma returns_bind:
  assumes "returns_at_most k r" "\<And>a ts'. length ts' \<le> k \<Longrightarrow> returns_at_most k' (f a ts')"
  shows "returns_at_most k' (bind_parser r f)"
proof (cases r)
  case None
  then show ?thesis using assms(1) by (simp add: returns_at_most_def)
next
  case (Some x)
  then show ?thesis using assms
    by (cases x) (auto simp: bind_parser_def, auto simp: returns_at_most_def)
qed

lemma returns_mono: "returns_at_most k r \<Longrightarrow> k \<le> k' \<Longrightarrow> returns_at_most k' r"
  by (auto simp: returns_at_most_def split: option.splits sum.splits)

lemma returns_simps [simp]: "returns_at_most k (Some (Inl e))" "returns_at_most k (Some (Inr (a, ts))) \<longleftrightarrow> length ts \<le> k"
  by (simp_all add: returns_at_most_def)

lemma total_belowD: "total_below m p \<Longrightarrow> length ts < m \<Longrightarrow> returns_at_most (length ts - 1) (p ts)"
  by (simp add: total_below_def)

lemma total_below_Nil: "total_below m p \<Longrightarrow> 0 < m \<Longrightarrow> \<exists>e. p [] = Some (Inl e)"
  unfolding total_below_def by (drule spec[of _ "[]"]) simp

lemma peek_not_EOF: "tk_Type (Parser_peek ts) \<noteq> TokEOF \<Longrightarrow> ts \<noteq> []"
  by (auto simp: Parser_peek_def tok_def)

lemma is_op_nonempty: "is_op ops (Parser_peek ts) \<Longrightarrow> ts \<noteq> []"
  by (rule peek_not_EOF) (simp add: is_op_def)

lemma binary_loop_returns:
  assumes "total_below m operand"
  shows "length ts < n \<Longrightarrow> length ts \<le> m \<Longrightarrow> returns_at_most (length ts) (binary_loop n ops operand left ts)"
proof (induction n arbitrary: left ts)
  case (Suc n)
  show ?case
  proof (cases "is_op ops (Parser_peek ts)")
    case True
    then have ne: "length (tl ts) < length ts" using is_op_nonempty by (cases ts) auto
    then have "returns_at_most (length (tl ts) - 1) (operand (tl ts))" using Suc.prems by (intro total_belowD[OF assms]) simp
    moreover have "returns_at_most (length ts) (binary_loop n ops operand (BinaryNode left op right) ts')" if "length ts' \<le> length (tl ts) - 1" for op right ts'
      by (rule returns_mono[OF Suc.IH]) (use that Suc.prems ne in simp_all)
    ultimately show ?thesis unfolding binary_loop.simps if_P[OF True] by (rule returns_bind)
  qed simp
qed simp

lemma total_parse_binary:
  assumes "total_below m operand"
  shows "total_below m (parse_binary ops operand)"
  unfolding total_below_def
proof (intro allI impI conjI)
  fix ts :: "Token list" assume ts: "length ts < m"
  have "returns_at_most (length ts - 1) (binary_loop (Suc (length ts')) ops operand left ts')" if "length ts' \<le> length ts - 1" for left ts'
    by (rule returns_mono[OF binary_loop_returns[OF assms]]) (use that ts in simp_all)
  then show "returns_at_most (length ts - 1) (parse_binary ops operand ts)"
    unfolding parse_binary_def by (rule returns_bind[OF total_belowD[OF assms ts]])
  show "\<exists>e. parse_binary ops operand ts = Some (Inl e)" if "ts = []"
    using total_below_Nil[OF assms] ts that by (auto simp: parse_binary_def bind_parser_def)
qed

lemma list_loop_returns:
  assumes "total_below m element"
  shows "length ts < n \<Longrightarrow> length ts < m \<Longrightarrow> returns_at_most (length ts) (list_loop n element elements ts)"
proof (induction n arbitrary: elements ts)
  case (Suc n)
  show ?case
  proof (cases "tk_Type (Parser_peek ts) = TokRBracket")
    case False
    obtain e where e: "ts = [] \<Longrightarrow> element ts = Some (Inl e)" using total_below_Nil[OF assms] Suc.prems(2) by fastforce
    have "returns_at_most (length ts) (if tk_Type (Parser_peek ts') = TokComma then list_loop n element (elements @ [el]) (tl ts')
      else if tk_Type (Parser_peek ts') \<noteq> TokRBracket then Some (Inl (ErrSyntaxError ''expected comma or closing bracket''))
      else list_loop n element (elements @ [el]) ts')" if "length ts' \<le> length ts - 1" "ts \<noteq> []" for el ts'
      using that Suc.prems returns_mono[OF Suc.IH, of "tl ts'" "length ts"] returns_mono[OF Suc.IH, of ts' "length ts"] by (cases ts) auto
    then have "ts \<noteq> [] \<Longrightarrow> ?thesis" unfolding list_loop.simps if_not_P[OF False]
      by (intro returns_bind[OF total_belowD[OF assms Suc.prems(2)]]) blast
    moreover have "ts = [] \<Longrightarrow> ?thesis" unfolding list_loop.simps if_not_P[OF False] using e by (simp add: bind_parser_def)
    ultimately show ?thesis by blast
  qed simp
qed simp

lemma total_parsePrimary:
  assumes "total_below m logicalOr"
  shows "total_below (Suc m) (parsePrimary logicalOr)"
  unfolding total_below_def
proof (intro allI impI conjI)
  fix ts :: "Token list" assume ts: "length ts < Suc m"
  show "\<exists>e. parsePrimary logicalOr ts = Some (Inl e)" if "ts = []"
    using that by (simp add: parsePrimary_def Parser_peek_def tok_def)
  show "returns_at_most (length ts - 1) (parsePrimary logicalOr ts)"
  proof (cases ts)
    case Nil
    then show ?thesis by (simp add: parsePrimary_def Parser_peek_def tok_def)
  next
    case (Cons t rest)
    then have rest: "length rest < m" using ts by simp
    have paren: "returns_at_most (length rest) (bind_parser (logicalOr rest) (\<lambda>sub ts.
        if tk_Type (Parser_peek ts) \<noteq> TokRParen then Some (Inl e) else Some (Inr (sub, tl ts))))" for e
      by (rule returns_bind[OF total_belowD[OF assms rest]]) auto
    have "returns_at_most (length rest) (bind_parser (list_loop (Suc (length rest)) logicalOr [] rest) (\<lambda>elements ts. Some (Inr (ListNode elements, tl ts))))"
      by (rule returns_bind[OF list_loop_returns[OF assms _ rest]]) simp_all
    then show ?thesis using paren by (simp add: Cons parsePrimary_def Parser_peek_def split: TokenType.split)
  qed
qed

lemma total_parseUnary:
  assumes "total_below m logicalOr"
  shows "total_below (Suc m) (parseUnary logicalOr)"
  unfolding total_below_def
proof (intro allI impI conjI)
  fix ts :: "Token list" assume ts: "length ts < Suc m"
  note prim = total_parsePrimary[OF assms]
  show "\<exists>e. parseUnary logicalOr ts = Some (Inl e)" if "ts = []"
    using that total_below_Nil[OF prim] by (simp add: parseUnary_def Parser_peek_def is_op_def tok_def)
  have "returns_at_most (length ts - 1) (bind_parser (parsePrimary logicalOr (tl ts)) (\<lambda>sub ts'. Some (Inr (UnaryNode op sub, ts'))))" for op
    by (rule returns_bind[OF total_belowD[OF prim]]) (use ts in auto)
  then show "returns_at_most (length ts - 1) (parseUnary logicalOr ts)"
    using total_belowD[OF prim ts] by (simp add: parseUnary_def)
qed

lemma total_parseLogicalOr: "total_below depth (parseLogicalOr depth)"
proof (induction depth)
  case 0
  then show ?case by (simp add: total_below_def)
next
  case (Suc depth)
  then show ?case
    by (simp add: parseLogicalAnd_def parseComparison_def parseAddSub_def parseMulDiv_def total_parse_binary total_parseUnary)
qed

lemma Parse_returns: "Parse s \<noteq> None"
proof (cases "tokenize [] s")
  case (Inr tokens)
  have "returns_at_most (length tokens - 1) (parseLogicalOr (Suc (length tokens)) tokens)"
    by (rule total_belowD[OF total_parseLogicalOr]) simp
  then show ?thesis using Inr by (simp add: Parse_def returns_at_most_def split: option.splits sum.splits)
qed (simp add: Parse_def)

section \<open>What the parser builds\<close>

definition logical_ops :: "string list" where
  "logical_ops = [''||'', ''&&'']"

definition comparison_ops :: "string list" where
  "comparison_ops = [''=='', ''!='', ''<'', ''<='', ''>'', ''>='', ''in'', ''contains'']"

definition arithmetic_ops :: "string list" where
  "arithmetic_ops = [''+'', ''-'', ''*'', ''/'']"

primrec well_formed :: "ExprNode \<Rightarrow> bool" where
  "well_formed (LiteralNode v) \<longleftrightarrow> (case v of VNil \<Rightarrow> True | VBool _ \<Rightarrow> True | VFloat _ \<Rightarrow> True | VString _ \<Rightarrow> True | _ \<Rightarrow> False)"
| "well_formed (ListNode ns) \<longleftrightarrow> list_all id (map well_formed ns)"
| "well_formed (PathNode p) = True"
| "well_formed (UnaryNode op n) \<longleftrightarrow> op \<in> {''!'', ''-''} \<and> well_formed n"
| "well_formed (BinaryNode l op r) \<longleftrightarrow> op \<in> set (logical_ops @ comparison_ops @ arithmetic_ops) \<and> well_formed l \<and> well_formed r"

definition yields :: "('a \<Rightarrow> bool) \<Rightarrow> (expr_error + 'a \<times> Token list) option \<Rightarrow> bool" where
  "yields P r \<longleftrightarrow> (case r of Some (Inr (a, ts)) \<Rightarrow> P a | _ \<Rightarrow> True)"

lemma yields_simps [simp]: "yields P None" "yields P (Some (Inl e))" "yields P (Some (Inr (a, ts))) \<longleftrightarrow> P a"
  by (simp_all add: yields_def)

lemma yields_bind: "yields P r \<Longrightarrow> (\<And>a ts. P a \<Longrightarrow> yields Q (f a ts)) \<Longrightarrow> yields Q (bind_parser r f)"
  by (cases r; cases "the r") (auto simp: bind_parser_def)

lemma yields_binary_loop:
  assumes "\<And>ts. yields well_formed (operand ts)" "set ops \<subseteq> set (logical_ops @ comparison_ops @ arithmetic_ops)"
  shows "well_formed left \<Longrightarrow> yields well_formed (binary_loop n ops operand left ts)"
proof (induction n arbitrary: left ts)
  case (Suc n)
  show ?case
  proof (cases "is_op ops (Parser_peek ts)")
    case True
    then have "well_formed (BinaryNode left (tk_Value (Parser_peek ts)) right)" if "well_formed right" for right
      using that Suc.prems assms(2) by (auto simp: is_op_def)
    then show ?thesis unfolding binary_loop.simps if_P[OF True] by (intro yields_bind[OF assms(1)] Suc.IH)
  qed (use Suc.prems in simp)
qed simp

lemma yields_parse_binary:
  assumes "\<And>ts. yields well_formed (operand ts)" "set ops \<subseteq> set (logical_ops @ comparison_ops @ arithmetic_ops)"
  shows "yields well_formed (parse_binary ops operand ts)"
  unfolding parse_binary_def by (intro yields_bind[OF assms(1)] yields_binary_loop[OF assms])

lemma yields_list_loop:
  assumes "\<And>ts. yields well_formed (element ts)"
  shows "list_all well_formed elements \<Longrightarrow> yields (list_all well_formed) (list_loop n element elements ts)"
proof (induction n arbitrary: elements ts)
  case (Suc n)
  have "yields (list_all well_formed) (if tk_Type (Parser_peek ts') = TokComma then list_loop n element (elements @ [el]) (tl ts')
      else if tk_Type (Parser_peek ts') \<noteq> TokRBracket then Some (Inl (ErrSyntaxError ''expected comma or closing bracket''))
      else list_loop n element (elements @ [el]) ts')" if "well_formed el" for el ts'
    using that Suc by simp
  then show ?case unfolding list_loop.simps using Suc.prems by (auto intro!: yields_bind[OF assms])
qed simp

lemma yields_parsePrimary:
  assumes "\<And>ts. yields well_formed (logicalOr ts)"
  shows "yields well_formed (parsePrimary logicalOr ts)"
proof -
  have "yields well_formed (bind_parser (logicalOr ts') (\<lambda>sub ts. if tk_Type (Parser_peek ts) \<noteq> TokRParen then Some (Inl e) else Some (Inr (sub, tl ts))))" for ts' e
    by (rule yields_bind[OF assms]) simp
  moreover have "yields well_formed (bind_parser (list_loop n logicalOr [] ts') (\<lambda>elements ts. Some (Inr (ListNode elements, tl ts))))" for n ts'
    by (rule yields_bind[OF yields_list_loop[OF assms]]) (simp_all add: list_all_iff)
  ultimately show ?thesis unfolding parsePrimary_def Let_def by (simp split: TokenType.split del: list_loop.simps)
qed

lemma yields_parseUnary:
  assumes "\<And>ts. yields well_formed (logicalOr ts)"
  shows "yields well_formed (parseUnary logicalOr ts)"
proof -
  have "yields well_formed (bind_parser (parsePrimary logicalOr ts') (\<lambda>sub ts'. Some (Inr (UnaryNode op sub, ts'))))" if "op \<in> {''!'', ''-''}" for op ts'
    by (rule yields_bind[OF yields_parsePrimary[OF assms]]) (use that in simp)
  then show ?thesis using yields_parsePrimary[OF assms] by (simp add: parseUnary_def is_op_def)
qed

lemma yields_parseLogicalOr: "yields well_formed (parseLogicalOr depth ts)"
proof (induction depth arbitrary: ts)
  case (Suc depth)
  note ops = logical_ops_def comparison_ops_def arithmetic_ops_def
  have mul: "yields well_formed (parseMulDiv (parseLogicalOr depth) ts)" for ts
    unfolding parseMulDiv_def by (intro yields_parse_binary yields_parseUnary Suc) (simp add: ops)
  have add: "yields well_formed (parseAddSub (parseLogicalOr depth) ts)" for ts
    unfolding parseAddSub_def by (intro yields_parse_binary mul) (simp add: ops)
  have cmp: "yields well_formed (parseComparison (parseLogicalOr depth) ts)" for ts
    unfolding parseComparison_def by (intro yields_parse_binary add) (simp add: ops)
  have conj: "yields well_formed (parseLogicalAnd (parseLogicalOr depth) ts)" for ts
    unfolding parseLogicalAnd_def by (intro yields_parse_binary cmp) (simp add: ops)
  show ?case unfolding parseLogicalOr.simps by (intro yields_parse_binary conj) (simp add: ops)
qed simp

lemma Parse_well_formed: "Parse s = Some (Inr n) \<Longrightarrow> well_formed n"
  using yields_parseLogicalOr[of "Suc (length (projr (tokenize [] s)))" "projr (tokenize [] s)"]
  by (auto simp: Parse_def split: sum.splits option.splits if_splits)

section \<open>Types\<close>

datatype ty = TyAny | TyNil | TyBool | TyNumber | TyString | TyList

fun type_of :: "any \<Rightarrow> ty" where
  "type_of VNil = TyNil"
| "type_of (VBool _) = TyBool"
| "type_of (VFloat _) = TyNumber"
| "type_of (VString _) = TyString"
| "type_of (VList _) = TyList"
| "type_of _ = TyAny"

definition has_type :: "any \<Rightarrow> ty \<Rightarrow> bool" where
  "has_type v t \<longleftrightarrow> t = TyAny \<or> type_of v = t"

text \<open>The type of an expression: comparisons and logic are boolean, arithmetic is numeric, except that \<open>+\<close> on a string appends.\<close>

primrec node_type :: "ExprNode \<Rightarrow> ty" where
  "node_type (LiteralNode v) = type_of v"
| "node_type (ListNode ns) = TyList"
| "node_type (PathNode p) = TyAny"
| "node_type (UnaryNode op n) = (if op = ''!'' then TyBool else TyNumber)"
| "node_type (BinaryNode l op r) =
     (if op \<in> set arithmetic_ops
      then if op = ''+'' \<and> node_type l \<in> {TyString, TyAny} then node_type l else TyNumber
      else TyBool)"

fun runtime_error :: "expr_error \<Rightarrow> bool" where
  "runtime_error (ErrUnsupportedType _) = True"
| "runtime_error ErrDivisionByZero = True"
| "runtime_error _ = False"

definition typed_result :: "ty \<Rightarrow> expr_error + any \<Rightarrow> bool" where
  "typed_result t r \<longleftrightarrow> (case r of Inl e \<Rightarrow> runtime_error e | Inr v \<Rightarrow> has_type v t)"

lemma typed_result_simps [simp]: "typed_result t (Inl e) = runtime_error e" "typed_result t (Inr v) = has_type v t"
  by (simp_all add: typed_result_def)

lemma toFloat_error: "toFloat v = Inl e \<Longrightarrow> runtime_error e"
  by (cases v) (auto split: prod.splits if_splits)

lemma on_floats_typed:
  assumes "\<And>l r. typed_result t (f l r)"
  shows "typed_result t (on_floats f a b)"
  using assms by (auto simp: on_floats_def toFloatPair_def dest: toFloat_error split: sum.splits)

lemma binary_value_typed:
  assumes "op \<in> set (comparison_ops @ arithmetic_ops)" "has_type a t"
  shows "typed_result (if op \<in> set arithmetic_ops then if op = ''+'' \<and> t \<in> {TyString, TyAny} then t else TyNumber else TyBool) (binary_value op a b)"
proof -
  have num: "typed_result TyNumber (on_floats (\<lambda>l r. Inr (VFloat (f l r))) a b)" for f
    by (rule on_floats_typed) (simp add: has_type_def)
  have cmp: "typed_result TyBool (on_floats (\<lambda>l r. Inr (VBool (f l r))) a b)" for f
    by (rule on_floats_typed) (simp add: has_type_def)
  have dv: "typed_result TyNumber (on_floats (\<lambda>l r. if f64_eq r f64_zero then Inl ErrDivisionByZero else Inr (VFloat (f64_div l r))) a b)"
    by (rule on_floats_typed) (simp add: has_type_def)
  have bool: "typed_result TyBool (Inr (VBool x))" for x by (simp add: has_type_def)
  have add: "typed_result (if t \<in> {TyString, TyAny} then t else TyNumber) (binary_value ''+'' a b)"
  proof (cases "\<exists>s. a = VString s")
    case True
    then show ?thesis using assms(2) by (auto simp: binary_value_def has_type_def)
  next
    case False
    then have "binary_value ''+'' a b = on_floats (\<lambda>l r. Inr (VFloat (f64_add l r))) a b"
      by (cases a) (simp_all add: binary_value_def)
    moreover have "t \<noteq> TyString" using False assms(2) by (cases a) (auto simp: has_type_def)
    moreover have "typed_result TyAny (on_floats (\<lambda>l r. Inr (VFloat (f64_add l r))) a b)"
      by (rule on_floats_typed) (simp add: has_type_def)
    ultimately show ?thesis using num by simp
  qed
  have plus: "''+'' \<in> set arithmetic_ops" by (simp add: arithmetic_ops_def)
  show ?thesis
  proof (cases "op = ''+''")
    case True
    then show ?thesis using add plus by simp
  next
    case False
    have "typed_result TyNumber (binary_value op a b)" if "op \<in> set arithmetic_ops"
      using that False unfolding arithmetic_ops_def list.set
      by (elim insertE emptyE) (simp_all add: binary_value_def num dv)
    moreover have "typed_result TyBool (binary_value op a b)" if "op \<in> set comparison_ops"
      using that unfolding comparison_ops_def list.set
      by (elim insertE emptyE) (simp_all add: binary_value_def cmp has_type_def)
    moreover have "op \<in> set comparison_ops \<or> op \<in> set arithmetic_ops" using assms(1) by simp
    ultimately show ?thesis using False by auto
  qed
qed

lemma BinaryNode_Eval_typed:
  assumes "op \<in> set (logical_ops @ comparison_ops @ arithmetic_ops)" "typed_result t left" "typed_result t' right"
  shows "typed_result (if op \<in> set arithmetic_ops then if op = ''+'' \<and> t \<in> {TyString, TyAny} then t else TyNumber else TyBool) (BinaryNode_Eval op left right)"
proof (cases "op \<in> set logical_ops")
  case True
  then have "op \<notin> set arithmetic_ops" unfolding logical_ops_def list.set
    by (elim insertE emptyE) (simp_all add: arithmetic_ops_def)
  moreover have "typed_result TyBool (BinaryNode_Eval op left right)"
    using True assms(2,3) unfolding logical_ops_def list.set
    by (elim insertE emptyE; cases left; cases right) (simp_all add: BinaryNode_Eval_def has_type_def)
  ultimately show ?thesis by simp
next
  case False
  then have ops: "op \<in> set (comparison_ops @ arithmetic_ops)" "op \<noteq> ''||''" "op \<noteq> ''&&''" using assms(1) by (auto simp: logical_ops_def)
  show ?thesis
  proof (cases left)
    case (Inl e)
    then show ?thesis using assms(2) ops by (simp add: BinaryNode_Eval_def)
  next
    case (Inr a)
    then show ?thesis using assms(2,3) ops binary_value_typed[OF ops(1), of a t]
      by (cases right) (simp_all add: BinaryNode_Eval_def)
  qed
qed

lemma ListNode_Eval_typed:
  "list_all (\<lambda>r. case r of Inl e \<Rightarrow> runtime_error e | Inr v \<Rightarrow> True) rs \<Longrightarrow> typed_result TyList (ListNode_Eval out rs)"
  by (induction out rs rule: ListNode_Eval.induct) (simp_all add: has_type_def)

lemma Node_Eval_typed: "well_formed n \<Longrightarrow> typed_result (node_type n) (Node_Eval env n)"
proof (induction n)
  case (LiteralNode v)
  then show ?case by (simp add: has_type_def)
next
  case (ListNode ns)
  then have "list_all (\<lambda>r. case r of Inl e \<Rightarrow> runtime_error e | Inr v \<Rightarrow> True) (map (Node_Eval env) ns)"
    by (fastforce simp: list_all_iff typed_result_def split: sum.splits)
  then show ?case using ListNode_Eval_typed by simp
next
  case (UnaryNode op n)
  then show ?case by (auto simp: UnaryNode_Eval_def has_type_def typed_result_def dest: toFloat_error split: sum.splits)
next
  case (BinaryNode l op r)
  then show ?case using BinaryNode_Eval_typed[of op "node_type l" "Node_Eval env l" "node_type r" "Node_Eval env r"] by simp
qed (simp add: has_type_def)

text \<open>
  (C24) Expressions are typed. \<open>Parse\<close> returns on every text, with an error or with a tree; evaluating the tree
  in any environment gives a value of the type that the tree promises (logic and comparisons a
  boolean, arithmetic a number, \<open>+\<close> on a string a string, brackets a list) or one of the two runtime
  errors, an operand that is no number or a division by zero. The evaluator's cases for unknown operators are
  never reached.
\<close>

theorem Expr_typed:
  "\<exists>r. Parse s = Some r \<and>
     (\<forall>n. r = Inr n \<longrightarrow> (case Node_Eval env n of Inl e \<Rightarrow> runtime_error e | Inr v \<Rightarrow> has_type v (node_type n)))"
proof -
  obtain r where r: "Parse s = Some r" using Parse_returns[of s] by auto
  then show ?thesis using Node_Eval_typed[OF Parse_well_formed, of s] by (auto simp: typed_result_def)
qed

text \<open>The zero of \<open>int64\<close> counts as true, the zero of \<open>int\<close> does not.\<close>

lemma int64_zero_truthy: "isTruthy (VInt64 0) \<and> \<not> isTruthy (VInt 0)"
  by simp

lemma sample_parse:
  "Parse ''$.a && !$.b'' = Some (Inr (BinaryNode (PathNode ''$.a'') ''&&'' (UnaryNode ''!'' (PathNode ''$.b''))))"
  by code_simp

theorem Expr_typed_witness:
  "\<exists>n. Parse ''$.a && !$.b'' = Some (Inr n) \<and> node_type n = TyBool \<and>
     (case Node_Eval None n of Inl e \<Rightarrow> runtime_error e | Inr v \<Rightarrow> has_type v TyBool)"
proof -
  let ?n = "BinaryNode (PathNode ''$.a'') ''&&'' (UnaryNode ''!'' (PathNode ''$.b''))"
  have c: "case Node_Eval None ?n of Inl e \<Rightarrow> runtime_error e | Inr v \<Rightarrow> has_type v (node_type ?n)"
    using Expr_typed[of "''$.a && !$.b''" None] by (simp only: sample_parse option.inject sum.inject) blast
  have t: "node_type ?n = TyBool" by (simp add: arithmetic_ops_def)
  show ?thesis using sample_parse t c[unfolded t] by blast
qed

end
