(* ===== verification/Expr_Grammar.thy ===== *)
theory Expr_Grammar
  imports Expr_Types
begin

text \<open>
  The grammar of \<open>internal/expr\<close>, as a printer that puts only the parentheses which the precedence of the operators
  requires, and the theorem that lexer and parser read the printed text back.
\<close>

section \<open>Printing\<close>

datatype expr =
    ENumber string
  | EString string
  | EBool bool
  | ENull
  | EPath string
  | EList "expr list"
  | EUnary string expr
  | EBinary expr string expr

primrec to_node :: "expr \<Rightarrow> ExprNode" where
  "to_node (ENumber s) = LiteralNode (VFloat (fst (ParseFloat s)))"
| "to_node (EString s) = LiteralNode (VString s)"
| "to_node (EBool b) = LiteralNode (VBool b)"
| "to_node ENull = LiteralNode VNil"
| "to_node (EPath p) = PathNode p"
| "to_node (EList es) = ListNode (map to_node es)"
| "to_node (EUnary op e) = UnaryNode op (to_node e)"
| "to_node (EBinary l op r) = BinaryNode (to_node l) op (to_node r)"

text \<open>The operators of each level, from the loosest to the tightest. Unary operators have level 5, primary expressions 6.\<close>

definition ops_at :: "nat \<Rightarrow> string list" where
  "ops_at p = [[''||''], [''&&''], comparison_ops, [''+'', ''-''], [''*'', ''/'']] ! p"

definition op_level :: "string \<Rightarrow> nat" where
  "op_level op = (if op = ''||'' then 0 else if op = ''&&'' then 1 else if op \<in> set comparison_ops then 2
     else if op \<in> {''+'', ''-''} then 3 else 4)"

definition parens_if :: "bool \<Rightarrow> Token list \<Rightarrow> Token list" where
  "parens_if b ts = (if b then [tok TokLParen ''(''] @ ts @ [tok TokRParen '')''] else ts)"

fun commas :: "Token list list \<Rightarrow> Token list" where
  "commas [] = []"
| "commas [ts] = ts"
| "commas (ts # tss) = ts @ [tok TokComma '',''] @ commas tss"

primrec print_expr :: "expr \<Rightarrow> nat \<Rightarrow> Token list" where
  "print_expr (ENumber s) = (\<lambda>p. [tok TokNumber s])"
| "print_expr (EString s) = (\<lambda>p. [tok TokString s])"
| "print_expr (EBool b) = (\<lambda>p. [tok TokBool (if b then ''true'' else ''false'')])"
| "print_expr ENull = (\<lambda>p. [tok TokNull ''null''])"
| "print_expr (EPath s) = (\<lambda>p. [tok TokPath s])"
| "print_expr (EList es) = (\<lambda>p. [tok TokLBracket ''[''] @ commas (map (\<lambda>f. f 0) (map print_expr es)) @ [tok TokRBracket '']''])"
| "print_expr (EUnary op e) = (\<lambda>p. parens_if (p > 5) (tok TokOp op # print_expr e 6))"
| "print_expr (EBinary l op r) =
     (\<lambda>p. parens_if (p > op_level op) (print_expr l (op_level op) @ tok TokOp op # print_expr r (Suc (op_level op))))"

primrec legal :: "expr \<Rightarrow> bool" where
  "legal (ENumber s) \<longleftrightarrow> s \<noteq> '''' \<and> IsDigit (hd s) \<and> lex_number False s = (s, [])"
| "legal (EString s) \<longleftrightarrow> CHR 0x00 \<notin> set s"
| "legal (EBool b) = True"
| "legal ENull = True"
| "legal (EPath s) \<longleftrightarrow> s \<noteq> '''' \<and> hd s = CHR ''$'' \<and> list_all path_char (tl s)"
| "legal (EList es) \<longleftrightarrow> list_all id (map legal es)"
| "legal (EUnary op e) \<longleftrightarrow> op \<in> {''!'', ''-''} \<and> legal e"
| "legal (EBinary l op r) \<longleftrightarrow> op \<in> set (logical_ops @ comparison_ops @ arithmetic_ops) \<and> legal l \<and> legal r"

section \<open>The levels of the parser\<close>

definition level_parser :: "nat \<Rightarrow> nat \<Rightarrow> ExprNode parser" where
  "level_parser depth p =
     [parseLogicalOr (Suc depth), parseLogicalAnd (parseLogicalOr depth), parseComparison (parseLogicalOr depth),
      parseAddSub (parseLogicalOr depth), parseMulDiv (parseLogicalOr depth), parseUnary (parseLogicalOr depth),
      parsePrimary (parseLogicalOr depth)] ! p"

lemma less_5: "p < 5 \<Longrightarrow> p = 0 \<or> p = 1 \<or> p = 2 \<or> p = 3 \<or> p = (4 :: nat)"
  by arith

lemma level_parser_binary: "p < 5 \<Longrightarrow> level_parser depth p = parse_binary (ops_at p) (level_parser depth (Suc p))"
  by (drule less_5, elim disjE)
     (simp_all add: level_parser_def ops_at_def parseLogicalAnd_def parseComparison_def parseAddSub_def parseMulDiv_def comparison_ops_def numeral_eq_Suc)

lemma total_level_parser: "p \<le> 6 \<Longrightarrow> total_below (Suc depth) (level_parser depth p)"
proof -
  have top: "total_below (Suc depth) (level_parser depth 6)" "total_below (Suc depth) (level_parser depth 5)"
    by (simp_all add: level_parser_def total_parsePrimary total_parseUnary total_parseLogicalOr)
  have step: "total_below (Suc depth) (level_parser depth (Suc q)) \<Longrightarrow> total_below (Suc depth) (level_parser depth q)" if "q < 5" for q
    unfolding level_parser_binary[OF that] by (rule total_parse_binary)
  assume "p \<le> 6"
  then show ?thesis
  proof (induction p rule: inc_induct)
    case (step q)
    then show ?case using top(2) \<open>\<And>q. q < 5 \<Longrightarrow> _ \<Longrightarrow> _\<close>[of q] by (cases "q = 5") auto
  qed (rule top(1))
qed

lemma bind_parser_cong:
  assumes "returns_at_most k r" "\<And>a ts. length ts \<le> k \<Longrightarrow> f a ts = g a ts"
  shows "bind_parser r f = bind_parser r g"
  using assms by (cases r; cases "the r") (auto simp: bind_parser_def returns_at_most_def)

lemma binary_loop_budget:
  assumes "total_below m operand"
  shows "length ts \<le> m \<Longrightarrow> length ts < n \<Longrightarrow> length ts < n' \<Longrightarrow> binary_loop n ops operand left ts = binary_loop n' ops operand left ts"
proof (induction n arbitrary: n' left ts)
  case (Suc n)
  then obtain k where n': "n' = Suc k" by (cases n') auto
  show ?case
  proof (cases "is_op ops (Parser_peek ts)")
    case True
    then have ne: "length (tl ts) < length ts" using is_op_nonempty by (cases ts) auto
    then have "returns_at_most (length (tl ts) - 1) (operand (tl ts))" using Suc.prems by (intro total_belowD[OF assms]) simp
    then show ?thesis unfolding n' binary_loop.simps if_P[OF True]
      by (rule bind_parser_cong) (use Suc.prems n' ne in \<open>intro Suc.IH; simp\<close>)
  qed (simp add: n')
qed simp

section \<open>Reading printed tokens\<close>

definition stops :: "nat \<Rightarrow> Token list \<Rightarrow> bool" where
  "stops p ts \<longleftrightarrow> (\<forall>q. p \<le> q \<longrightarrow> q < 5 \<longrightarrow> \<not> is_op (ops_at q) (Parser_peek ts))"

text \<open>The budget for the nesting is the number of tokens.\<close>

definition accepts :: "nat \<Rightarrow> expr \<Rightarrow> bool" where
  "accepts p e \<longleftrightarrow> (\<forall>depth rest. stops p rest \<longrightarrow> length (print_expr e p @ rest) \<le> depth \<longrightarrow>
     level_parser depth p (print_expr e p @ rest) = Some (Inr (to_node e, rest)))"

text \<open>For a binary level: the parser has read the expression and stands in its loop.\<close>

definition loops_at :: "nat \<Rightarrow> expr \<Rightarrow> bool" where
  "loops_at p e \<longleftrightarrow> (\<forall>depth rest. stops (Suc p) rest \<longrightarrow> length (print_expr e p @ rest) \<le> depth \<longrightarrow>
     level_parser depth p (print_expr e p @ rest) = binary_loop (Suc (length rest)) (ops_at p) (level_parser depth (Suc p)) (to_node e) rest)"

lemma stops_mono: "stops p ts \<Longrightarrow> p \<le> q \<Longrightarrow> stops q ts"
  by (simp add: stops_def)

lemma chains_same:
  assumes "p < 5" "print_expr e p = print_expr e (Suc p)" "accepts (Suc p) e"
  shows "loops_at p e"
  using assms unfolding loops_at_def accepts_def level_parser_binary[OF assms(1)] by (simp add: parse_binary_def bind_parser_def)

lemma chains_accepts:
  assumes "p < 5" "loops_at p e"
  shows "accepts p e"
  unfolding accepts_def
proof (intro allI impI)
  fix depth rest assume r: "stops p rest" "length (print_expr e p @ rest) \<le> depth"
  have "\<not> is_op (ops_at p) (Parser_peek rest)" using r(1) assms(1) by (simp add: stops_def)
  then show "level_parser depth p (print_expr e p @ rest) = Some (Inr (to_node e, rest))"
    using assms(2) r stops_mono[OF r(1), of "Suc p"] by (simp add: loops_at_def)
qed

lemma op_level_ops_at:
  assumes "op \<in> set (logical_ops @ comparison_ops @ arithmetic_ops)"
  shows "op_level op < 5" "op \<in> set (ops_at (op_level op))" "q < 5 \<Longrightarrow> op \<in> set (ops_at q) \<Longrightarrow> q = op_level op"
proof -
  have all: "op_level op < 5 \<and> op \<in> set (ops_at (op_level op)) \<and> (\<forall>q < 5. op \<in> set (ops_at q) \<longrightarrow> q = op_level op)"
    if "op \<in> {''||'', ''&&'', ''=='', ''!='', ''<'', ''<='', ''>'', ''>='', ''in'', ''contains'', ''+'', ''-'', ''*'', ''/''}" for op
    using that by (elim insertE emptyE) (auto simp: op_level_def ops_at_def comparison_ops_def dest!: less_5)
  have "op \<in> {''||'', ''&&'', ''=='', ''!='', ''<'', ''<='', ''>'', ''>='', ''in'', ''contains'', ''+'', ''-'', ''*'', ''/''}"
    using assms by (simp add: logical_ops_def comparison_ops_def arithmetic_ops_def)
  from all[OF this] show "op_level op < 5" "op \<in> set (ops_at (op_level op))" "q < 5 \<Longrightarrow> op \<in> set (ops_at q) \<Longrightarrow> q = op_level op" by blast+
qed

lemma chains_binary:
  assumes op: "op \<in> set (logical_ops @ comparison_ops @ arithmetic_ops)"
    and l: "loops_at (op_level op) l" and r: "accepts (Suc (op_level op)) r"
  shows "loops_at (op_level op) (EBinary l op r)"
  unfolding loops_at_def
proof (intro allI impI)
  let ?q = "op_level op"
  note lv = op_level_ops_at[OF op]
  fix depth rest assume rest: "stops (Suc ?q) rest" "length (print_expr (EBinary l op r) ?q @ rest) \<le> depth"
  let ?t = "tok TokOp op" and ?ts = "print_expr r (Suc ?q) @ rest"
  have pr: "print_expr (EBinary l op r) ?q @ rest = print_expr l ?q @ ?t # ?ts" by (simp add: parens_if_def)
  have st: "stops (Suc ?q) (?t # ?ts)" using lv(3) by (fastforce simp: stops_def is_op_def Parser_peek_def tok_def)
  have len: "length (print_expr l ?q @ ?t # ?ts) \<le> depth" using rest(2) by (simp only: pr)
  then have "level_parser depth ?q (print_expr (EBinary l op r) ?q @ rest) =
      binary_loop (Suc (length (?t # ?ts))) (ops_at ?q) (level_parser depth (Suc ?q)) (to_node l) (?t # ?ts)"
    unfolding pr using l st by (simp only: loops_at_def)
  also have "\<dots> = bind_parser (level_parser depth (Suc ?q) ?ts) (\<lambda>right. binary_loop (length (?t # ?ts)) (ops_at ?q) (level_parser depth (Suc ?q)) (BinaryNode (to_node l) op right))"
    using lv(2) by (simp add: is_op_def Parser_peek_def tok_def)
  also have "level_parser depth (Suc ?q) ?ts = Some (Inr (to_node r, rest))" using r rest(1) len by (simp add: accepts_def)
  also have "bind_parser (Some (Inr (to_node r, rest))) (\<lambda>right. binary_loop (length (?t # ?ts)) (ops_at ?q) (level_parser depth (Suc ?q)) (BinaryNode (to_node l) op right)) =
      binary_loop (length (?t # ?ts)) (ops_at ?q) (level_parser depth (Suc ?q)) (to_node (EBinary l op r)) rest" by (simp add: bind_parser_def)
  also have "\<dots> = binary_loop (Suc (length rest)) (ops_at ?q) (level_parser depth (Suc ?q)) (to_node (EBinary l op r)) rest"
    by (rule binary_loop_budget[OF total_level_parser]) (use len lv(1) in simp_all)
  finally show "level_parser depth ?q (print_expr (EBinary l op r) ?q @ rest) = \<dots>" .
qed

subsection \<open>From one level to the next\<close>

definition starts_primary :: "Token list \<Rightarrow> bool" where
  "starts_primary ts \<longleftrightarrow> ts \<noteq> [] \<and> tk_Type (hd ts) \<notin> {TokOp, TokRBracket, TokEOF}"

lemma accepts_unary_level:
  assumes "accepts 6 e" "print_expr e 5 = print_expr e 6" "starts_primary (print_expr e 6)"
  shows "accepts 5 e"
proof -
  have "\<not> is_op [''!'', ''-''] (Parser_peek (print_expr e 6 @ rest))" for rest
    using assms(3) by (cases "print_expr e 6") (simp_all add: starts_primary_def is_op_def Parser_peek_def)
  then have "level_parser depth 5 (print_expr e 5 @ rest) = level_parser depth 6 (print_expr e 6 @ rest)" for depth rest
    by (simp add: level_parser_def parseUnary_def assms(2))
  then show ?thesis using assms(1,2) by (simp add: accepts_def stops_def)
qed

text \<open>An expression that prints alike on the levels from \<open>p\<close> to \<open>q\<close> is accepted on all of them if it is on the last.\<close>

lemma accepts_down:
  assumes "q \<le> 5" "accepts q e" "\<And>p'. p \<le> p' \<Longrightarrow> p' < q \<Longrightarrow> print_expr e p' = print_expr e (Suc p')" "p \<le> q"
  shows "accepts p e"
  using assms(4)
proof (induction p rule: inc_induct)
  case (step p')
  have same: "print_expr e p' = print_expr e (Suc p')" and p': "p' < 5" using step assms(1) assms(3)[of p'] by auto
  show ?case by (rule chains_accepts[OF p' chains_same[OF p' same step(3)]])
qed (rule assms(2))

lemma accepts_primary:
  assumes "accepts 6 e" "\<And>p. p \<le> 5 \<Longrightarrow> print_expr e p = print_expr e 6" "starts_primary (print_expr e 6)" "p \<le> 6"
  shows "accepts p e"
proof (cases "p = 6")
  case False
  have five: "accepts 5 e" by (rule accepts_unary_level[OF assms(1) _ assms(3)]) (simp add: assms(2))
  have same: "print_expr e p' = print_expr e (Suc p')" if "p' < 5" for p'
    using assms(2)[of p'] assms(2)[of "Suc p'"] that by simp
  show ?thesis by (rule accepts_down[OF order_refl five same]) (use False assms(4) in arith)+
qed (use assms(1) in simp)

lemma accepts_parens:
  assumes "accepts 0 e" "print_expr e 6 = [tok TokLParen ''(''] @ print_expr e 0 @ [tok TokRParen '')'']"
  shows "accepts 6 e" "starts_primary (print_expr e 6)"
proof -
  show "starts_primary (print_expr e 6)" by (simp add: assms(2) starts_primary_def tok_def)
  have "level_parser depth 6 (print_expr e 6 @ rest) = Some (Inr (to_node e, rest))" if "length (print_expr e 6 @ rest) \<le> depth" for depth rest
  proof -
    have "depth \<noteq> 0" using that unfolding assms(2) by auto
    then obtain d where d: "depth = Suc d" by (cases depth) auto
    have st: "stops 0 (tok TokRParen '')'' # rest)" by (simp add: stops_def is_op_def Parser_peek_def tok_def)
    have "level_parser d 0 (print_expr e 0 @ tok TokRParen '')'' # rest) = Some (Inr (to_node e, tok TokRParen '')'' # rest))"
      using assms(1) st that d unfolding accepts_def assms(2) by simp
    then have "parseLogicalOr depth (print_expr e 0 @ tok TokRParen '')'' # rest) = Some (Inr (to_node e, tok TokRParen '')'' # rest))"
      by (simp only: level_parser_def nth_Cons_0 d)
    then show ?thesis by (simp add: level_parser_def assms(2) parsePrimary_def Parser_peek_def tok_def bind_parser_def)
  qed
  then show "accepts 6 e" by (simp add: accepts_def)
qed

text \<open>Nothing that is printed is empty or begins with a closing bracket.\<close>

lemma print_starts: "print_expr e p \<noteq> [] \<and> tk_Type (hd (print_expr e p)) \<noteq> TokRBracket"
  by (induction e arbitrary: p) (simp_all add: tok_def parens_if_def)

subsection \<open>All expressions\<close>

lemma accepts_binary:
  assumes op: "op \<in> set (logical_ops @ comparison_ops @ arithmetic_ops)"
    and l: "\<And>p. p \<le> 6 \<Longrightarrow> accepts p l" "loops_at (op_level op) l" and r: "\<And>p. p \<le> 6 \<Longrightarrow> accepts p r" and p: "p \<le> 6"
  shows "accepts p (EBinary l op r)"
proof -
  let ?e = "EBinary l op r" and ?q = "op_level op"
  note lv = op_level_ops_at[OF op]
  have "loops_at ?q ?e" using lv(1) by (intro chains_binary op l(2) r) simp
  then have at: "accepts ?q ?e" by (rule chains_accepts[OF lv(1)])
  have low: "accepts p' ?e" if "p' \<le> ?q" for p'
    by (rule accepts_down[OF _ at _ that]) (use lv(1) in \<open>simp_all add: parens_if_def\<close>)
  have six: "accepts 6 ?e" "starts_primary (print_expr ?e 6)"
    using accepts_parens[OF low[of 0]] lv(1) by (simp_all add: parens_if_def)
  have high: "accepts p' ?e" if "?q < p'" "p' \<le> 5" for p'
  proof (rule accepts_down[of 5])
    show "accepts 5 ?e" by (rule accepts_unary_level[OF six(1) _ six(2)]) (use lv(1) in \<open>simp add: parens_if_def\<close>)
  qed (use that in \<open>simp_all add: parens_if_def\<close>)
  show ?thesis using low high six(1) p by (cases "p \<le> ?q"; cases "p = 6") auto
qed

lemma accepts_unary:
  assumes "op \<in> {''!'', ''-''}" "\<And>p. p \<le> 6 \<Longrightarrow> accepts p e" "p \<le> 6"
  shows "accepts p (EUnary op e)"
proof -
  have "level_parser depth 5 (print_expr (EUnary op e) 5 @ rest) = Some (Inr (to_node (EUnary op e), rest))"
    if "length (print_expr (EUnary op e) 5 @ rest) \<le> depth" for depth rest
  proof -
    have "level_parser depth 6 (print_expr e 6 @ rest) = Some (Inr (to_node e, rest))"
      using assms(2)[of 6] that by (simp add: accepts_def stops_def parens_if_def)
    then show ?thesis using assms(1)
      by (simp add: level_parser_def parseUnary_def is_op_def Parser_peek_def parens_if_def tok_def bind_parser_def)
  qed
  then have at: "accepts 5 (EUnary op e)" by (simp add: accepts_def)
  have low: "accepts p' (EUnary op e)" if "p' \<le> 5" for p'
    by (rule accepts_down[OF _ at _ that]) (simp_all add: parens_if_def)
  have "accepts 6 (EUnary op e)" by (rule accepts_parens(1)[OF low]) (simp_all add: parens_if_def)
  then show ?thesis using low assms(3) by (cases "p = 6") simp_all
qed

lemma list_loop_accepts:
  assumes "\<And>e. e \<in> set es \<Longrightarrow> accepts 0 e"
  shows "length (commas (map (\<lambda>e. print_expr e 0) es) @ tok TokRBracket '']'' # rest) < n \<Longrightarrow>
    length (commas (map (\<lambda>e. print_expr e 0) es) @ tok TokRBracket '']'' # rest) \<le> depth \<Longrightarrow>
    list_loop n (level_parser depth 0) acc (commas (map (\<lambda>e. print_expr e 0) es) @ tok TokRBracket '']'' # rest) =
      Some (Inr (acc @ map to_node es, tok TokRBracket '']'' # rest))"
  using assms
proof (induction es arbitrary: n acc)
  case Nil
  then show ?case by (cases n) (simp_all add: Parser_peek_def tok_def)
next
  case (Cons e es)
  obtain k where n: "n = Suc k" using Cons.prems(1) by (cases n) auto
  let ?rb = "tok TokRBracket '']'' # rest" and ?more = "commas (map (\<lambda>e. print_expr e 0) es) @ tok TokRBracket '']'' # rest"
  let ?tail = "if es = [] then ?rb else tok TokComma '','' # ?more"
  have pr: "commas (map (\<lambda>e. print_expr e 0) (e # es)) @ ?rb = print_expr e 0 @ ?tail" by (cases es) simp_all
  have st: "stops 0 ?tail" by (simp add: stops_def is_op_def Parser_peek_def tok_def)
  have len: "length (print_expr e 0 @ ?tail) \<le> depth" "length (print_expr e 0 @ ?tail) < n" using Cons.prems(1,2) by (simp_all only: pr)
  have el: "level_parser depth 0 (print_expr e 0 @ ?tail) = Some (Inr (to_node e, ?tail))"
    using Cons.prems(3)[of e] st len(1) by (simp add: accepts_def)
  have peek: "tk_Type (Parser_peek (print_expr e 0 @ ?tail)) \<noteq> TokRBracket"
    using print_starts[of e 0] by (cases "print_expr e 0") (simp_all add: Parser_peek_def)
  have ne: "0 < length (print_expr e 0)" using print_starts[of e 0] by simp
  show ?case
  proof (cases "es = []")
    case True
    then show ?thesis using el peek len(2) ne unfolding pr n by (cases k) (simp_all add: bind_parser_def Parser_peek_def tok_def)
  next
    case False
    have "list_loop k (level_parser depth 0) (acc @ [to_node e]) ?more = Some (Inr ((acc @ [to_node e]) @ map to_node es, ?rb))"
      by (rule Cons.IH) (use len False ne n Cons.prems(3) in auto)
    then show ?thesis using el peek False unfolding pr n by (simp add: bind_parser_def Parser_peek_def tok_def)
  qed
qed

lemma accepts_list:
  assumes "\<And>e. e \<in> set es \<Longrightarrow> accepts 0 e"
  shows "accepts 6 (EList es)"
  unfolding accepts_def
proof (intro allI impI)
  fix depth rest assume len: "length (print_expr (EList es) 6 @ rest) \<le> depth"
  let ?ts = "commas (map (\<lambda>e. print_expr e 0) es) @ tok TokRBracket '']'' # rest"
  have "depth \<noteq> 0" using len by auto
  then obtain d where d: "depth = Suc d" by (cases depth) auto
  have pr: "print_expr (EList es) 6 @ rest = tok TokLBracket ''['' # ?ts" by (simp add: comp_def)
  have "list_loop (Suc (length ?ts)) (level_parser d 0) [] ?ts = Some (Inr ([] @ map to_node es, tok TokRBracket '']'' # rest))"
    by (rule list_loop_accepts[OF assms]) (use len d in \<open>simp_all add: comp_def\<close>)
  moreover have "level_parser d 0 = parseLogicalOr depth" by (simp add: level_parser_def d)
  ultimately show "level_parser depth 6 (print_expr (EList es) 6 @ rest) = Some (Inr (to_node (EList es), rest))"
    unfolding pr by (simp add: level_parser_def parsePrimary_def Parser_peek_def tok_def bind_parser_def del: list_loop.simps)
qed

lemma chains_when_same:
  assumes "\<And>p. p \<le> 6 \<Longrightarrow> accepts p e" "p < 5" "print_expr e p = print_expr e (Suc p)"
  shows "loops_at p e"
  by (rule chains_same[OF assms(2,3)]) (use assms(1,2) in simp)

lemma accepts_atom:
  assumes "\<And>p. print_expr e p = [t]" "tk_Type t \<in> {TokNumber, TokString, TokBool, TokNull, TokPath}"
    "\<And>rest logicalOr. parsePrimary logicalOr (t # rest) = Some (Inr (to_node e, rest))"
  shows "(\<forall>p \<le> 6. accepts p e) \<and> (\<forall>p < 5. loops_at p e)"
proof -
  have six: "accepts 6 e" by (simp add: accepts_def assms(1,3) level_parser_def)
  have "starts_primary (print_expr e 6)" using assms(2) by (auto simp: starts_primary_def assms(1))
  from accepts_primary[OF six _ this] have acc: "accepts p e" if "p \<le> 6" for p
    using that by (simp add: assms(1))
  have "loops_at p e" if "p < 5" for p by (rule chains_when_same[OF acc that]) (simp_all add: assms(1))
  then show ?thesis using acc by blast
qed

lemma accepts_all: "legal e \<Longrightarrow> (\<forall>p \<le> 6. accepts p e) \<and> (\<forall>p < 5. loops_at p e)"
proof (induction e)
  case (EList es)
  then have "accepts 0 e" if "e \<in> set es" for e using that by (auto simp: list_all_iff)
  then have six: "accepts 6 (EList es)" by (rule accepts_list)
  have acc: "accepts p (EList es)" if "p \<le> 6" for p
    by (rule accepts_primary[OF six _ _ that]) (simp_all add: starts_primary_def tok_def)
  moreover have "loops_at p (EList es)" if "p < 5" for p by (rule chains_when_same[OF acc that]) simp_all
  ultimately show ?case by blast
next
  case (EUnary op e)
  then have acc: "accepts p (EUnary op e)" if "p \<le> 6" for p using that by (intro accepts_unary) auto
  moreover have "loops_at p (EUnary op e)" if "p < 5" for p
    by (rule chains_when_same[OF acc that]) (use that in \<open>simp_all add: parens_if_def\<close>)
  ultimately show ?case by blast
next
  case (EBinary l op r)
  then have op: "op \<in> set (logical_ops @ comparison_ops @ arithmetic_ops)" by simp
  note lv = op_level_ops_at(1)[OF op]
  have acc: "accepts p (EBinary l op r)" if "p \<le> 6" for p
    using that EBinary lv by (intro accepts_binary op) simp_all
  have "loops_at p (EBinary l op r)" if "p < 5" for p
  proof (cases "p = op_level op")
    case True
    then show ?thesis using chains_binary[OF op] EBinary lv by simp
  next
    case False
    then have "print_expr (EBinary l op r) p = print_expr (EBinary l op r) (Suc p)" by (auto simp: parens_if_def)
    then show ?thesis by (intro chains_when_same[OF acc that])
  qed
  then show ?case using acc by blast
next
  case (ENumber s)
  show ?case by (rule accepts_atom[where t = "tok TokNumber s"]) (simp_all add: tok_def parsePrimary_def Parser_peek_def)
next
  case (EString s)
  show ?case by (rule accepts_atom[where t = "tok TokString s"]) (simp_all add: tok_def parsePrimary_def Parser_peek_def)
next
  case (EBool b)
  show ?case by (rule accepts_atom[where t = "tok TokBool (if b then ''true'' else ''false'')"]) (simp_all add: tok_def parsePrimary_def Parser_peek_def)
next
  case ENull
  show ?case by (rule accepts_atom[where t = "tok TokNull ''null''"]) (simp_all add: tok_def parsePrimary_def Parser_peek_def)
next
  case (EPath s)
  show ?case by (rule accepts_atom[where t = "tok TokPath s"]) (simp_all add: tok_def parsePrimary_def Parser_peek_def)
qed

lemma parse_printed_tokens:
  assumes "legal e"
  defines "ts \<equiv> print_expr e 0 @ [tok TokEOF []]"
  shows "parseLogicalOr (Suc (length ts)) ts = Some (Inr (to_node e, [tok TokEOF []]))"
proof -
  have "stops 0 [tok TokEOF []]" by (simp add: stops_def is_op_def Parser_peek_def tok_def)
  then have "level_parser (length ts) 0 ts = Some (Inr (to_node e, [tok TokEOF []]))"
    using accepts_all[OF assms(1)] by (simp add: accepts_def ts_def)
  then show ?thesis by (simp add: level_parser_def)
qed

section \<open>Reading printed text\<close>

definition escape_char :: "char \<Rightarrow> string" where
  "escape_char c =
     (if c = CHR 0x0A then [CHR 0x5C, CHR ''n''] else if c = CHR 0x09 then [CHR 0x5C, CHR ''t'']
      else if c = CHR 0x22 \<or> c = CHR 0x5C then [CHR 0x5C, c] else [c])"

definition render :: "Token \<Rightarrow> string" where
  "render t = (if tk_Type t = TokString then [CHR 0x22] @ concat (map escape_char (tk_Value t)) @ [CHR 0x22] else tk_Value t)"

definition expr_text :: "Token list \<Rightarrow> string" where
  "expr_text ts = concat (map (\<lambda>t. render t @ [CHR '' '']) ts)"

fun fixed_tokens :: "TokenType \<Rightarrow> string list" where
  "fixed_tokens TokBool = [''true'', ''false'']"
| "fixed_tokens TokNull = [''null'']"
| "fixed_tokens TokOp = [''||'', ''&&'', ''=='', ''!='', ''<'', ''<='', ''>'', ''>='', ''in'', ''contains'', ''+'', ''-'', ''*'', ''/'', ''!'']"
| "fixed_tokens TokLParen = [''('']"
| "fixed_tokens TokRParen = ['')'']"
| "fixed_tokens TokLBracket = [''['']"
| "fixed_tokens TokRBracket = ['']'']"
| "fixed_tokens TokComma = ['','']"
| "fixed_tokens _ = []"

definition token_ok :: "Token \<Rightarrow> bool" where
  "token_ok t =
     (case tk_Type t of
        TokNumber \<Rightarrow> tk_Value t \<noteq> '''' \<and> IsDigit (hd (tk_Value t)) \<and> lex_number False (tk_Value t) = (tk_Value t, [])
      | TokString \<Rightarrow> CHR 0x00 \<notin> set (tk_Value t)
      | TokPath \<Rightarrow> tk_Value t \<noteq> '''' \<and> hd (tk_Value t) = CHR ''$'' \<and> list_all path_char (tl (tk_Value t))
      | ty \<Rightarrow> tk_Value t \<in> set (fixed_tokens ty))"

lemma lex_number_append:
  "lex_number d s = (s, []) \<Longrightarrow> \<not> IsDigit c \<Longrightarrow> c \<noteq> CHR ''.'' \<Longrightarrow> lex_number d (s @ c # rest) = (s, c # rest)"
  by (induction d s rule: lex_number.induct) (auto split: prod.splits if_splits)

lemma lex_string_escape:
  "CHR 0x00 \<notin> set s \<Longrightarrow> lex_string (CHR 0x22) b (concat (map escape_char s) @ CHR 0x22 # rest) = Some (b @ s, rest)"
  by (induction s arbitrary: b) (auto simp: escape_char_def)

lemma digit_chars:
  assumes "IsDigit c"
  shows "c \<notin> {CHR ''('', CHR '')'', CHR ''['', CHR '']'', CHR '','', CHR 0x22, CHR 0x27, CHR ''$'', CHR 0x00}" "\<not> is_space c"
  using assms by (auto simp: IsDigit_def is_space_def)

lemma NextToken_char:
  assumes "c \<noteq> CHR 0x00" "\<not> is_space c"
  shows "NextToken (c # rest) = lex_token c rest"
  using assms by (simp add: NextToken_def Lexer_peek_def)

lemma NextToken_number:
  assumes "s \<noteq> ''''" "IsDigit (hd s)" "lex_number False s = (s, [])"
  shows "NextToken (s @ CHR '' '' # rest) = Inr (tok TokNumber s, CHR '' '' # rest)"
proof -
  obtain c cs where s: "s = c # cs" using assms(1) by (cases s) auto
  note c = digit_chars[of c]
  have "lex_number False (c # cs @ CHR '' '' # rest) = (s, CHR '' '' # rest)"
    using lex_number_append[OF assms(3), of "CHR '' ''" rest] by (simp add: s IsDigit_def)
  then show ?thesis using c assms(2) unfolding s
    by (simp add: NextToken_char lex_token_def del: lex_number.simps)
qed

lemma NextToken_string:
  assumes "CHR 0x00 \<notin> set s"
  shows "NextToken (CHR 0x22 # concat (map escape_char s) @ CHR 0x22 # rest) = Inr (tok TokString s, rest)"
  using lex_string_escape[OF assms, of "[]" rest] by (simp add: NextToken_char is_space_def lex_token_def)

lemma NextToken_path:
  assumes "list_all path_char cs"
  shows "NextToken (CHR ''$'' # cs @ CHR '' '' # rest) = Inr (tok TokPath (CHR ''$'' # cs), CHR '' '' # rest)"
proof -
  have "\<not> path_char (CHR '' '')" by (simp add: path_char_def IsLetter_def IsDigit_def)
  then have "takeWhile path_char (cs @ CHR '' '' # rest) = cs" "dropWhile path_char (cs @ CHR '' '' # rest) = CHR '' '' # rest"
    using assms by (simp_all add: list_all_iff)
  then show ?thesis by (simp add: NextToken_char is_space_def lex_token_def)
qed

lemmas lex_fixed = NextToken_char is_space_def lex_token_def IsDigit_def IsLetter_def ident_char_def word_token_def
  ToLower_def lower_char_def two_char_ops_def one_char_ops_def tok_def

lemma NextToken_op:
  assumes "op \<in> set (fixed_tokens TokOp)"
  shows "NextToken (op @ CHR '' '' # rest) = Inr (tok TokOp op, CHR '' '' # rest)"
  using assms unfolding fixed_tokens.simps list.set by (elim insertE emptyE) (simp_all add: lex_fixed)

lemma NextToken_fixed:
  assumes "tk_Type t \<notin> {TokNumber, TokString, TokPath}" "tk_Value t \<in> set (fixed_tokens (tk_Type t))"
  shows "NextToken (tk_Value t @ CHR '' '' # rest) = Inr (t, CHR '' '' # rest)"
proof (cases "tk_Type t = TokOp")
  case True
  then show ?thesis using assms(2) NextToken_op[of "tk_Value t" rest] by (simp only: tok_def) (metis Token.surjective old.unit.exhaust)
next
  case False
  then show ?thesis using assms by (cases t; cases "tk_Type t") (auto simp: lex_fixed)
qed

lemma NextToken_render:
  assumes "token_ok t"
  shows "NextToken (render t @ CHR '' '' # rest) = Inr (t, CHR '' '' # rest)"
proof -
  have t: "t = tok (tk_Type t) (tk_Value t)" by (simp add: tok_def)
  consider "tk_Type t = TokNumber" | "tk_Type t = TokString" | "tk_Type t = TokPath" | "tk_Type t \<notin> {TokNumber, TokString, TokPath}" by blast
  then show ?thesis
  proof cases
    case 1
    then show ?thesis using assms NextToken_number[of "tk_Value t" rest] t by (simp add: token_ok_def render_def)
  next
    case 2
    then show ?thesis using assms NextToken_string[of "tk_Value t" "CHR '' '' # rest"] t by (simp add: token_ok_def render_def)
  next
    case 3
    then obtain cs where "tk_Value t = CHR ''$'' # cs" "list_all path_char cs"
      using assms by (cases "tk_Value t") (simp_all add: token_ok_def)
    then show ?thesis using 3 NextToken_path[of cs rest] t by (simp add: render_def)
  next
    case 4
    then have "tk_Value t \<in> set (fixed_tokens (tk_Type t))" using assms by (cases "tk_Type t") (simp_all add: token_ok_def)
    then show ?thesis using NextToken_fixed[OF 4] 4 by (simp add: render_def)
  qed
qed

lemma tokenize_text:
  "list_all token_ok ts \<Longrightarrow> tokenize acc (expr_text ts) = Inr (acc @ ts @ [tok TokEOF []])"
proof (induction ts arbitrary: acc)
  case Nil
  then show ?case by (subst tokenize.simps) (simp add: expr_text_def NextToken_def Lexer_peek_def tok_def)
next
  case (Cons t ts)
  have sp: "tokenize a (CHR '' '' # l) = tokenize a l" for a l
    by (subst (1 2) tokenize.simps) (simp add: NextToken_def is_space_def)
  have eof: "tk_Type t \<noteq> TokEOF" using Cons.prems by (auto simp: token_ok_def)
  have "tokenize acc (expr_text (t # ts)) = tokenize (acc @ [t]) (CHR '' '' # expr_text ts)"
    using Cons.prems eof NextToken_render[of t "expr_text ts"] by (subst tokenize.simps) (simp add: expr_text_def)
  then show ?case using Cons by (simp add: sp)
qed

lemma token_ok_punctuation [simp]:
  "token_ok (tok TokLBracket ''['')" "token_ok (tok TokRBracket '']'')" "token_ok (tok TokLParen ''('')" "token_ok (tok TokRParen '')'')" "token_ok (tok TokComma '','')"
  by (simp_all add: token_ok_def tok_def)

lemma token_ok_commas: "list_all (list_all token_ok) tss \<Longrightarrow> list_all token_ok (commas tss)"
  by (induction tss rule: commas.induct) simp_all

lemma token_ok_print: "legal e \<Longrightarrow> list_all token_ok (print_expr e p)"
proof (induction e arbitrary: p)
  case (EList es)
  then have "list_all (list_all token_ok) (map (\<lambda>e. print_expr e 0) es)" by (simp add: list_all_iff)
  from token_ok_commas[OF this] show ?case by (simp add: comp_def)
next
  case (EUnary op e)
  then have "token_ok (tok TokOp op)" by (auto simp: token_ok_def tok_def)
  then show ?case using EUnary by (simp add: parens_if_def)
next
  case (EBinary l op r)
  then have "token_ok (tok TokOp op)" by (auto simp: token_ok_def tok_def logical_ops_def comparison_ops_def arithmetic_ops_def)
  then show ?case using EBinary by (simp add: parens_if_def)
qed (simp_all add: token_ok_def tok_def)

lemma Parse_printed: "legal e \<Longrightarrow> Parse (expr_text (print_expr e 0)) = Some (Inr (to_node e))"
  using parse_printed_tokens[of e] tokenize_text[OF token_ok_print[of e 0], of "[]"]
  by (simp add: Parse_def Parser_peek_def) (simp add: tok_def)

text \<open>
  (C23) Precedence and associativity. Every expression tree, printed with only the parentheses that the
  precedence of its operators requires (\<open>||\<close>, \<open>&&\<close>, comparisons, \<open>+ -\<close>, \<open>* /\<close> from loose to tight, all
  associating to the left, then the unary operators), is parsed back from its text to that tree. So \<open>Parse\<close> accepts
  all expressions of the grammar, at any depth, and gives each the structure that the grammar means.
\<close>

theorem Parse_print_roundtrip:
  assumes "legal e"
  shows "Parse (expr_text (print_expr e 0)) = Some (Inr (to_node e))"
  by (rule Parse_printed[OF assms])

theorem Parse_print_roundtrip_witness:
  "Parse (expr_text (print_expr (EBinary (EBinary (EPath ''$.a'') ''||'' (EPath ''$.b'')) ''&&'' (EUnary ''!'' (EPath ''$.c''))) 0)) =
   Some (Inr (BinaryNode (BinaryNode (PathNode ''$.a'') ''||'' (PathNode ''$.b'')) ''&&'' (UnaryNode ''!'' (PathNode ''$.c''))))"
  by (subst Parse_print_roundtrip) (simp_all add: logical_ops_def path_char_def IsLetter_def)

end
