(* ===== verification/Spec2Isabelle.thy ===== *)
theory Spec2Isabelle
  imports Dag State_Machine Engine_Anomalies Ring_Buffer Lru Fencing Leader Circuit_Breaker Saga Mmap_Ring Lane Atomic_Counter Deadlock Graph_Mutator Delta_Diff
    Compactor Approval Versioning Expr_Grammar
begin

text \<open>
  Tempest, a workflow orchestration engine: a verification library.

  \<^bold>\<open>The program.\<close> A client submits a run of a workflow definition, a list of steps with dependencies.
  The definition has passed \<open>pkg/validation\<close>; \<open>internal/workflow\<close> builds the run, \<open>internal/scheduler\<close>
  stores it and enqueues the steps without dependencies; a worker leases queue items, resolves the
  handler of each in the registry of \<open>internal/plugin\<close>, executes it and completes the step, which may
  enqueue further steps, retry, or finish the run. All of it is kept in a \<open>persistence.Store\<close>. Around
  this core stand packages that the engine or its deployment uses: leader election and fencing tokens,
  circuit breakers, sagas, priority lanes, deadlock detection, graph rewriting, JSON patches, the
  expression language, approvals, versions, a compaction store and the containers.

  \<^bold>\<open>How Go is read.\<close> A struct is a record (fields carry a short prefix), an enumeration of strings a
  datatype with a constructor for other strings, a method \<open>(t *T) M\<close> a function \<open>T_M\<close> (or \<open>M\<close> where
  that is unique) from the state to the new state and the result, an error an \<open>Inl\<close> or \<open>Some\<close>, a
  pointer that may be nil an option. Integers that can wrap are words; times and durations are
  nanoseconds in \<^typ>\<open>int\<close>. Every reading of a clock is an argument. The iteration order of a Go map is
  an argument too, a list that enumerates the keys, and the theorems hold for every such list.
  \<open>sort.Slice\<close>, which is not stable, is an argument with the contract that it sorts. Where the aliasing
  of slices or pointers matters (\<open>Graph.RemoveNode\<close>, the LRU list, the sagas) the model has the
  addresses. A mutex makes each method one step; where the locking itself is the claim (the state
  machine, the atomic counter) the steps are those between the atomic accesses.

  \<^bold>\<open>Theories.\<close>
  \<^item> \<open>Tempest_Prelude\<close>: Go's basic types, map iteration, decimal numerals and shared lemmas;
    \<open>Refinement\<close>: the locale of functional data refinement over sequences of calls.
  \<^item> \<open>Run_Types\<close>: \<open>pkg/types\<close> and \<open>pkg/errors\<close>; the class of a wrapped error.
  \<^item> \<open>State_Machine\<close>: \<open>internal/statemachine\<close>; life cycle of a run, and the lock protocol.
  \<^item> \<open>Dag\<close>: \<open>internal/dag\<close>; cycle check, Kahn's algorithm, removal of nodes.
  \<^item> \<open>Mem_Store\<close>: \<open>internal/persistence\<close> and \<open>memstore\<close>; the laws of its tables as locales that are
    interpreted for definitions, runs, webhooks and tokens; leasing, listing, compaction.
  \<^item> \<open>Validation\<close>, \<open>Plugin\<close>: \<open>pkg/validation\<close> and the handler registry of \<open>internal/plugin\<close>.
  \<^item> \<open>Engine\<close>: \<open>internal/workflow\<close>, \<open>internal/scheduler\<close> and one pass of each worker of
    \<open>internal/worker\<close>. \<open>Engine_Safety\<close> has the invariant over the store's tables and the order of the
    steps, \<open>Engine_Progress\<close> the completion of submitted runs, \<open>Engine_Anomalies\<close> what happens outside
    the hypotheses of these.
  \<^item> \<open>Ring_Buffer\<close>, \<open>Lru\<close>: \<open>internal/ringbuffer\<close> and \<open>internal/lru\<close>, as refinements of a bounded queue
    and of a recency list.
  \<^item> \<open>Fencing\<close>, \<open>Leader\<close>: \<open>internal/fencing\<close> and \<open>internal/leader\<close>; both token generators interpret the
    locale \<open>token_source\<close>, the in-memory coordinator interprets \<open>coordinator\<close>, and a cluster is any
    sequence of events of any number of candidates.
  \<^item> \<open>Circuit_Breaker\<close>, \<open>Saga\<close>: \<open>internal/circuitbreaker\<close>, \<open>internal/saga\<close>.
  \<^item> \<open>Mmap_Ring\<close>: \<open>internal/mmapring\<close> down to bytes, with CRC-32 and big-endian numbers.
  \<^item> \<open>Lane\<close>, \<open>Atomic_Counter\<close>: \<open>internal/lane\<close>; deficit round robin, and the interleavings of the
    compare-and-swap loop.
  \<^item> \<open>Deadlock\<close>: \<open>internal/deadlock\<close>; \<open>Graph_Mutator\<close>: \<open>internal/graphmutator\<close>.
  \<^item> \<open>Go_Strings\<close>, \<open>Map_Order\<close>, \<open>Binary_Search\<close>: what the sources use of \<open>strings\<close> and \<open>strconv\<close>, of
    ranging over a map with an order for each call, and of \<open>sort.Search\<close>.
  \<^item> \<open>Delta_Diff\<close>: \<open>internal/deltadiff\<close>; pointers, differences and their application.
  \<^item> \<open>Compactor\<close>: \<open>internal/compactor\<close>, refined to a plain map; the order of visiting a map is part of the call.
  \<^item> \<open>Approval\<close>: \<open>internal/approval\<close>; a decision is taken exactly when no outstanding vote can change it.
  \<^item> \<open>Versioning\<close>: \<open>internal/versioning\<close>; precedence as a linear order, and printing and parsing.
  \<^item> \<open>Float64\<close>: the binary64 numbers of Go, with rounding, arithmetic, \<open>ParseFloat\<close> and \<open>FormatFloat\<close>;
    \<open>Expr\<close>: the lexer, parser and evaluator of \<open>internal/expr\<close>; \<open>Expr_Types\<close>: the parser returns and
    evaluation is typed; \<open>Expr_Grammar\<close>: the parser reads back what is printed with the fewest parentheses.

  \<^bold>\<open>Loops and bounds.\<close> Loops that need not end are \<open>partial_function (option)\<close> and are proved to
  return: the scheduling loop of \<open>ScheduleNext\<close> on every scheduler that the operations reach, the cursor
  loop of \<open>Snapshot\<close> when the payloads fit. The depth-first search of \<open>DetectDeadlocks\<close> has a bound on
  its depth, one more than the number of tasks, which is proved never to be reached: the path of
  the search has no repetition. The parser of expressions has a bound on its nesting, one more than
  the number of tokens, and on its loops, the tokens left; \<open>Parse_returns\<close> shows that neither is
  reached. \<open>Kahn\<close>'s loops have termination proofs. No theorem is conditional on
  enough fuel.

  \<^bold>\<open>Assumptions.\<close> Text is ASCII where the source folds case or classifies runes. Handlers of steps,
  saga actions, clocks, lease tokens and callbacks are arbitrary arguments; a completion theorem names
  what it needs of them (handlers succeed, lease tokens are distinct). The sequence numbers of the
  compaction store do not wrap, which takes fewer than \<open>2^64\<close> calls.

  \<^bold>\<open>Not modelled.\<close> What is only input and output: \<open>cmd\<close>, \<open>internal/cli\<close>, \<open>api\<close>, \<open>grpcapi\<close>, \<open>dashboard\<close>,
  \<open>pgstore\<close> and \<open>migration\<close> (SQL through pgx), \<open>wal\<close>, \<open>blobstore\<close>, \<open>webhook\<close>, \<open>notifier\<close>, \<open>sandbox\<close>.
  What rests on float64 rates, random samples or the functions of \<open>math\<close> (\<open>Pow\<close>, \<open>Exp\<close>, \<open>Log10\<close>), of
  which \<open>Float64\<close> has only the basic arithmetic that expressions use: \<open>adaptive\<close>, \<open>aggregator\<close>, \<open>cluster\<close>, \<open>tokenbucket\<close>, \<open>throttler\<close>, \<open>promexporter\<close>, \<open>metrics\<close>, and of \<open>internal/lane\<close>
  the back-pressure. What rests on cryptography: \<open>vault\<close>, \<open>keyrotator\<close>, \<open>ledger\<close>, \<open>crypto\<close>, \<open>hasher\<close>.
  What is goroutines waiting on channels and timers: \<open>eventbus\<close>, \<open>barrier\<close>, \<open>stream\<close>, \<open>outbox\<close>, the
  tick loops of the scheduler and of the workers. What prints or parses through \<open>encoding/json\<close> or
  reflection: \<open>archiver\<close>, \<open>replay\<close>, \<open>checkpoint\<close>, \<open>config\<close>, \<open>jsonutil\<close>, and the binary patch
  format of \<open>internal/deltadiff\<close>.
\<close>

end
